theory Spec2Isabelle
  imports Main "HOL-Library.Word"
begin

unbundle bit_operations_syntax

section \<open>Machine integers, ELF constants, errors\<close>

type_synonym u8 = "8 word"
type_synonym u16 = "16 word"
type_synonym u32 = "32 word"
type_synonym u64 = "64 word"

text \<open>
  Every way a run of the linker stops early is a value. \<open>Fatal\<close> carries the text
  of the \<^verbatim>\<open>Fatal(ctx) << ...\<close> diagnostic. \<open>AssertionFailed\<close> is a failed
  \<^verbatim>\<open>assert\<close>. \<open>OutOfBounds\<close> and \<open>NullPointer\<close> stand for reads the C++
  code performs without a check (a vector index past the end, a byte past the end of a
  section, a null \<^verbatim>\<open>Symbol *\<close>): the model refuses to continue there.
\<close>

datatype error = Fatal string | AssertionFailed | OutOfBounds | NullPointer

text \<open>The ELF constants the source names (their values are those of the ELF ABI).\<close>

definition STV_DEFAULT :: u8 where "STV_DEFAULT = 0"
definition STV_INTERNAL :: u8 where "STV_INTERNAL = 1"
definition STV_HIDDEN :: u8 where "STV_HIDDEN = 2"
definition STV_PROTECTED :: u8 where "STV_PROTECTED = 3"

definition STB_GLOBAL :: u8 where "STB_GLOBAL = 1"
definition STB_WEAK :: u8 where "STB_WEAK = 2"

definition STT_SECTION :: u8 where "STT_SECTION = 3"

definition VER_NDX_LOCAL :: u16 where "VER_NDX_LOCAL = 0"
definition VER_NDX_GLOBAL :: u16 where "VER_NDX_GLOBAL = 1"
definition VER_NDX_UNSPECIFIED :: u16 where "VER_NDX_UNSPECIFIED = 0xffff"
definition VERSYM_HIDDEN :: u16 where "VERSYM_HIDDEN = 0x8000"

definition SHN_UNDEF :: u16 where "SHN_UNDEF = 0"
definition SHN_ABS :: u16 where "SHN_ABS = 0xfff1"
definition SHN_COMMON :: u16 where "SHN_COMMON = 0xfff2"

text \<open>Sequencing of fallible steps: the first error ends the run.\<close>

definition bind_err :: "error + 'a \<Rightarrow> ('a \<Rightarrow> error + 'b) \<Rightarrow> error + 'b" where
  "bind_err m f = (case m of Inl e \<Rightarrow> Inl e | Inr x \<Rightarrow> f x)"

text \<open>A vector read \<^verbatim>\<open>v[i]\<close>; past the end it is \<open>OutOfBounds\<close>.\<close>

definition at :: "'a list \<Rightarrow> nat \<Rightarrow> error + 'a" where
  "at xs i = (if i < length xs then Inr (xs ! i) else Inl OutOfBounds)"

text \<open>
  A counted \<^verbatim>\<open>for\<close> loop over the indices \<open>is\<close>, threading the state; a
  \<^verbatim>\<open>Fatal\<close> in the body ends the loop.
\<close>

fun for_each :: "('s \<Rightarrow> nat \<Rightarrow> error + 's) \<Rightarrow> nat list \<Rightarrow> 's \<Rightarrow> error + 's" where
  "for_each body [] s = Inr s"
| "for_each body (i # is) s = (case body s i of Inl e \<Rightarrow> Inl e | Inr s' \<Rightarrow> for_each body is s')"

section \<open>Symbol table entries and symbols\<close>

text \<open>
  \<^verbatim>\<open>ElfSym<E>\<close>. \<open>st_name\<close> holds the string the entry's name offset denotes
  (\<^verbatim>\<open>symbol_strtab.data() + esym.st_name\<close>).
\<close>

record ElfSym =
  st_name :: string
  st_value :: u64
  st_bind :: u8
  st_type :: u8
  st_visibility :: u8
  st_shndx :: u16

definition is_undef :: "ElfSym \<Rightarrow> bool" where
  "is_undef esym = (st_shndx esym = SHN_UNDEF)"

definition is_abs :: "ElfSym \<Rightarrow> bool" where
  "is_abs esym = (st_shndx esym = SHN_ABS)"

definition is_common :: "ElfSym \<Rightarrow> bool" where
  "is_common esym = (st_shndx esym = SHN_COMMON)"

definition esym_is_weak :: "ElfSym \<Rightarrow> bool" where
  "esym_is_weak esym = (st_bind esym = STB_WEAK)"

text \<open>
  A \<^verbatim>\<open>Symbol *\<close> is the address of a symbol object: a slot of a file's
  \<^verbatim>\<open>local_syms\<close> or \<^verbatim>\<open>frag_syms\<close> vector (file, index), or the object the
  interner \<^verbatim>\<open>ctx.symbol_map\<close> holds for a key.
\<close>

datatype sym_ref = LocalSym nat nat | GlobalSym string | FragSym nat nat

record Symbol =
  name :: string
  sym_file :: "nat option"
  origin :: "sym_ref option"
  input_section :: "nat option"
  frag :: "nat option"
  sym_value :: u64
  sym_idx :: int
  ver_idx :: u16
  visibility :: u8
  is_weak :: bool
  is_versioned_default :: bool
  is_wrapped :: bool
  is_traced :: bool
  skip_dso :: bool

type_synonym sym_heap = "sym_ref \<rightharpoonup> Symbol"

text \<open>
  Modelled from the spec: the \<^verbatim>\<open>Symbol\<close> class and its constructor are declared in
  mold.h, which is not under src/. A fresh symbol has no owning file (it is undefined
  everywhere), no section or fragment, default visibility and all flags clear.
\<close>

definition new_symbol :: "string \<Rightarrow> Symbol" where
  "new_symbol nm =
     \<lparr>name = nm, sym_file = None, origin = None, input_section = None, frag = None,
      sym_value = 0, sym_idx = -1, ver_idx = VER_NDX_UNSPECIFIED, visibility = STV_DEFAULT,
      is_weak = False, is_versioned_default = False, is_wrapped = False, is_traced = False,
      skip_dso = False\<rparr>"

text \<open>Following a \<^verbatim>\<open>Symbol *\<close>: the address and the object it holds.\<close>

definition deref :: "sym_heap \<Rightarrow> sym_ref option \<Rightarrow> error + sym_ref \<times> Symbol" where
  "deref heap p =
     (case p of None \<Rightarrow> Inl NullPointer
      | Some r \<Rightarrow> (case heap r of None \<Rightarrow> Inl NullPointer | Some s \<Rightarrow> Inr (r, s)))"

section \<open>Visibility merge\<close>

text \<open>The lambda \<^verbatim>\<open>priority\<close> of \<^verbatim>\<open>ObjectFile::merge_visibility\<close>.\<close>

definition vis_priority :: "u8 \<Rightarrow> error + nat" where
  "vis_priority v =
     (if v = STV_HIDDEN then Inr 1
      else if v = STV_PROTECTED then Inr 2
      else if v = STV_DEFAULT then Inr 3
      else Inl (Fatal ''unknown symbol visibility''))"

text \<open>
  \<^verbatim>\<open>update_minimum(atomic, new_val, cmp)\<close> stores \<open>new_val\<close> when
  \<open>cmp new_val old\<close> holds (a compare-and-swap loop; one atomic step here).
\<close>

definition update_minimum :: "'a \<Rightarrow> 'a \<Rightarrow> ('a \<Rightarrow> 'a \<Rightarrow> error + bool) \<Rightarrow> error + 'a" where
  "update_minimum old new_val cmp = bind_err (cmp new_val old) (\<lambda>b. Inr (if b then new_val else old))"

text \<open>The first statement of \<^verbatim>\<open>merge_visibility\<close> ("Canonicalize visibility").\<close>

definition canonicalize :: "u8 \<Rightarrow> u8" where
  "canonicalize v = (if v = STV_INTERNAL then STV_HIDDEN else v)"

definition merge_visibility :: "Symbol \<Rightarrow> u8 \<Rightarrow> error + Symbol" where
  "merge_visibility s vis0 =
     (let vis = canonicalize vis0 in
      bind_err
        (update_minimum (visibility s) vis
           (\<lambda>a b. bind_err (vis_priority a) (\<lambda>pa. bind_err (vis_priority b) (\<lambda>pb. Inr (pa < pb)))))
        (\<lambda>v. Inr (s\<lparr>visibility := v\<rparr>)))"

text \<open>All calls made on one symbol, in the order they happen.\<close>

fun merge_visibility_all :: "Symbol \<Rightarrow> u8 list \<Rightarrow> error + Symbol" where
  "merge_visibility_all s [] = Inr s"
| "merge_visibility_all s (v # vs) =
     (case merge_visibility s v of Inl e \<Rightarrow> Inl e | Inr s' \<Rightarrow> merge_visibility_all s' vs)"

section \<open>Input files\<close>

text \<open>\<^verbatim>\<open>ElfRel<E>\<close>; \<open>r_addend\<close> is the two's complement addend (unused on REL targets).\<close>

record ElfRel =
  r_offset :: u64
  r_type :: u32
  r_sym :: u32
  r_addend :: u64

text \<open>
  \<^verbatim>\<open>InputSection<E>\<close>: the fields the modelled functions read. \<open>rels\<close> is what
  \<^verbatim>\<open>isec->get_rels(ctx)\<close> returns, a span the caller may write through.
\<close>

record InputSection =
  is_alive :: bool
  sh_flags :: u64
  rels :: "ElfRel list"

text \<open>
  \<^verbatim>\<open>MergeableSection<E>\<close>: \<open>parent_resolved\<close> is \<^verbatim>\<open>m->parent.resolved\<close>.
  \<^verbatim>\<open>get_fragment\<close> is defined outside src/ and is taken as it is: from a byte offset
  to a fragment (or null) and the offset inside it.
\<close>

record MergeableSection =
  parent_resolved :: bool
  get_fragment :: "u64 \<Rightarrow> nat option \<times> u64"

text \<open>
  \<^verbatim>\<open>InputFile<E>\<close> with the members of its subclasses \<^verbatim>\<open>ObjectFile<E>\<close> and
  \<^verbatim>\<open>SharedFile<E>\<close> (\<open>is_dso\<close> tells which one an object is). A file pointer is
  a natural number, the store of files a function from pointers to files.
  \<open>get_shndx i\<close> is \<^verbatim>\<open>get_shndx(elf_syms[i])\<close>, a function of mold.h that is not
  under src/: the section index of symbol entry \<open>i\<close>, taken as it is.
  \<open>get_addend k r\<close> is \<^verbatim>\<open>get_addend(*sections[k], r)\<close>, target specific and not under
  src/ either.
\<close>

record InputFile =
  is_dso :: bool
  priority :: u64
  is_reachable :: bool
  first_global :: nat
  elf_syms :: "ElfSym list"
  elf_syms2 :: "ElfSym list"
  symbols :: "sym_ref option list"
  symbols2 :: "sym_ref option list"
  versyms :: "u16 list"
  get_shndx :: "nat \<Rightarrow> nat"
  get_addend :: "nat \<Rightarrow> ElfRel \<Rightarrow> u64"
  sections :: "InputSection option list"
  mergeable_sections :: "MergeableSection option list"
  has_symver :: "bool list"
  has_common_symbol :: bool
  exclude_libs :: bool
  num_frag_syms :: nat

type_synonym file_store = "nat \<Rightarrow> InputFile"

text \<open>The members of \<^verbatim>\<open>Context<E>\<close> that the modelled functions read.\<close>

record Context =
  arg_wrap :: "string set"
  arg_allow_shlib_undefined :: bool
  arg_relocatable :: bool
  default_version :: u16

section \<open>Symbol resolution\<close>

text \<open>
  The lambda \<^verbatim>\<open>get_sym_rank\<close> of \<^verbatim>\<open>get_rank(file, esym, is_in_archive)\<close>. The
  \<^verbatim>\<open>assert(!file->is_dso)\<close> of the common case is a branch of its own.
\<close>

definition get_sym_rank :: "InputFile \<Rightarrow> ElfSym \<Rightarrow> bool \<Rightarrow> error + u64" where
  "get_sym_rank f esym is_in_archive =
     (if is_common esym then
        (if is_dso f then Inl AssertionFailed else Inr (if is_in_archive then 6 else 5))
      else if is_dso f \<or> is_in_archive then Inr (if st_bind esym = STB_WEAK then 4 else 3)
      else if st_bind esym = STB_WEAK then Inr 2
      else Inr 1)"

definition get_rank :: "InputFile \<Rightarrow> ElfSym \<Rightarrow> bool \<Rightarrow> error + u64" where
  "get_rank f esym is_in_archive =
     bind_err (get_sym_rank f esym is_in_archive) (\<lambda>c. Inr (push_bit 24 c + priority f))"

text \<open>\<^verbatim>\<open>Symbol::esym()\<close>: the entry \<^verbatim>\<open>file->elf_syms[sym_idx]\<close>.\<close>

definition esym_of :: "file_store \<Rightarrow> Symbol \<Rightarrow> error + ElfSym" where
  "esym_of files s =
     (case sym_file s of
        None \<Rightarrow> Inl NullPointer
      | Some f \<Rightarrow> if 0 \<le> sym_idx s then at (elf_syms (files f)) (nat (sym_idx s)) else Inl OutOfBounds)"

text \<open>The overload \<^verbatim>\<open>get_rank(const Symbol &sym)\<close>.\<close>

definition get_rank_sym :: "file_store \<Rightarrow> Symbol \<Rightarrow> error + u64" where
  "get_rank_sym files s =
     (case sym_file s of
        None \<Rightarrow> Inr (push_bit 24 7)
      | Some f \<Rightarrow> bind_err (esym_of files s) (\<lambda>e. get_rank (files f) e (\<not> is_reachable (files f))))"

text \<open>
  Modelled from the spec: \<^verbatim>\<open>Symbol::set_input_section\<close> and \<^verbatim>\<open>Symbol::set_frag\<close>
  are declared in mold.h, which is not under src/. A symbol refers to an input section or to
  a fragment, never to both (invariant 3 of the data model).
\<close>

definition set_input_section :: "nat option \<Rightarrow> Symbol \<Rightarrow> Symbol" where
  "set_input_section isec s = s\<lparr>input_section := isec, frag := None\<rparr>"

definition set_frag :: "nat option \<Rightarrow> Symbol \<Rightarrow> Symbol" where
  "set_frag fr s = s\<lparr>frag := fr, input_section := None\<rparr>"

text \<open>
  The assignments under the rank test of \<^verbatim>\<open>ObjectFile::resolve_symbols\<close>, for entry
  \<open>i\<close> of file \<open>this\<close> with entry \<open>esym\<close> and section \<open>isec\<close>.
\<close>

definition obj_overwrite :: "Context \<Rightarrow> nat \<Rightarrow> nat \<Rightarrow> ElfSym \<Rightarrow> nat option \<Rightarrow> Symbol \<Rightarrow> Symbol" where
  "obj_overwrite ctx this i esym isec s =
     (set_input_section isec (s\<lparr>sym_file := Some this\<rparr>))
       \<lparr>sym_value := st_value esym, sym_idx := int i, ver_idx := default_version ctx,
        is_weak := esym_is_weak esym, is_versioned_default := False\<rparr>"

text \<open>The last statement of the loop body: the rank test and the assignments.\<close>

definition obj_resolve_at ::
  "Context \<Rightarrow> file_store \<Rightarrow> nat \<Rightarrow> sym_heap \<Rightarrow> nat \<Rightarrow> sym_ref \<Rightarrow> Symbol \<Rightarrow> ElfSym \<Rightarrow> nat option
     \<Rightarrow> error + sym_heap" where
  "obj_resolve_at ctx files this heap i r s esym isec =
     bind_err (get_rank (files this) esym (\<not> is_reachable (files this))) (\<lambda>a.
     bind_err (get_rank_sym files s) (\<lambda>b.
       Inr (if a < b then heap(r \<mapsto> obj_overwrite ctx this i esym isec s) else heap)))"

text \<open>One iteration of the loop of \<^verbatim>\<open>ObjectFile::resolve_symbols\<close>, on the store of symbols.\<close>

definition obj_resolve_step :: "Context \<Rightarrow> file_store \<Rightarrow> nat \<Rightarrow> sym_heap \<Rightarrow> nat \<Rightarrow> error + sym_heap" where
  "obj_resolve_step ctx files this heap i =
     bind_err (at (symbols (files this)) i) (\<lambda>p.
     bind_err (deref heap p) (\<lambda>(r, s).
     bind_err (at (elf_syms (files this)) i) (\<lambda>esym.
       if is_undef esym then Inr heap
       else if \<not> is_abs esym \<and> \<not> is_common esym then
         bind_err (at (sections (files this)) (get_shndx (files this) i)) (\<lambda>isec.
           case isec of
             None \<Rightarrow> Inr heap
           | Some sec \<Rightarrow>
               if \<not> is_alive sec then Inr heap
               else obj_resolve_at ctx files this heap i r s esym (Some (get_shndx (files this) i)))
       else obj_resolve_at ctx files this heap i r s esym None)))"

definition obj_resolve_symbols :: "Context \<Rightarrow> file_store \<Rightarrow> nat \<Rightarrow> sym_heap \<Rightarrow> error + sym_heap" where
  "obj_resolve_symbols ctx files this heap =
     for_each (obj_resolve_step ctx files this)
       [first_global (files this) ..< length (elf_syms (files this))] heap"

text \<open>The assignments of \<^verbatim>\<open>SharedFile::resolve_symbols\<close> to the symbol and to its alias.\<close>

definition dso_overwrite :: "nat \<Rightarrow> nat \<Rightarrow> ElfSym \<Rightarrow> u16 \<Rightarrow> Symbol \<Rightarrow> Symbol" where
  "dso_overwrite this i esym ver s =
     s\<lparr>sym_file := Some this, origin := None, sym_value := st_value esym, sym_idx := int i,
       ver_idx := ver, is_weak := True, is_versioned_default := False\<rparr>"

definition dso_overwrite_alias :: "nat \<Rightarrow> nat \<Rightarrow> sym_ref \<Rightarrow> Symbol \<Rightarrow> Symbol" where
  "dso_overwrite_alias this i base s2 =
     s2\<lparr>sym_file := Some this, origin := Some base, sym_idx := int i, is_versioned_default := True\<rparr>"

text \<open>The first rank test of the loop body of \<^verbatim>\<open>SharedFile::resolve_symbols\<close>.\<close>

definition dso_resolve_base ::
  "file_store \<Rightarrow> nat \<Rightarrow> sym_heap \<Rightarrow> nat \<Rightarrow> sym_ref \<Rightarrow> Symbol \<Rightarrow> ElfSym \<Rightarrow> error + sym_heap" where
  "dso_resolve_base files this heap i r s esym =
     bind_err (get_rank (files this) esym False) (\<lambda>a.
     bind_err (get_rank_sym files s) (\<lambda>b.
       if a < b
       then bind_err (at (versyms (files this)) i) (\<lambda>ver.
              Inr (heap(r \<mapsto> dso_overwrite this i esym ver s)))
       else Inr heap))"

text \<open>The second one, on the alias \<^verbatim>\<open>symbols2[i]\<close> of a symbol with a default version.\<close>

definition dso_resolve_alias ::
  "file_store \<Rightarrow> nat \<Rightarrow> sym_heap \<Rightarrow> nat \<Rightarrow> sym_ref \<Rightarrow> ElfSym \<Rightarrow> error + sym_heap" where
  "dso_resolve_alias files this heap i r esym =
     bind_err (at (symbols2 (files this)) i) (\<lambda>p2.
       if p2 \<noteq> None \<and> p2 \<noteq> Some r then
         bind_err (deref heap p2) (\<lambda>(r2, s2).
         bind_err (get_rank (files this) esym False) (\<lambda>a.
         bind_err (get_rank_sym files s2) (\<lambda>b.
           Inr (if a < b then heap(r2 \<mapsto> dso_overwrite_alias this i r s2) else heap))))
       else Inr heap)"

text \<open>One iteration of the loop of \<^verbatim>\<open>SharedFile::resolve_symbols\<close>.\<close>

definition dso_resolve_step :: "file_store \<Rightarrow> nat \<Rightarrow> sym_heap \<Rightarrow> nat \<Rightarrow> error + sym_heap" where
  "dso_resolve_step files this heap i =
     bind_err (at (symbols (files this)) i) (\<lambda>p.
     bind_err (deref heap p) (\<lambda>(r, s).
     bind_err (at (elf_syms (files this)) i) (\<lambda>esym.
       if is_undef esym \<or> skip_dso s then Inr heap
       else
         bind_err (dso_resolve_base files this heap i r s esym) (\<lambda>heap1.
           dso_resolve_alias files this heap1 i r esym))))"

definition dso_resolve_symbols :: "file_store \<Rightarrow> nat \<Rightarrow> sym_heap \<Rightarrow> error + sym_heap" where
  "dso_resolve_symbols files this heap =
     for_each (dso_resolve_step files this) [0 ..< length (symbols (files this))] heap"

text \<open>The virtual call \<^verbatim>\<open>file->resolve_symbols(ctx)\<close>.\<close>

definition resolve_symbols :: "Context \<Rightarrow> file_store \<Rightarrow> nat \<Rightarrow> sym_heap \<Rightarrow> error + sym_heap" where
  "resolve_symbols ctx files this heap =
     (if is_dso (files this) then dso_resolve_symbols files this heap
      else obj_resolve_symbols ctx files this heap)"

section \<open>The symbol interner and the symbols of a shared object\<close>

text \<open>
  \<^verbatim>\<open>get_symbol(ctx, key, name)\<close>: the symbol interned for \<open>key\<close>, created with
  \<open>name\<close> when the key is new (\<^verbatim>\<open>insert\<close> keeps an existing entry). The symbols
  of \<^verbatim>\<open>ctx.symbol_map\<close> are the objects of the store at the addresses \<open>GlobalSym key\<close>.
\<close>

definition get_symbol :: "sym_heap \<Rightarrow> string \<Rightarrow> string \<Rightarrow> sym_heap \<times> sym_ref" where
  "get_symbol heap key nm =
     (case heap (GlobalSym key) of
        None \<Rightarrow> (heap(GlobalSym key \<mapsto> new_symbol nm), GlobalSym key)
      | Some s \<Rightarrow> (heap, GlobalSym key))"

text \<open>
  The overload \<^verbatim>\<open>get_symbol(ctx, key)\<close>: the name is
  \<^verbatim>\<open>key.substr(0, key.find('@'))\<close>, all of the key when it has no \<open>@\<close>.
\<close>

definition get_symbol_key :: "sym_heap \<Rightarrow> string \<Rightarrow> sym_heap \<times> sym_ref" where
  "get_symbol_key heap key = get_symbol heap key (takeWhile (\<lambda>c. c \<noteq> CHR ''@'') key)"

text \<open>The lambda \<^verbatim>\<open>get_versioned_sym\<close> of \<^verbatim>\<open>SharedFile::parse\<close>.\<close>

definition get_versioned_sym :: "string list \<Rightarrow> sym_heap \<Rightarrow> string \<Rightarrow> u16 \<Rightarrow> error + sym_heap \<times> sym_ref" where
  "get_versioned_sym version_strings heap nm ver =
     bind_err (at version_strings (unat ver)) (\<lambda>vs. Inr (get_symbol heap (nm @ ''@'' @ vs) nm))"

text \<open>
  One iteration of the loop of \<^verbatim>\<open>SharedFile::parse\<close> over the dynamic symbol table
  \<open>esyms\<close>, with the version table \<open>vers\<close> (empty when the file has no
  \<^verbatim>\<open>SHT_GNU_VERSYM\<close> section) and the version names \<open>version_strings\<close> that
  \<^verbatim>\<open>read_verdef\<close> returned. The state is the file and the store of symbols.
\<close>

definition dso_parse_step ::
  "ElfSym list \<Rightarrow> u16 list \<Rightarrow> string list \<Rightarrow> InputFile \<times> sym_heap \<Rightarrow> nat
     \<Rightarrow> error + InputFile \<times> sym_heap" where
  "dso_parse_step esyms vers version_strings st i =
     (case st of (f, heap) \<Rightarrow>
      bind_err (at esyms i) (\<lambda>esym.
      bind_err (if vers = [] \<or> is_undef esym then Inr VER_NDX_GLOBAL
                else bind_err (at vers i) (\<lambda>v. Inr (v AND NOT VERSYM_HIDDEN))) (\<lambda>ver.
        if ver = VER_NDX_LOCAL then Inr (f, heap)
        else
          let f1 = f\<lparr>elf_syms2 := elf_syms2 f @ [esym], versyms := versyms f @ [ver]\<rparr>;
              nm = st_name esym
          in
          if vers = [] \<or> ver = VER_NDX_GLOBAL then
            (case get_symbol_key heap nm of (heap1, r) \<Rightarrow>
               Inr (f1\<lparr>symbols := symbols f1 @ [Some r], symbols2 := symbols2 f1 @ [None]\<rparr>, heap1))
          else
            bind_err (at vers i) (\<lambda>v.
              if v AND VERSYM_HIDDEN \<noteq> 0 then
                bind_err (get_versioned_sym version_strings heap nm ver) (\<lambda>(heap1, r).
                  Inr (f1\<lparr>symbols := symbols f1 @ [Some r], symbols2 := symbols2 f1 @ [None]\<rparr>,
                       heap1))
              else
                (case get_symbol_key heap nm of (heap1, r) \<Rightarrow>
                   bind_err (get_versioned_sym version_strings heap1 nm ver) (\<lambda>(heap2, r2).
                     Inr (f1\<lparr>symbols := symbols f1 @ [Some r],
                             symbols2 := symbols2 f1 @ [Some r2]\<rparr>, heap2)))))))"

text \<open>
  \<^verbatim>\<open>SharedFile::parse\<close> from the loop on: \<open>dynsym\<close> is the \<^verbatim>\<open>SHT_DYNSYM\<close> section
  when there is one (its \<^verbatim>\<open>sh_info\<close> and its entries). Reading \<^verbatim>\<open>soname\<close> changes
  nothing that is modelled.
\<close>

definition dso_parse ::
  "(nat \<times> ElfSym list) option \<Rightarrow> u16 list \<Rightarrow> string list \<Rightarrow> InputFile \<times> sym_heap
     \<Rightarrow> error + InputFile \<times> sym_heap" where
  "dso_parse dynsym vers version_strings st =
     (case dynsym of
        None \<Rightarrow> Inr st
      | Some (sh_info, esyms) \<Rightarrow>
          bind_err (for_each (dso_parse_step esyms vers version_strings)
                      [sh_info ..< length esyms] st) (\<lambda>(f, heap).
            Inr (f\<lparr>elf_syms := elf_syms2 f, first_global := 0\<rparr>, heap)))"

section \<open>Notions used in the statements about resolution\<close>

text \<open>
  Entry \<open>i\<close> of the object file \<open>f\<close> takes part in resolution: it is a global entry that
  the loop of \<^verbatim>\<open>ObjectFile::resolve_symbols\<close> does not skip (it is defined, and its
  section, when it has one, exists and is alive).
\<close>

definition obj_candidate :: "InputFile \<Rightarrow> nat \<Rightarrow> bool" where
  "obj_candidate f i =
     (first_global f \<le> i \<and> i < length (elf_syms f) \<and> \<not> is_undef (elf_syms f ! i) \<and>
      (is_abs (elf_syms f ! i) \<or> is_common (elf_syms f ! i) \<or>
       (case at (sections f) (get_shndx f i) of
          Inr (Some sec) \<Rightarrow> is_alive sec
        | _ \<Rightarrow> False)))"

text \<open>The section pointer the loop body passes to \<^verbatim>\<open>set_input_section\<close> for entry \<open>i\<close>.\<close>

definition obj_isec :: "InputFile \<Rightarrow> nat \<Rightarrow> nat option" where
  "obj_isec f i =
     (if is_abs (elf_syms f ! i) \<or> is_common (elf_syms f ! i) then None else Some (get_shndx f i))"

text \<open>
  Entry \<open>i\<close> of the shared object \<open>f\<close> takes part in resolution: the loop of
  \<^verbatim>\<open>SharedFile::resolve_symbols\<close> does not skip it.
\<close>

definition dso_candidate :: "InputFile \<Rightarrow> sym_heap \<Rightarrow> nat \<Rightarrow> bool" where
  "dso_candidate f heap i =
     (i < length (symbols f) \<and> i < length (elf_syms f) \<and> \<not> is_undef (elf_syms f ! i) \<and>
      (case deref heap (symbols f ! i) of Inr (r, s) \<Rightarrow> \<not> skip_dso s | Inl e \<Rightarrow> False))"

text \<open>
  The order in which resolution moves the store of symbols: every symbol is left as it was
  or replaced by a record of strictly smaller rank.
\<close>

definition rank_lowered :: "file_store \<Rightarrow> sym_heap \<Rightarrow> sym_heap \<Rightarrow> bool" where
  "rank_lowered files h h' =
     (\<forall>r. h' r = h r \<or>
        (\<exists>s s' a b. h r = Some s \<and> h' r = Some s' \<and> get_rank_sym files s = Inr b \<and>
           get_rank_sym files s' = Inr a \<and> a < b))"

section \<open>Concrete inputs\<close>

text \<open>A file with nothing in it, an empty symbol table entry, and the options used below.\<close>

definition no_file :: InputFile where
  "no_file =
     \<lparr>is_dso = False, priority = 0, is_reachable = False, first_global = 0, elf_syms = [],
      elf_syms2 = [], symbols = [], symbols2 = [], versyms = [], get_shndx = (\<lambda>i. 0),
      get_addend = (\<lambda>k r. 0), sections = [], mergeable_sections = [], has_symver = [],
      has_common_symbol = False, exclude_libs = False, num_frag_syms = 0\<rparr>"

definition null_esym :: ElfSym where
  "null_esym =
     \<lparr>st_name = [], st_value = 0, st_bind = 0, st_type = 0, st_visibility = 0, st_shndx = 0\<rparr>"

definition ctx0 :: Context where
  "ctx0 = \<lparr>arg_wrap = {}, arg_allow_shlib_undefined = False, arg_relocatable = False,
             default_version = 1\<rparr>"

text \<open>
  Three files that all define \<open>foo\<close>: \<open>x_o\<close> has it as a common symbol
  (\<^verbatim>\<open>int foo;\<close>), \<open>y_o\<close> as a strong definition in its section 1
  (\<^verbatim>\<open>int foo = 5;\<close>), and the shared object \<open>libz_so\<close> exports it with binding
  \<^verbatim>\<open>STB_GLOBAL\<close>. They are files 0, 1 and 2 of \<open>three_files\<close>.
\<close>

definition foo_common :: ElfSym where
  "foo_common = null_esym\<lparr>st_name := ''foo'', st_value := 4, st_bind := 1, st_shndx := 0xfff2\<rparr>"

definition foo_strong :: ElfSym where
  "foo_strong = null_esym\<lparr>st_name := ''foo'', st_value := 0, st_bind := 1, st_shndx := 1\<rparr>"

definition foo_exported :: ElfSym where
  "foo_exported = null_esym\<lparr>st_name := ''foo'', st_value := 0x1000, st_bind := 1, st_shndx := 7\<rparr>"

definition x_o :: InputFile where
  "x_o = no_file\<lparr>priority := 10000, is_reachable := True, first_global := 1,
           elf_syms := [null_esym, foo_common],
           symbols := [Some (LocalSym 0 0), Some (GlobalSym ''foo'')],
           sections := [None]\<rparr>"

definition y_o :: InputFile where
  "y_o = no_file\<lparr>priority := 10001, is_reachable := True, first_global := 1,
           elf_syms := [null_esym, foo_strong],
           symbols := [Some (LocalSym 1 0), Some (GlobalSym ''foo'')],
           get_shndx := (\<lambda>i. 1),
           sections := [None, Some \<lparr>is_alive = True, sh_flags = 3, rels = []\<rparr>]\<rparr>"

definition libz_so :: InputFile where
  "libz_so = no_file\<lparr>is_dso := True, priority := 10002, is_reachable := True,
           elf_syms := [foo_exported], symbols := [Some (GlobalSym ''foo'')],
           symbols2 := [None], versyms := [1]\<rparr>"

definition three_files :: file_store where
  "three_files = (\<lambda>k. no_file)(0 := x_o, 1 := y_o, 2 := libz_so)"

text \<open>The store in which \<open>foo\<close> is interned and not yet resolved.\<close>

definition foo_unresolved :: sym_heap where
  "foo_unresolved = Map.empty(GlobalSym ''foo'' \<mapsto> new_symbol ''foo'')"

text \<open>The store in which \<open>foo\<close> is resolved to the definition of \<open>y_o\<close>.\<close>

definition foo_in_y :: sym_heap where
  "foo_in_y =
     Map.empty(GlobalSym ''foo'' \<mapsto> obj_overwrite ctx0 1 1 foo_strong (Some 1) (new_symbol ''foo''))"

text \<open>
  A shared object that exports \<open>foo@@V1\<close> (entry 1, the default version) and \<open>foo@V0\<close>
  (entry 2, hidden): its dynamic symbol table, version table and version names, the file
  before \<^verbatim>\<open>SharedFile::parse\<close>, and the file and the store of symbols after it.
\<close>

definition libv_dynsym :: "ElfSym list" where
  "libv_dynsym =
     [null_esym,
      null_esym\<lparr>st_name := ''foo'', st_value := 0x1000, st_bind := 1, st_shndx := 7\<rparr>,
      null_esym\<lparr>st_name := ''foo'', st_value := 0x2000, st_bind := 1, st_shndx := 7\<rparr>]"

definition libv_vers :: "u16 list" where
  "libv_vers = [0, 2, 0x8003]"

definition libv_version_strings :: "string list" where
  "libv_version_strings = [[], ''libv.so'', ''V1'', ''V0'']"

definition libv_unparsed :: InputFile where
  "libv_unparsed = no_file\<lparr>is_dso := True, priority := 10003, is_reachable := True\<rparr>"

definition libv_so :: InputFile where
  "libv_so = libv_unparsed
     \<lparr>elf_syms := [libv_dynsym ! 1, libv_dynsym ! 2],
      elf_syms2 := [libv_dynsym ! 1, libv_dynsym ! 2],
      symbols := [Some (GlobalSym ''foo''), Some (GlobalSym ''foo@V0'')],
      symbols2 := [Some (GlobalSym ''foo@V1''), None],
      versyms := [2, 3]\<rparr>"

definition libv_heap :: sym_heap where
  "libv_heap =
     Map.empty(GlobalSym ''foo'' \<mapsto> new_symbol ''foo'',
               GlobalSym ''foo@V1'' \<mapsto> new_symbol ''foo'',
               GlobalSym ''foo@V0'' \<mapsto> new_symbol ''foo'')"

definition libv_files :: file_store where
  "libv_files = (\<lambda>k. no_file)(3 := libv_so)"

section \<open>Live object tracing\<close>

text \<open>
  The state of tracing: the files (their \<open>is_reachable\<close> flags change), the symbols (their
  visibility changes) and the calls \<^verbatim>\<open>feeder(file)\<close> made so far, oldest first. The
  lines that \<^verbatim>\<open>print_trace_symbol\<close> and \<^verbatim>\<open>Out(ctx)\<close> print are not part of the state.
\<close>

record LiveState =
  ls_files :: file_store
  ls_heap :: sym_heap
  ls_fed :: "nat list"

text \<open>
  \<^verbatim>\<open>!file->is_reachable.test_and_set()\<close> followed by the call of the feeder: one atomic
  read and write of the flag; the feeder is called when the flag was clear.
\<close>

definition test_and_set_feed :: "nat \<Rightarrow> LiveState \<Rightarrow> LiveState" where
  "test_and_set_feed g st =
     (if is_reachable (ls_files st g) then st
      else st\<lparr>ls_files := (ls_files st)(g := (ls_files st g)\<lparr>is_reachable := True\<rparr>),
              ls_fed := ls_fed st @ [g]\<rparr>)"

text \<open>One iteration of the loop of \<^verbatim>\<open>ObjectFile::mark_live_objects\<close>.\<close>

definition obj_mark_step :: "Context \<Rightarrow> nat \<Rightarrow> LiveState \<Rightarrow> nat \<Rightarrow> error + LiveState" where
  "obj_mark_step ctx this st i =
     (let f = ls_files st this in
      bind_err (at (elf_syms f) i) (\<lambda>esym.
      bind_err (at (symbols f) i) (\<lambda>p.
      bind_err (deref (ls_heap st) p) (\<lambda>(r, s).
      bind_err (merge_visibility s
                  (if \<not> is_undef esym \<and> exclude_libs f then STV_HIDDEN else st_visibility esym)) (\<lambda>s1.
        let st1 = st\<lparr>ls_heap := (ls_heap st)(r \<mapsto> s1)\<rparr> in
        case sym_file s1 of
          None \<Rightarrow> Inr st1
        | Some g \<Rightarrow>
            let undef_ref = (is_undef esym \<and> (\<not> esym_is_weak esym \<or> is_dso (ls_files st1 g))) in
            bind_err (if is_common esym
                      then bind_err (esym_of (ls_files st1) s1) (\<lambda>e2. Inr (\<not> is_common e2))
                      else Inr False) (\<lambda>common_ref.
              Inr (if undef_ref \<or> common_ref then test_and_set_feed g st1 else st1)))))))"

definition obj_mark_live_objects :: "Context \<Rightarrow> nat \<Rightarrow> LiveState \<Rightarrow> error + LiveState" where
  "obj_mark_live_objects ctx this st =
     (if \<not> is_reachable (ls_files st this) then Inl AssertionFailed
      else for_each (obj_mark_step ctx this)
             [first_global (ls_files st this) ..< length (elf_syms (ls_files st this))] st)"

text \<open>One iteration of the loop of \<^verbatim>\<open>SharedFile::mark_live_objects\<close>.\<close>

definition dso_mark_step :: "Context \<Rightarrow> nat \<Rightarrow> LiveState \<Rightarrow> nat \<Rightarrow> error + LiveState" where
  "dso_mark_step ctx this st i =
     (let f = ls_files st this in
      bind_err (at (elf_syms f) i) (\<lambda>esym.
      bind_err (at (symbols f) i) (\<lambda>p.
      bind_err (deref (ls_heap st) p) (\<lambda>(r, s).
        Inr (case sym_file s of
               None \<Rightarrow> st
             | Some g \<Rightarrow>
                 if is_undef esym \<and> \<not> esym_is_weak esym \<and>
                    (\<not> is_dso (ls_files st g) \<or> \<not> arg_allow_shlib_undefined ctx)
                 then test_and_set_feed g st
                 else st)))))"

definition dso_mark_live_objects :: "Context \<Rightarrow> nat \<Rightarrow> LiveState \<Rightarrow> error + LiveState" where
  "dso_mark_live_objects ctx this st =
     for_each (dso_mark_step ctx this) [0 ..< length (elf_syms (ls_files st this))] st"

text \<open>The virtual call \<^verbatim>\<open>file->mark_live_objects(ctx, feeder)\<close>.\<close>

definition mark_live_objects :: "Context \<Rightarrow> nat \<Rightarrow> LiveState \<Rightarrow> error + LiveState" where
  "mark_live_objects ctx this st =
     (if is_dso (ls_files st this) then dso_mark_live_objects ctx this st
      else obj_mark_live_objects ctx this st)"

text \<open>The visits of a whole link, one file after the other, in any order \<open>fs\<close>.\<close>

fun visits :: "Context \<Rightarrow> nat list \<Rightarrow> LiveState \<Rightarrow> error + LiveState" where
  "visits ctx [] st = Inr st"
| "visits ctx (this # fs) st =
     (case mark_live_objects ctx this st of Inl e \<Rightarrow> Inl e | Inr st' \<Rightarrow> visits ctx fs st')"

text \<open>
  How tracing moves the state: no flag is cleared, the feeder is called once for each file
  whose flag is set, in the order the flags are set, and nothing else of a file changes.
\<close>

definition live_extends :: "LiveState \<Rightarrow> LiveState \<Rightarrow> bool" where
  "live_extends st st' =
     (\<exists>new. ls_fed st' = ls_fed st @ new \<and> distinct new \<and>
        (\<forall>g. ls_files st' g =
               (if g \<in> set new then (ls_files st g)\<lparr>is_reachable := True\<rparr> else ls_files st g)) \<and>
        (\<forall>g \<in> set new. \<not> is_reachable (ls_files st g)))"

text \<open>
  A link with \<^verbatim>\<open>--allow-shlib-undefined\<close>: the shared object \<open>libu_so\<close> (file 2,
  reachable) has an undefined reference to \<open>bar\<close> with binding \<^verbatim>\<open>STB_GLOBAL\<close>, and
  \<open>bar\<close> is resolved to the archive member \<open>member_o\<close> (file 1, an object file that is
  not reachable yet). The object file \<open>main_o\<close> (file 0, reachable) refers to \<open>bar\<close> too.
\<close>

definition ctx_allow :: Context where
  "ctx_allow = ctx0\<lparr>arg_allow_shlib_undefined := True\<rparr>"

definition libu_so :: InputFile where
  "libu_so = no_file\<lparr>is_dso := True, priority := 10002, is_reachable := True,
           elf_syms := [null_esym\<lparr>st_name := ''bar'', st_bind := 1\<rparr>],
           symbols := [Some (GlobalSym ''bar'')], symbols2 := [None], versyms := [1]\<rparr>"

definition member_o :: InputFile where
  "member_o = no_file\<lparr>priority := 10001, first_global := 1,
           elf_syms := [null_esym, null_esym\<lparr>st_name := ''bar'', st_bind := 1, st_shndx := 1\<rparr>],
           symbols := [Some (LocalSym 1 0), Some (GlobalSym ''bar'')],
           get_shndx := (\<lambda>i. 1),
           sections := [None, Some \<lparr>is_alive = True, sh_flags = 6, rels = []\<rparr>]\<rparr>"

definition main_o :: InputFile where
  "main_o = no_file\<lparr>priority := 10000, is_reachable := True, first_global := 1,
           elf_syms := [null_esym, null_esym\<lparr>st_name := ''bar'', st_bind := 1\<rparr>],
           symbols := [Some (LocalSym 0 0), Some (GlobalSym ''bar'')]\<rparr>"

definition trace_start :: LiveState where
  "trace_start =
     \<lparr>ls_files = (\<lambda>k. no_file)(0 := main_o, 1 := member_o, 2 := libu_so),
      ls_heap = Map.empty(GlobalSym ''bar'' \<mapsto> (new_symbol ''bar'')\<lparr>sym_file := Some 1, sym_idx := 1\<rparr>),
      ls_fed = []\<rparr>"

section \<open>The CREL decoder\<close>

text \<open>
  A byte pointer \<^verbatim>\<open>u8 *p\<close> into the section is the list of the bytes from \<open>p\<close> to the
  end of the section; reading past the end is \<open>OutOfBounds\<close>. \<^verbatim>\<open>read_uleb(&p)\<close> and
  \<^verbatim>\<open>read_sleb(&p)\<close> are defined outside src/: the decoder takes them as they are,
  functions from the bytes at \<open>p\<close> to the value read (64 bits) and the bytes that remain.
  So it takes the constructor of \<^verbatim>\<open>ElfRel<E>\<close> (\<open>mk_rel\<close>, which narrows the four
  running values to the fields of the target's record) and \<^verbatim>\<open>E::is_rela\<close>.
\<close>

type_synonym reader = "u8 list \<Rightarrow> error + u64 \<times> u8 list"

text \<open>The running \<^verbatim>\<open>offset\<close>, \<^verbatim>\<open>type\<close>, \<^verbatim>\<open>symidx\<close> and \<^verbatim>\<open>addend\<close>.\<close>

type_synonym crel_state = "u64 \<times> u64 \<times> u64 \<times> u64"

text \<open>The body of the \<^verbatim>\<open>while\<close> loop of \<^verbatim>\<open>decode_crel\<close>, up to \<^verbatim>\<open>emplace_back\<close>.\<close>

definition crel_step ::
  "reader \<Rightarrow> reader \<Rightarrow> bool \<Rightarrow> nat \<Rightarrow> crel_state \<Rightarrow> u8 list \<Rightarrow> error + crel_state \<times> u8 list" where
  "crel_step read_uleb read_sleb is_rela scale st p =
     (case st of (offset, ty, symidx, addend) \<Rightarrow>
      case p of
        [] \<Rightarrow> Inl OutOfBounds
      | flags # p1 \<Rightarrow>
          let nflags = (if is_rela then 3 else 2 :: nat) in
          bind_err (if flags AND 0x80 \<noteq> 0
                    then bind_err (read_uleb p1) (\<lambda>(u, p2).
                           Inr (push_bit (7 - nflags) u OR ucast (drop_bit nflags (flags AND 0x7f)), p2))
                    else Inr (ucast (drop_bit nflags flags), p1)) (\<lambda>(delta, p2).
          bind_err (if flags AND 1 \<noteq> 0
                    then bind_err (read_sleb p2) (\<lambda>(v, q). Inr (symidx + v, q))
                    else Inr (symidx, p2)) (\<lambda>(symidx', p3).
          bind_err (if flags AND 2 \<noteq> 0
                    then bind_err (read_sleb p3) (\<lambda>(v, q). Inr (ty + v, q))
                    else Inr (ty, p3)) (\<lambda>(ty', p4).
          bind_err (if is_rela \<and> flags AND 4 \<noteq> 0
                    then bind_err (read_sleb p4) (\<lambda>(v, q). Inr (addend + v, q))
                    else Inr (addend, p4)) (\<lambda>(addend', p5).
            Inr ((offset + push_bit scale delta, ty', symidx', addend'), p5))))))"

text \<open>The loop \<^verbatim>\<open>while (vec.size() < nrels)\<close>.\<close>

function crel_loop ::
  "(crel_state \<Rightarrow> u8 list \<Rightarrow> error + crel_state \<times> u8 list) \<Rightarrow> (crel_state \<Rightarrow> 'rel) \<Rightarrow> nat
     \<Rightarrow> 'rel list \<Rightarrow> crel_state \<Rightarrow> u8 list \<Rightarrow> error + 'rel list" where
  "crel_loop step mk_rel nrels vec st p =
     (if length vec < nrels then
        (case step st p of
           Inl e \<Rightarrow> Inl e
         | Inr (st', p') \<Rightarrow> crel_loop step mk_rel nrels (vec @ [mk_rel st']) st' p')
      else Inr vec)"
  by pat_completeness auto
termination
  by (relation "measure (\<lambda>(step, mk_rel, nrels, vec, st, p). nrels - length vec)") auto

declare crel_loop.simps [simp del]

definition decode_crel ::
  "bool \<Rightarrow> reader \<Rightarrow> reader \<Rightarrow> (crel_state \<Rightarrow> 'rel) \<Rightarrow> u8 list \<Rightarrow> error + 'rel list" where
  "decode_crel E_is_rela read_uleb read_sleb mk_rel data =
     bind_err (read_uleb data) (\<lambda>(hdr, p).
       let nrels = unat (drop_bit 3 hdr);
           is_rela = (hdr AND 4 \<noteq> 0);
           scale = unat (hdr AND 3)
       in
       if is_rela \<and> \<not> E_is_rela then Inl (Fatal ''CREL with addends is not supported'')
       else crel_loop (crel_step read_uleb read_sleb is_rela scale) mk_rel nrels [] (0, 0, 0, 0) p)"

section \<open>The CREL format as the specification words it\<close>

text \<open>
  One record: read a flags byte \<open>F\<close>; \<open>nflags\<close> is 3 with addends and 2 without; the
  offset delta is \<open>(ULEB() << (7 - nflags)) | ((F & 0x7f) >> nflags)\<close> when bit 7 of \<open>F\<close>
  is set and \<open>F >> nflags\<close> otherwise; the offset increases by \<open>delta << scale\<close> modulo
  \<open>2 ^ 64\<close>; symidx, type and addend increase by an SLEB value exactly when bit 0, bit 1
  and (with addends) bit 2 of \<open>F\<close> are set.
\<close>

definition crel_spec_optional :: "reader \<Rightarrow> bool \<Rightarrow> u64 \<Rightarrow> u8 list \<Rightarrow> error + u64 \<times> u8 list" where
  "crel_spec_optional sleb present x p =
     (if present then (case sleb p of Inl e \<Rightarrow> Inl e | Inr (v, q) \<Rightarrow> Inr (x + v, q)) else Inr (x, p))"

definition crel_spec_delta :: "reader \<Rightarrow> nat \<Rightarrow> u8 \<Rightarrow> u8 list \<Rightarrow> error + u64 \<times> u8 list" where
  "crel_spec_delta uleb nflags F p =
     (if bit F 7
      then (case uleb p of
              Inl e \<Rightarrow> Inl e
            | Inr (u, q) \<Rightarrow> Inr (push_bit (7 - nflags) u OR ucast (drop_bit nflags (F AND 0x7f)), q))
      else Inr (ucast (drop_bit nflags F), p))"

definition crel_spec_record ::
  "reader \<Rightarrow> reader \<Rightarrow> bool \<Rightarrow> nat \<Rightarrow> crel_state \<Rightarrow> u8 list \<Rightarrow> error + crel_state \<times> u8 list" where
  "crel_spec_record uleb sleb is_rela scale st p =
     (case st of (offset, ty, symidx, addend) \<Rightarrow>
      case p of
        [] \<Rightarrow> Inl OutOfBounds
      | F # p1 \<Rightarrow>
          (case crel_spec_delta uleb (if is_rela then 3 else 2) F p1 of
             Inl e \<Rightarrow> Inl e
           | Inr (delta, p2) \<Rightarrow>
          (case crel_spec_optional sleb (bit F 0) symidx p2 of
             Inl e \<Rightarrow> Inl e
           | Inr (symidx', p3) \<Rightarrow>
          (case crel_spec_optional sleb (bit F 1) ty p3 of
             Inl e \<Rightarrow> Inl e
           | Inr (ty', p4) \<Rightarrow>
          (case crel_spec_optional sleb (is_rela \<and> bit F 2) addend p4 of
             Inl e \<Rightarrow> Inl e
           | Inr (addend', p5) \<Rightarrow>
               Inr ((offset + push_bit scale delta, ty', symidx', addend'), p5))))))"

text \<open>Iterate \<open>n\<close> times, emitting the running values after each record.\<close>

fun crel_spec_iterate ::
  "reader \<Rightarrow> reader \<Rightarrow> bool \<Rightarrow> nat \<Rightarrow> nat \<Rightarrow> crel_state \<Rightarrow> u8 list \<Rightarrow> error + crel_state list" where
  "crel_spec_iterate uleb sleb is_rela scale 0 st p = Inr []"
| "crel_spec_iterate uleb sleb is_rela scale (Suc n) st p =
     (case crel_spec_record uleb sleb is_rela scale st p of
        Inl e \<Rightarrow> Inl e
      | Inr (st', p') \<Rightarrow>
          (case crel_spec_iterate uleb sleb is_rela scale n st' p' of
             Inl e \<Rightarrow> Inl e
           | Inr sts \<Rightarrow> Inr (st' # sts)))"

text \<open>
  The section: a ULEB-128 header \<open>H\<close> with \<open>nrels = H >> 3\<close>,
  \<open>is_rela = (H >> 2) & 1\<close> and \<open>scale = H & 3\<close>; \<open>UnsupportedFormat\<close> when \<open>is_rela\<close>
  on a REL-only target; then \<open>nrels\<close> records.
\<close>

definition crel_spec ::
  "bool \<Rightarrow> reader \<Rightarrow> reader \<Rightarrow> (crel_state \<Rightarrow> 'rel) \<Rightarrow> u8 list \<Rightarrow> error + 'rel list" where
  "crel_spec target_is_rela uleb sleb mk_rel data =
     (case uleb data of
        Inl e \<Rightarrow> Inl e
      | Inr (H, p) \<Rightarrow>
          if drop_bit 2 H AND 1 = 1 \<and> \<not> target_is_rela
          then Inl (Fatal ''CREL with addends is not supported'')
          else (case crel_spec_iterate uleb sleb (drop_bit 2 H AND 1 = 1) (unat (H AND 3))
                       (unat (drop_bit 3 H)) (0, 0, 0, 0) p of
                  Inl e \<Rightarrow> Inl e
                | Inr sts \<Rightarrow> Inr (map mk_rel sts)))"

text \<open>
  Modelled from the spec: \<^verbatim>\<open>read_uleb\<close> and \<^verbatim>\<open>read_sleb\<close> are not under src/; these
  are the readers of the LEB128 encoding the specification names (seven bits a byte, least
  significant group first, bit 7 set on all bytes but the last, bit 6 of the last byte the
  sign of an SLEB value). They serve as the readers of the concrete inputs.
\<close>

fun leb_bits :: "nat \<Rightarrow> u64 \<Rightarrow> u8 list \<Rightarrow> error + (u64 \<times> nat \<times> u8) \<times> u8 list" where
  "leb_bits shift val [] = Inl OutOfBounds"
| "leb_bits shift val (b # bs) =
     (let val' = val OR push_bit shift (ucast (b AND 0x7f)) in
      if b AND 0x80 \<noteq> 0 then leb_bits (shift + 7) val' bs
      else Inr ((val', shift + 7, b), bs))"

definition read_uleb :: reader where
  "read_uleb p = bind_err (leb_bits 0 0 p) (\<lambda>((val, shift, b), q). Inr (val, q))"

definition read_sleb :: reader where
  "read_sleb p =
     bind_err (leb_bits 0 0 p) (\<lambda>((val, shift, b), q).
       Inr (if shift < 64 \<and> b AND 0x40 \<noteq> 0 then val OR push_bit shift (- 1) else val, q))"

section \<open>Symbol materialization\<close>

text \<open>\<^verbatim>\<open>s.starts_with(prefix)\<close> on \<^verbatim>\<open>std::string_view\<close>.\<close>

definition starts_with :: "string \<Rightarrow> string \<Rightarrow> bool" where
  "starts_with s pre = (take (length pre) s = pre)"

text \<open>
  "Parse symbol version after atsign" in \<^verbatim>\<open>ObjectFile::initialize_symbols\<close>: from the
  string of a global entry to the interner key, the name and whether \<^verbatim>\<open>has_symver\<close> is
  set. \<^verbatim>\<open>name.find('@')\<close> finds the first \<open>@\<close>; \<open>ver\<close> is the text from it on.
\<close>

definition parse_symver :: "string \<Rightarrow> string \<times> string \<times> bool" where
  "parse_symver str =
     (if CHR ''@'' \<in> set str then
        (let ver = dropWhile (\<lambda>c. c \<noteq> CHR ''@'') str;
             nm = takeWhile (\<lambda>c. c \<noteq> CHR ''@'') str
         in if ver \<noteq> ''@'' \<and> ver \<noteq> ''@@''
            then (if starts_with ver ''@@'' then nm else str, nm, True)
            else (str, nm, False))
      else (str, str, False))"

text \<open>
  "Handle --wrap option": from the key and name of an entry to the symbol it refers to,
  interning what is needed.
\<close>

definition wrap_symbol :: "Context \<Rightarrow> sym_heap \<Rightarrow> ElfSym \<Rightarrow> string \<Rightarrow> string \<Rightarrow> sym_heap \<times> sym_ref" where
  "wrap_symbol ctx heap esym key nm =
     (if is_undef esym \<and> starts_with nm ''__real_'' \<and> drop 7 nm \<in> arg_wrap ctx
      then get_symbol heap (drop 7 key) (drop 7 nm)
      else
        (case get_symbol heap key nm of (heap1, r) \<Rightarrow>
           if is_undef esym \<and> (case heap1 r of Some s \<Rightarrow> is_wrapped s | None \<Rightarrow> False)
           then get_symbol heap1 (''__wrap_'' @ key) (''__wrap_'' @ nm)
           else (heap1, r)))"

text \<open>
  One iteration of the loop "Initialize global symbols". \<^verbatim>\<open>has_symver\<close> has one slot
  for each global entry (it was resized before the loop).
\<close>

definition init_global_step ::
  "Context \<Rightarrow> InputFile \<times> sym_heap \<Rightarrow> nat \<Rightarrow> error + InputFile \<times> sym_heap" where
  "init_global_step ctx st i =
     (case st of (f, heap) \<Rightarrow>
      bind_err (at (elf_syms f) i) (\<lambda>esym.
        let f1 = (if is_common esym then f\<lparr>has_common_symbol := True\<rparr> else f) in
        case parse_symver (st_name esym) of (key, nm, symver) \<Rightarrow>
          bind_err (if symver
                    then (if i - first_global f1 < length (has_symver f1)
                          then Inr (f1\<lparr>has_symver := (has_symver f1)[i - first_global f1 := True]\<rparr>)
                          else Inl OutOfBounds)
                    else Inr f1) (\<lambda>f2.
            case wrap_symbol ctx heap esym key nm of (heap', r) \<Rightarrow>
              if i < length (symbols f2)
              then Inr (f2\<lparr>symbols := (symbols f2)[i := Some r]\<rparr>, heap')
              else Inl OutOfBounds)))"

text \<open>
  \<^verbatim>\<open>ObjectFile::initialize_symbols\<close> from \<^verbatim>\<open>this->symbols.resize\<close> on, for file
  \<open>this\<close>: the vectors are sized, the local entries point to the slots of
  \<^verbatim>\<open>local_syms\<close>, and the loop runs over the global entries. (The initialization of
  the local symbols themselves, before it, is not modelled.)
\<close>

definition init_global_symbols ::
  "Context \<Rightarrow> nat \<Rightarrow> InputFile \<times> sym_heap \<Rightarrow> error + InputFile \<times> sym_heap" where
  "init_global_symbols ctx this st =
     (case st of (f, heap) \<Rightarrow>
      if elf_syms f = [] then Inr (f, heap)
      else if length (elf_syms f) < first_global f then Inl OutOfBounds
      else
        let n = length (elf_syms f);
            f1 = f\<lparr>symbols := map (\<lambda>i. if i < first_global f then Some (LocalSym this i) else None) [0 ..< n],
                   has_symver := replicate (n - first_global f) False\<rparr>
        in for_each (init_global_step ctx) [first_global f ..< n] (f1, heap))"

text \<open>
  The names of the interned symbols follow their keys: each is its key up to the first
  \<open>@\<close>. Every call of \<^verbatim>\<open>get_symbol\<close> in \<^verbatim>\<open>initialize_symbols\<close> keeps it so.
\<close>

definition names_follow_keys :: "sym_heap \<Rightarrow> bool" where
  "names_follow_keys heap =
     (\<forall>key s. heap (GlobalSym key) = Some s \<longrightarrow> name s = takeWhile (\<lambda>c. c \<noteq> CHR ''@'') key)"

text \<open>
  A link with \<^verbatim>\<open>--wrap=malloc\<close>. The object file \<open>wrap_raw\<close> (file 4) refers to
  \<open>malloc\<close>, \<open>__real_malloc\<close> and \<open>__real_free\<close>, defines \<open>bar@@V2\<close> in its section 1 and
  refers to \<open>baz@V1\<close>. In \<open>wrap_heap\<close> the symbol \<open>malloc\<close> is interned and has its
  \<^verbatim>\<open>is_wrapped\<close> bit set.
\<close>

definition ctx_wrap :: Context where
  "ctx_wrap = ctx0\<lparr>arg_wrap := {''malloc''}\<rparr>"

definition undef_ref :: "string \<Rightarrow> ElfSym" where
  "undef_ref nm = null_esym\<lparr>st_name := nm, st_bind := 1\<rparr>"

definition wrap_raw :: InputFile where
  "wrap_raw = no_file\<lparr>priority := 10004, is_reachable := True, first_global := 1,
       elf_syms := [null_esym, undef_ref ''malloc'', undef_ref ''__real_malloc'',
                    undef_ref ''__real_free'',
                    null_esym\<lparr>st_name := ''bar@@V2'', st_bind := 1, st_shndx := 1\<rparr>,
                    undef_ref ''baz@V1'']\<rparr>"

definition wrap_heap :: sym_heap where
  "wrap_heap = Map.empty(GlobalSym ''malloc'' \<mapsto> (new_symbol ''malloc'')\<lparr>is_wrapped := True\<rparr>)"

text \<open>
  The store \<open>heap'\<close> is \<open>heap\<close> with more symbols interned: what was there is as it was,
  and what is new is a fresh symbol. Every call of \<^verbatim>\<open>get_symbol\<close> moves the store so.
\<close>

definition interns_more :: "sym_heap \<Rightarrow> sym_heap \<Rightarrow> bool" where
  "interns_more heap heap' =
     (\<forall>x. if heap x = None then heap' x = None \<or> (\<exists>nm. heap' x = Some (new_symbol nm))
          else heap' x = heap x)"

section \<open>Section groups\<close>

text \<open>
  The constants of elf.h that the first loop of \<^verbatim>\<open>ObjectFile::initialize_sections\<close>
  tests, with their values in the ELF format.
\<close>

definition SHT_GROUP :: u32 where "SHT_GROUP = 17"
definition SHT_LLVM_ADDRSIG :: u32 where "SHT_LLVM_ADDRSIG = 0x6fff4c03"
definition SHF_ALLOC :: u64 where "SHF_ALLOC = 2"
definition SHF_EXCLUDE :: u64 where "SHF_EXCLUDE = 0x80000000"
definition GRP_COMDAT :: u32 where "GRP_COMDAT = 1"

text \<open>
  A section header, with \<open>sh_name\<close> the string it names in \<^verbatim>\<open>shstrtab\<close> (as \<open>st_name\<close>
  of a symbol table entry is the string it names); \<open>sh_flags_hdr\<close> is its member
  \<^verbatim>\<open>sh_flags\<close>.
\<close>

record ElfShdr =
  sh_name :: string
  sh_type :: u32
  sh_flags_hdr :: u64
  sh_info :: u32

text \<open>
  An element of \<^verbatim>\<open>ObjectFile::comdat_groups\<close>: the pointer to the record of the group
  in \<^verbatim>\<open>ctx.comdat_groups\<close> (the records of that map are the objects at their keys), the
  index of the section, and the members, \<^verbatim>\<open>entries.subspan(1)\<close>.
\<close>

record ComdatGroupRef =
  cg_group :: string
  cg_sect_idx :: int
  cg_members :: "u32 list"

text \<open>
  What the first loop writes: the map \<^verbatim>\<open>ctx.comdat_groups\<close> from signatures to records
  of type \<open>'g\<close> (\<^verbatim>\<open>ComdatGroup\<close> is declared in mold.h, which is not under src/), the
  list \<^verbatim>\<open>comdat_groups\<close> of the file, its flag \<^verbatim>\<open>is_gcc_offload_obj\<close>, and in
  \<open>others\<close> all the rest (the input sections and what the other cases of the switch set).
\<close>

record ('g, 'r) SecState =
  comdat_map :: "string \<rightharpoonup> 'g"
  comdat_groups :: "ComdatGroupRef list"
  is_gcc_offload_obj :: bool
  others :: 'r

text \<open>
  \<^verbatim>\<open>insert_comdat_group\<close>: \<^verbatim>\<open>insert\<close> keeps the record of a signature that is there
  and else adds \<open>fresh\<close>, the value of \<^verbatim>\<open>ComdatGroup()\<close>; the result points to the
  record of the signature.
\<close>

definition insert_comdat_group ::
  "'g \<Rightarrow> (string \<rightharpoonup> 'g) \<Rightarrow> string \<Rightarrow> (string \<rightharpoonup> 'g) \<times> string" where
  "insert_comdat_group fresh m nm =
     (case m nm of None \<Rightarrow> (m(nm \<mapsto> fresh), nm) | Some g \<Rightarrow> (m, nm))"

text \<open>
  "Get the signature of this section group", for the header \<open>shdr\<close> of a group of file
  \<open>f\<close> with the section headers \<open>shdrs\<close>. The read \<^verbatim>\<open>elf_sections[get_shndx(esym)]\<close>
  has no check in the source.
\<close>

definition group_signature :: "InputFile \<Rightarrow> ElfShdr list \<Rightarrow> ElfShdr \<Rightarrow> error + string" where
  "group_signature f shdrs shdr =
     (if length (elf_syms f) \<le> unat (sh_info shdr) then Inl (Fatal ''invalid symbol index'')
      else
        let esym = elf_syms f ! unat (sh_info shdr) in
        if st_type esym = STT_SECTION
        then bind_err (at shdrs (get_shndx f (unat (sh_info shdr)))) (\<lambda>s. Inr (sh_name s))
        else Inr (st_name esym))"

text \<open>
  The case \<^verbatim>\<open>SHT_GROUP\<close> of the switch, for section \<open>i\<close> with header \<open>shdr\<close>;
  \<open>entries\<close> is \<^verbatim>\<open>get_data<U32<E>>(ctx, shdr)\<close>, the words of the section.
\<close>

definition classify_group ::
  "'g \<Rightarrow> InputFile \<Rightarrow> ElfShdr list \<Rightarrow> u32 list \<Rightarrow> nat \<Rightarrow> ElfShdr \<Rightarrow> ('g, 'r) SecState
     \<Rightarrow> error + ('g, 'r) SecState" where
  "classify_group fresh f shdrs entries i shdr st =
     bind_err (group_signature f shdrs shdr) (\<lambda>signature.
       if starts_with signature ''wm4.'' then Inr st
       else if entries = [] then Inl (Fatal ''empty SHT_GROUP'')
       else if hd entries = 0 then Inr st
       else if hd entries \<noteq> GRP_COMDAT then Inl (Fatal ''unsupported SHT_GROUP format'')
       else
         (case insert_comdat_group fresh (comdat_map st) signature of (m, grp) \<Rightarrow>
            Inr (st\<lparr>comdat_map := m,
                    comdat_groups := comdat_groups st @
                      [\<lparr>cg_group = grp, cg_sect_idx = int i, cg_members = tl entries\<rparr>]\<rparr>)))"

text \<open>
  One iteration of the loop "Read sections". \<open>get_data i\<close> is the contents of section
  \<open>i\<close> as 32-bit words. \<open>other\<close> stands for the sections of the types
  \<^verbatim>\<open>SHT_ARM_ATTRIBUTES\<close> and \<^verbatim>\<open>SHT_RISCV_ATTRIBUTES\<close> and for the other cases of the
  switch: they read and write neither the map of the groups nor the list of the file.
\<close>

definition read_section ::
  "Context \<Rightarrow> 'g \<Rightarrow> InputFile \<Rightarrow> ElfShdr list \<Rightarrow> (nat \<Rightarrow> u32 list)
     \<Rightarrow> (nat \<Rightarrow> ElfShdr \<Rightarrow> 'r \<Rightarrow> error + 'r) \<Rightarrow> ('g, 'r) SecState \<Rightarrow> nat
     \<Rightarrow> error + ('g, 'r) SecState" where
  "read_section ctx fresh f shdrs get_data other st i =
     bind_err (at shdrs i) (\<lambda>shdr.
       if sh_flags_hdr shdr AND SHF_EXCLUDE \<noteq> 0 \<and>
          starts_with (sh_name shdr) ''.gnu.offload_lto_.symtab.''
       then Inr (st\<lparr>is_gcc_offload_obj := True\<rparr>)
       else if sh_flags_hdr shdr AND SHF_EXCLUDE \<noteq> 0 \<and> sh_flags_hdr shdr AND SHF_ALLOC = 0 \<and>
               sh_type shdr \<noteq> SHT_LLVM_ADDRSIG \<and> \<not> arg_relocatable ctx
       then Inr st
       else if sh_type shdr = SHT_GROUP
       then classify_group fresh f shdrs (get_data i) i shdr st
       else bind_err (other i shdr (others st)) (\<lambda>r. Inr (st\<lparr>others := r\<rparr>)))"

text \<open>
  \<^verbatim>\<open>ObjectFile::initialize_sections\<close>: the loop over the section headers, then the
  loops that attach the relocation sections and the \<^verbatim>\<open>.ARM.exidx\<close> sections to their
  targets, \<open>attach\<close>, which write members of the input sections only.
\<close>

definition initialize_sections ::
  "Context \<Rightarrow> 'g \<Rightarrow> InputFile \<Rightarrow> ElfShdr list \<Rightarrow> (nat \<Rightarrow> u32 list)
     \<Rightarrow> (nat \<Rightarrow> ElfShdr \<Rightarrow> 'r \<Rightarrow> error + 'r) \<Rightarrow> ('r \<Rightarrow> error + 'r) \<Rightarrow> ('g, 'r) SecState
     \<Rightarrow> error + ('g, 'r) SecState" where
  "initialize_sections ctx fresh f shdrs get_data other attach st =
     bind_err (for_each (read_section ctx fresh f shdrs get_data other) [0 ..< length shdrs] st)
       (\<lambda>st1. bind_err (attach (others st1)) (\<lambda>r. Inr (st1\<lparr>others := r\<rparr>)))"

text \<open>
  Section \<open>i\<close> reaches the case \<^verbatim>\<open>SHT_GROUP\<close> of the switch: it is of that type and
  none of the tests before the switch skips it.
\<close>

definition group_section :: "Context \<Rightarrow> ElfShdr list \<Rightarrow> nat \<Rightarrow> bool" where
  "group_section ctx shdrs i =
     (i < length shdrs \<and> sh_type (shdrs ! i) = SHT_GROUP \<and>
      \<not> (sh_flags_hdr (shdrs ! i) AND SHF_EXCLUDE \<noteq> 0 \<and>
         (starts_with (sh_name (shdrs ! i)) ''.gnu.offload_lto_.symtab.'' \<or>
          sh_flags_hdr (shdrs ! i) AND SHF_ALLOC = 0 \<and> \<not> arg_relocatable ctx)))"

text \<open>The elements of the list of the file that section \<open>i\<close> registered.\<close>

definition groups_of :: "nat \<Rightarrow> ('g, 'r) SecState \<Rightarrow> ComdatGroupRef list" where
  "groups_of i st = filter (\<lambda>g. cg_sect_idx g = int i) (comdat_groups st)"

text \<open>
  An object file with three groups. Entry 1 of its symbol table is the section symbol of
  section 1, \<open>.text.f\<close>, and entry 2 the symbol \<open>vtable_for_X\<close>. Section 2 is a group signed
  by the name of section 1, with the flag word \<^verbatim>\<open>GRP_COMDAT\<close> and the member 1;
  section 3 is a group signed \<open>vtable_for_X\<close> whose flag word is 0, with the member 4;
  section 5 is a group signed \<open>vtable_for_X\<close> with the flag word \<^verbatim>\<open>GRP_COMDAT\<close> and no
  member. The sections that are not groups are left to \<open>grp_other\<close>, which does nothing.
\<close>

definition grp_o :: InputFile where
  "grp_o = no_file\<lparr>first_global := 2,
       elf_syms := [null_esym, null_esym\<lparr>st_type := 3, st_shndx := 1\<rparr>,
                    null_esym\<lparr>st_name := ''vtable_for_X'', st_bind := 1, st_shndx := 4\<rparr>],
       get_shndx := (\<lambda>i. if i = 1 then 1 else if i = 2 then 4 else 0)\<rparr>"

definition grp_shdrs :: "ElfShdr list" where
  "grp_shdrs =
     [\<lparr>sh_name = [], sh_type = 0, sh_flags_hdr = 0, sh_info = 0\<rparr>,
      \<lparr>sh_name = ''.text.f'', sh_type = 1, sh_flags_hdr = 6, sh_info = 0\<rparr>,
      \<lparr>sh_name = ''.group'', sh_type = 17, sh_flags_hdr = 0, sh_info = 1\<rparr>,
      \<lparr>sh_name = ''.group'', sh_type = 17, sh_flags_hdr = 0, sh_info = 2\<rparr>,
      \<lparr>sh_name = ''.data.rel.ro.vtable_for_X'', sh_type = 1, sh_flags_hdr = 3, sh_info = 0\<rparr>,
      \<lparr>sh_name = ''.group'', sh_type = 17, sh_flags_hdr = 0, sh_info = 2\<rparr>]"

definition grp_data :: "nat \<Rightarrow> u32 list" where
  "grp_data i = (if i = 2 then [1, 1] else if i = 3 then [0, 4] else if i = 5 then [1] else [])"

definition grp_other :: "nat \<Rightarrow> ElfShdr \<Rightarrow> unit \<Rightarrow> error + unit" where
  "grp_other i shdr r = Inr r"

definition grp_attach :: "unit \<Rightarrow> error + unit" where
  "grp_attach r = Inr r"

definition grp_start :: "(unit, unit) SecState" where
  "grp_start = \<lparr>comdat_map = Map.empty, comdat_groups = [], is_gcc_offload_obj = False,
                others = ()\<rparr>"

section \<open>Section pieces\<close>

text \<open>
  One iteration of the loop "Attach section pieces to symbols" of
  \<^verbatim>\<open>ObjectFile::reattach_section_pieces\<close>, on the store of symbols.
\<close>

definition attach_piece :: "InputFile \<Rightarrow> sym_heap \<Rightarrow> nat \<Rightarrow> error + sym_heap" where
  "attach_piece f heap i =
     bind_err (at (symbols f) i) (\<lambda>p.
     bind_err (deref heap p) (\<lambda>(r, s).
     bind_err (at (elf_syms f) i) (\<lambda>esym.
       if is_abs esym \<or> is_common esym \<or> is_undef esym then Inr heap
       else
         bind_err (at (mergeable_sections f) (get_shndx f i)) (\<lambda>m.
           case m of
             None \<Rightarrow> Inr heap
           | Some ms \<Rightarrow>
               if \<not> parent_resolved ms then Inr heap
               else
                 (case get_fragment ms (st_value esym) of
                    (None, off) \<Rightarrow> Inl (Fatal ''bad symbol value'')
                  | (Some fr, off) \<Rightarrow>
                      Inr (heap(r \<mapsto> (set_frag (Some fr) s)\<lparr>sym_value := off\<rparr>)))))))"

text \<open>
  The test of the loop "Compute the size of frag_syms" on a relocation: its symbol is a
  section symbol and the section is mergeable. The reads have no check in the source.
\<close>

definition targets_piece :: "InputFile \<Rightarrow> ElfRel \<Rightarrow> error + bool" where
  "targets_piece f r =
     bind_err (at (elf_syms f) (unat (r_sym r))) (\<lambda>esym.
       if st_type esym \<noteq> STT_SECTION then Inr False
       else bind_err (at (mergeable_sections f) (get_shndx f (unat (r_sym r)))) (\<lambda>m.
              Inr (m \<noteq> None)))"

fun count_frag_rels :: "InputFile \<Rightarrow> ElfRel list \<Rightarrow> nat \<Rightarrow> error + nat" where
  "count_frag_rels f [] n = Inr n"
| "count_frag_rels f (r # rs) n =
     bind_err (targets_piece f r) (\<lambda>b. count_frag_rels f rs (if b then Suc n else n))"

fun count_frag_syms :: "InputFile \<Rightarrow> InputSection option list \<Rightarrow> nat \<Rightarrow> error + nat" where
  "count_frag_syms f [] n = Inr n"
| "count_frag_syms f (isec # secs) n =
     (case isec of
        None \<Rightarrow> count_frag_syms f secs n
      | Some sec \<Rightarrow>
          if sh_flags sec AND SHF_ALLOC \<noteq> 0
          then bind_err (count_frag_rels f (rels sec) n) (count_frag_syms f secs)
          else count_frag_syms f secs n)"

text \<open>
  \<^verbatim>\<open>frag_syms.resize(nfrag_syms)\<close> for file \<open>this\<close>, whose vector had \<open>old\<close> elements:
  the elements of \<^verbatim>\<open>frag_syms\<close> are the objects at the addresses \<open>FragSym this k\<close>; the
  new ones are fresh symbols without a name.
\<close>

definition resize_frag_syms :: "nat \<Rightarrow> nat \<Rightarrow> nat \<Rightarrow> sym_heap \<Rightarrow> sym_heap" where
  "resize_frag_syms this old n heap =
     (\<lambda>x. case x of
             FragSym t k \<Rightarrow>
               if t = this
               then (if k < n then (if k < old then heap x else Some (new_symbol [])) else None)
               else heap x
           | _ \<Rightarrow> heap x)"

text \<open>
  The assignments to \<^verbatim>\<open>frag_syms[idx]\<close> in the last loop, for a relocation whose
  \<^verbatim>\<open>r_sym\<close> is \<open>rsym\<close>, the fragment \<open>fr\<close> and the value \<open>v\<close>.
\<close>

definition fragment_symbol :: "nat \<Rightarrow> u32 \<Rightarrow> nat \<Rightarrow> u64 \<Rightarrow> Symbol \<Rightarrow> Symbol" where
  "fragment_symbol this rsym fr v s =
     (set_frag (Some fr)
        (s\<lparr>sym_file := Some this, name := ''<fragment>'', sym_idx := int (unat rsym),
           visibility := STV_HIDDEN\<rparr>))
     \<lparr>sym_value := v\<rparr>"

text \<open>
  The body of the inner loop of the last part, for relocation \<open>j\<close> of section \<open>k\<close>. The
  state is the relocations of the section, the store of symbols and \<open>idx\<close>; \<open>nfrag\<close> is
  the size of \<^verbatim>\<open>frag_syms\<close>.
\<close>

definition redirect_rel ::
  "nat \<Rightarrow> InputFile \<Rightarrow> nat \<Rightarrow> nat \<Rightarrow> ElfRel list \<times> sym_heap \<times> nat \<Rightarrow> nat
     \<Rightarrow> error + ElfRel list \<times> sym_heap \<times> nat" where
  "redirect_rel this f nfrag k st j =
     (case st of (rs, heap, idx) \<Rightarrow>
      bind_err (at rs j) (\<lambda>r.
      bind_err (at (elf_syms f) (unat (r_sym r))) (\<lambda>esym.
        if st_type esym \<noteq> STT_SECTION then Inr st
        else
          bind_err (at (mergeable_sections f) (get_shndx f (unat (r_sym r)))) (\<lambda>m.
            case m of
              None \<Rightarrow> Inr st
            | Some ms \<Rightarrow>
                if \<not> parent_resolved ms then Inl AssertionFailed
                else
                  (case get_fragment ms (st_value esym + get_addend f k r) of
                     (None, off) \<Rightarrow> Inl (Fatal ''bad relocation'')
                   | (Some fr, off) \<Rightarrow>
                       bind_err (if idx < nfrag then deref heap (Some (FragSym this idx))
                                 else Inl OutOfBounds) (\<lambda>(a, s).
                         Inr (rs[j := r\<lparr>r_sym := of_nat (length (elf_syms f) + idx)\<rparr>],
                              heap(a \<mapsto> fragment_symbol this (r_sym r) fr
                                                (off - get_addend f k r) s),
                              Suc idx)))))))"

text \<open>The body of the outer loop, for section \<open>k\<close>.\<close>

definition redirect_section ::
  "nat \<Rightarrow> InputFile \<Rightarrow> nat \<Rightarrow> InputSection option list \<times> sym_heap \<times> nat \<Rightarrow> nat
     \<Rightarrow> error + InputSection option list \<times> sym_heap \<times> nat" where
  "redirect_section this f nfrag st k =
     (case st of (secs, heap, idx) \<Rightarrow>
      bind_err (at secs k) (\<lambda>isec.
        case isec of
          None \<Rightarrow> Inr st
        | Some sec \<Rightarrow>
            if sh_flags sec AND SHF_ALLOC = 0 then Inr st
            else
              bind_err (for_each (redirect_rel this f nfrag k) [0 ..< length (rels sec)]
                          (rels sec, heap, idx)) (\<lambda>(rs, heap', idx').
                Inr (secs[k := Some (sec\<lparr>rels := rs\<rparr>)], heap', idx'))))"

text \<open>
  \<^verbatim>\<open>ObjectFile::reattach_section_pieces\<close> for file \<open>this\<close>: the three loops, the
  \<^verbatim>\<open>assert\<close> on \<open>idx\<close>, and the elements of \<^verbatim>\<open>frag_syms\<close> pushed to \<open>symbols\<close>.
\<close>

definition reattach_section_pieces ::
  "nat \<Rightarrow> InputFile \<times> sym_heap \<Rightarrow> error + InputFile \<times> sym_heap" where
  "reattach_section_pieces this st =
     (case st of (f, heap) \<Rightarrow>
      bind_err (for_each (attach_piece f) [1 ..< length (elf_syms f)] heap) (\<lambda>heap1.
      bind_err (count_frag_syms f (sections f) 0) (\<lambda>nfrag.
      bind_err (for_each (redirect_section this f nfrag) [0 ..< length (sections f)]
                  (sections f, resize_frag_syms this (num_frag_syms f) nfrag heap1, 0))
        (\<lambda>(secs, heap3, idx).
           if idx \<noteq> nfrag then Inl AssertionFailed
           else Inr (f\<lparr>sections := secs, num_frag_syms := nfrag,
                       symbols := symbols f @ map (\<lambda>k. Some (FragSym this k)) [0 ..< nfrag]\<rparr>,
                     heap3)))))"

text \<open>
  Entry \<open>i\<close> of \<open>f\<close> is defined in the resolved mergeable section \<open>ms\<close>: the first loop does
  not skip it.
\<close>

definition piece_entry :: "InputFile \<Rightarrow> nat \<Rightarrow> MergeableSection \<Rightarrow> bool" where
  "piece_entry f i ms =
     (1 \<le> i \<and> i < length (elf_syms f) \<and>
      \<not> is_abs (elf_syms f ! i) \<and> \<not> is_common (elf_syms f ! i) \<and> \<not> is_undef (elf_syms f ! i) \<and>
      get_shndx f i < length (mergeable_sections f) \<and>
      mergeable_sections f ! get_shndx f i = Some ms \<and> parent_resolved ms)"

text \<open>
  Relocation \<open>j\<close> of section \<open>k\<close> of \<open>f\<close>, a section with \<^verbatim>\<open>SHF_ALLOC\<close>, refers to the
  section symbol of the mergeable section \<open>ms\<close>: the last loop does not skip it.
\<close>

definition piece_rel :: "InputFile \<Rightarrow> nat \<Rightarrow> nat \<Rightarrow> MergeableSection \<Rightarrow> bool" where
  "piece_rel f k j ms =
     (k < length (sections f) \<and>
      (case sections f ! k of
         None \<Rightarrow> False
       | Some sec \<Rightarrow>
           sh_flags sec AND SHF_ALLOC \<noteq> 0 \<and> j < length (rels sec) \<and>
           unat (r_sym (rels sec ! j)) < length (elf_syms f) \<and>
           st_type (elf_syms f ! unat (r_sym (rels sec ! j))) = STT_SECTION \<and>
           get_shndx f (unat (r_sym (rels sec ! j))) < length (mergeable_sections f) \<and>
           mergeable_sections f ! get_shndx f (unat (r_sym (rels sec ! j))) = Some ms))"

text \<open>
  An object file, file 5, with the strings \<open>Hello world\<close> and \<open>foo bar\<close> in its mergeable
  section 2: the first piece is the bytes 0 to 11, the second the bytes 12 to 19. Entry 1
  of its symbol table is the section symbol of section 2 and entry 2 a local symbol at
  offset 12 of it. Section 1 is code, with a relocation to the section symbol with addend
  12 and a relocation to entry 2.
\<close>

definition str_pieces :: MergeableSection where
  "str_pieces =
     \<lparr>parent_resolved = True,
      get_fragment = (\<lambda>off. if off < 12 then (Some 0, off)
                             else if off < 20 then (Some 1, off - 12) else (None, 0))\<rparr>"

definition str_o :: InputFile where
  "str_o = no_file\<lparr>priority := 10005, is_reachable := True, first_global := 3,
       elf_syms := [null_esym,
                    null_esym\<lparr>st_type := 3, st_shndx := 2\<rparr>,
                    null_esym\<lparr>st_name := ''.L.str1'', st_value := 12, st_shndx := 2\<rparr>],
       symbols := [Some (LocalSym 5 0), Some (LocalSym 5 1), Some (LocalSym 5 2)],
       get_shndx := (\<lambda>i. if i = 0 then 0 else 2),
       get_addend := (\<lambda>k r. r_addend r),
       sections := [None,
                    Some \<lparr>is_alive = True, sh_flags = 6,
                          rels = [\<lparr>r_offset = 3, r_type = 2, r_sym = 1, r_addend = 12\<rparr>,
                                  \<lparr>r_offset = 10, r_type = 2, r_sym = 2, r_addend = 0\<rparr>]\<rparr>,
                    None],
       mergeable_sections := [None, None, Some str_pieces]\<rparr>"

definition str_heap :: sym_heap where
  "str_heap =
     Map.empty(LocalSym 5 0 \<mapsto> (new_symbol [])\<lparr>sym_file := Some 5, sym_idx := 0\<rparr>,
               LocalSym 5 1 \<mapsto> (new_symbol ''.rodata.str1.1'')
                                  \<lparr>sym_file := Some 5, sym_idx := 1, input_section := Some 2\<rparr>,
               LocalSym 5 2 \<mapsto> (new_symbol ''.L.str1'')
                                  \<lparr>sym_file := Some 5, sym_idx := 2, input_section := Some 2,
                                   sym_value := 12\<rparr>)"

section \<open>Properties\<close>

lemma bind_err_simps:
  "bind_err (Inl e) f = Inl e" "bind_err (Inr x) f = f x"
  by (simp_all add: bind_err_def)

subsection \<open>Reads, sequencing and loops\<close>

lemma at_Inr_iff: "at xs i = Inr x \<longleftrightarrow> i < length xs \<and> x = xs ! i"
  by (auto simp: at_def)

lemma at_in_range: "i < length xs \<Longrightarrow> at xs i = Inr (xs ! i)"
  by (simp add: at_def)

lemma deref_Inr_iff: "deref heap p = Inr (r, s) \<longleftrightarrow> p = Some r \<and> heap r = Some s"
  by (auto simp: deref_def split: option.splits)

lemma deref_Some: "heap r = Some s \<Longrightarrow> deref heap (Some r) = Inr (r, s)"
  by (simp add: deref_def)

lemma bind_err_Inr_iff: "bind_err m f = Inr y \<longleftrightarrow> (\<exists>x. m = Inr x \<and> f x = Inr y)"
  by (cases m) (simp_all add: bind_err_def)

lemma get_rank_Inr_iff:
  "get_rank f e x = Inr a \<longleftrightarrow> (\<exists>c. get_sym_rank f e x = Inr c \<and> a = push_bit 24 c + priority f)"
  by (auto simp: get_rank_def bind_err_Inr_iff)

lemma get_rank_dso: "is_dso f \<Longrightarrow> get_rank f e x = get_rank f e False"
  by (simp add: get_rank_def get_sym_rank_def)

lemma get_rank_sym_obj_overwrite:
  assumes "at (elf_syms (files this)) i = Inr esym"
  shows "get_rank_sym files (obj_overwrite ctx this i esym isec s)
         = get_rank (files this) esym (\<not> is_reachable (files this))"
  using assms
  by (simp add: get_rank_sym_def esym_of_def obj_overwrite_def set_input_section_def bind_err_def)

lemma get_rank_sym_dso_overwrite:
  assumes "at (elf_syms (files this)) i = Inr esym" "is_dso (files this)"
  shows "get_rank_sym files (dso_overwrite this i esym ver s) = get_rank (files this) esym False"
  using assms get_rank_dso[of "files this" esym "\<not> is_reachable (files this)"]
  by (simp add: get_rank_sym_def esym_of_def dso_overwrite_def bind_err_def)

lemma get_rank_sym_dso_overwrite_alias:
  assumes "at (elf_syms (files this)) i = Inr esym" "is_dso (files this)"
  shows "get_rank_sym files (dso_overwrite_alias this i r s) = get_rank (files this) esym False"
  using assms get_rank_dso[of "files this" esym "\<not> is_reachable (files this)"]
  by (simp add: get_rank_sym_def esym_of_def dso_overwrite_alias_def bind_err_def)

lemma for_each_rel:
  assumes step: "\<And>h i h'. body h i = Inr h' \<Longrightarrow> R h h'"
    and refl: "\<And>a. R a a"
    and trans: "\<And>a b c. R a b \<Longrightarrow> R b c \<Longrightarrow> R a c"
  shows "for_each body is h = Inr h' \<Longrightarrow> R h h'"
proof (induction "is" arbitrary: h)
  case Nil
  then show ?case by (simp add: refl)
next
  case (Cons i "is")
  from Cons.prems obtain h1 where h1: "body h i = Inr h1" and rest: "for_each body is h1 = Inr h'"
    by (cases "body h i") simp_all
  from step[OF h1] Cons.IH[OF rest] show ?case by (rule trans)
qed

lemma for_each_fixpoint:
  assumes step: "\<And>h i h'. body h i = Inr h' \<Longrightarrow> R h h'"
    and refl: "\<And>a. R a a"
    and trans: "\<And>a b c. R a b \<Longrightarrow> R b c \<Longrightarrow> R a c"
    and antisym: "\<And>a b. R a b \<Longrightarrow> R b a \<Longrightarrow> a = b"
  shows "for_each body is h = Inr h \<Longrightarrow> \<forall>i\<in>set is. body h i = Inr h"
proof (induction "is")
  case Nil
  then show ?case by simp
next
  case (Cons i "is")
  from Cons.prems obtain h1 where h1: "body h i = Inr h1" and rest: "for_each body is h1 = Inr h"
    by (cases "body h i") simp_all
  have "R h h1" by (rule step[OF h1])
  moreover have "R h1 h" by (rule for_each_rel[OF step refl trans rest])
  ultimately have "h1 = h" by (rule antisym[symmetric])
  with h1 rest Cons.IH show ?case by simp
qed

subsection \<open>Visibility merge\<close>

lemma vis_priority_range:
  "vis_priority v = Inr p \<Longrightarrow> (v = STV_HIDDEN \<and> p = 1) \<or> (v = STV_PROTECTED \<and> p = 2) \<or> (v = STV_DEFAULT \<and> p = 3)"
  by (auto simp: vis_priority_def split: if_splits)


lemma merge_visibility_defined:
  assumes "vis_priority (visibility s) = Inr p" "vis_priority (canonicalize v) = Inr q"
  shows "merge_visibility s v = Inr (s\<lparr>visibility := (if q < p then canonicalize v else visibility s)\<rparr>)"
  using assms
  by (simp add: merge_visibility_def update_minimum_def bind_err_def)

lemma canonicalize_2bit:
  assumes "unat v \<le> 3"
  shows "\<exists>q. vis_priority (canonicalize v) = Inr q"
proof -
  from assms have "unat v = 0 \<or> unat v = 1 \<or> unat v = 2 \<or> unat v = 3" by arith
  then have "v = 0 \<or> v = 1 \<or> v = 2 \<or> v = 3"
    unfolding word_unat_eq_iff by simp
  then show ?thesis
    by (auto simp: canonicalize_def vis_priority_def STV_HIDDEN_def STV_INTERNAL_def
        STV_PROTECTED_def STV_DEFAULT_def)
qed




lemma merge_visibility_all_total:
  "vis_priority (visibility s) = Inr p \<Longrightarrow> \<forall>v \<in> set vs. unat v \<le> 3 \<Longrightarrow>
   \<exists>s'. merge_visibility_all s vs = Inr s'"
proof (induction vs arbitrary: s p)
  case Nil
  then show ?case by simp
next
  case (Cons v vs)
  from Cons.prems(2) have "unat v \<le> 3" by simp
  from canonicalize_2bit[OF this] obtain q where q: "vis_priority (canonicalize v) = Inr q" ..
  let ?s1 = "s\<lparr>visibility := (if q < p then canonicalize v else visibility s)\<rparr>"
  have s1: "merge_visibility s v = Inr ?s1"
    by (rule merge_visibility_defined[OF Cons.prems(1) q])
  have "vis_priority (visibility ?s1) = Inr (min p q)"
    using q Cons.prems(1) by (auto simp: min_def)
  from Cons.IH[OF this] Cons.prems(2) obtain s' where "merge_visibility_all ?s1 vs = Inr s'"
    by auto
  with s1 show ?case by simp
qed



subsection \<open>Symbol resolution: the order on stores\<close>

lemma bind_err_InrE:
  assumes "bind_err m f = Inr y"
  obtains x where "m = Inr x" "f x = Inr y"
  using assms by (cases m) (simp_all add: bind_err_def)

lemma rank_lowered_refl: "rank_lowered files h h"
  by (simp add: rank_lowered_def)

lemma rank_loweredD:
  assumes "rank_lowered files h h'" "h' r \<noteq> h r"
  obtains s s' a b where "h r = Some s" "h' r = Some s'" "get_rank_sym files s = Inr b"
    "get_rank_sym files s' = Inr a" "a < b"
  using assms unfolding rank_lowered_def by blast

lemma rank_lowered_trans:
  assumes 12: "rank_lowered files h1 h2" and 23: "rank_lowered files h2 h3"
  shows "rank_lowered files h1 h3"
  unfolding rank_lowered_def
proof
  fix r
  show "h3 r = h1 r \<or>
        (\<exists>s s' a b. h1 r = Some s \<and> h3 r = Some s' \<and> get_rank_sym files s = Inr b \<and>
           get_rank_sym files s' = Inr a \<and> a < b)"
  proof (cases "h2 r = h1 r")
    case True
    show ?thesis
    proof (cases "h3 r = h2 r")
      case True
      with \<open>h2 r = h1 r\<close> show ?thesis by simp
    next
      case False
      from rank_loweredD[OF 23 False] obtain s s' a b where
        z: "h2 r = Some s" "h3 r = Some s'" "get_rank_sym files s = Inr b"
        "get_rank_sym files s' = Inr a" "a < b" by metis
      from z(1) True have "h1 r = Some s" by simp
      with z show ?thesis by blast
    qed
  next
    case False
    from rank_loweredD[OF 12 False] obtain s s' a b where
      x: "h1 r = Some s" "h2 r = Some s'" "get_rank_sym files s = Inr b"
      "get_rank_sym files s' = Inr a" "a < b" by metis
    show ?thesis
    proof (cases "h3 r = h2 r")
      case True
      with x have "h3 r = Some s'" by simp
      with x show ?thesis by blast
    next
      case False
      from rank_loweredD[OF 23 False] obtain t t' c d where
        y: "h2 r = Some t" "h3 r = Some t'" "get_rank_sym files t = Inr d"
        "get_rank_sym files t' = Inr c" "c < d" by metis
      from x y have "d = a" by simp
      with x y have "c < b" by simp
      with x y show ?thesis by blast
    qed
  qed
qed

lemma rank_lowered_antisym:
  assumes 12: "rank_lowered files h1 h2" and 21: "rank_lowered files h2 h1"
  shows "h1 = h2"
proof (rule ext)
  fix r
  show "h1 r = h2 r"
  proof (rule ccontr)
    assume ne: "h1 r \<noteq> h2 r"
    then have ne': "h2 r \<noteq> h1 r" by simp
    from rank_loweredD[OF 12 ne'] obtain s s' a b where
      x: "h1 r = Some s" "h2 r = Some s'" "get_rank_sym files s = Inr b"
      "get_rank_sym files s' = Inr a" "a < b" by metis
    from rank_loweredD[OF 21 ne] obtain t t' c d where
      y: "h2 r = Some t" "h1 r = Some t'" "get_rank_sym files t = Inr d"
      "get_rank_sym files t' = Inr c" "c < d" by metis
    from x y have "d = a" "c = b" by simp_all
    with x y show False by simp
  qed
qed

lemma rank_lowered_upd:
  assumes "h r = Some s" "get_rank_sym files s = Inr b" "get_rank_sym files s' = Inr a" "a < b"
  shows "rank_lowered files h (h(r \<mapsto> s'))"
  using assms by (simp add: rank_lowered_def)

lemma upd_fixed_rank:
  assumes "h(r \<mapsto> s') = h" "h r = Some s" "get_rank_sym files s = Inr b" "get_rank_sym files s' = Inr a"
  shows "a = b"
proof -
  from assms(1) have "(h(r \<mapsto> s')) r = h r" by simp
  with assms(2) have "s' = s" by simp
  with assms(3,4) show ?thesis by simp
qed

subsection \<open>Symbol resolution: one iteration over an object file\<close>

lemma obj_resolve_at_result:
  assumes "obj_resolve_at ctx files this heap i r s esym isec = Inr h'"
  shows "\<exists>a b. get_rank (files this) esym (\<not> is_reachable (files this)) = Inr a \<and>
               get_rank_sym files s = Inr b \<and>
               h' = (if a < b then heap(r \<mapsto> obj_overwrite ctx this i esym isec s) else heap)"
proof -
  from assms obtain a where a: "get_rank (files this) esym (\<not> is_reachable (files this)) = Inr a"
    and r1: "bind_err (get_rank_sym files s) (\<lambda>b.
       Inr (if a < b then heap(r \<mapsto> obj_overwrite ctx this i esym isec s) else heap)) = Inr h'"
    unfolding obj_resolve_at_def by (rule bind_err_InrE)
  from r1 obtain b where "get_rank_sym files s = Inr b"
    and "Inr (if a < b then heap(r \<mapsto> obj_overwrite ctx this i esym isec s) else heap) = Inr h'"
    by (auto elim: bind_err_InrE)
  with a show ?thesis by auto
qed

lemma obj_resolve_at_defined:
  assumes "get_rank (files this) esym (\<not> is_reachable (files this)) = Inr a"
    "get_rank_sym files s = Inr b"
  shows "obj_resolve_at ctx files this heap i r s esym isec
         = Inr (if a < b then heap(r \<mapsto> obj_overwrite ctx this i esym isec s) else heap)"
  using assms by (simp add: obj_resolve_at_def bind_err_simps)

lemma obj_resolve_at_lowered:
  assumes res: "obj_resolve_at ctx files this heap i r s esym isec = Inr h'"
    and hr: "heap r = Some s" and e: "at (elf_syms (files this)) i = Inr esym"
  shows "rank_lowered files heap h'"
proof -
  from obj_resolve_at_result[OF res] obtain a b where
    a: "get_rank (files this) esym (\<not> is_reachable (files this)) = Inr a"
    and b: "get_rank_sym files s = Inr b"
    and h': "h' = (if a < b then heap(r \<mapsto> obj_overwrite ctx this i esym isec s) else heap)"
    by blast
  show ?thesis
  proof (cases "a < b")
    case True
    have "get_rank_sym files (obj_overwrite ctx this i esym isec s) = Inr a"
      using get_rank_sym_obj_overwrite[of files this i esym ctx isec s] e a by simp
    with hr b have "rank_lowered files heap (heap(r \<mapsto> obj_overwrite ctx this i esym isec s))"
      using True by (intro rank_lowered_upd)
    with h' True show ?thesis by simp
  next
    case False
    with h' show ?thesis by (simp add: rank_lowered_refl)
  qed
qed

lemma obj_resolve_step_candidate:
  assumes cand: "obj_candidate (files this) i"
    and p: "at (symbols (files this)) i = Inr (Some r)" and hr: "heap r = Some s"
  shows "obj_resolve_step ctx files this heap i
         = obj_resolve_at ctx files this heap i r s (elf_syms (files this) ! i) (obj_isec (files this) i)"
proof -
  let ?f = "files this"
  let ?e = "elf_syms ?f ! i"
  from cand have len: "i < length (elf_syms ?f)" and nu: "\<not> is_undef ?e"
    by (simp_all add: obj_candidate_def)
  have e: "at (elf_syms ?f) i = Inr ?e" using len by (rule at_in_range)
  have d: "deref heap (Some r) = Inr (r, s)" using hr by (rule deref_Some)
  show ?thesis
  proof (cases "is_abs ?e \<or> is_common ?e")
    case True
    then show ?thesis
      using p d e nu by (auto simp: obj_resolve_step_def bind_err_simps obj_isec_def)
  next
    case False
    with cand have "case at (sections ?f) (get_shndx ?f i) of
          Inr (Some sec) \<Rightarrow> is_alive sec | _ \<Rightarrow> False"
      by (simp add: obj_candidate_def)
    then obtain sec where sec: "at (sections ?f) (get_shndx ?f i) = Inr (Some sec)"
      and alive: "is_alive sec"
      by (cases "at (sections ?f) (get_shndx ?f i)") (auto split: option.splits)
    from False show ?thesis
      using p d e nu sec alive by (simp add: obj_resolve_step_def bind_err_simps obj_isec_def)
  qed
qed

lemma obj_resolve_step_lowered:
  assumes step: "obj_resolve_step ctx files this heap i = Inr h'"
  shows "rank_lowered files heap h'"
proof -
  let ?f = "files this"
  from step obtain p where p: "at (symbols ?f) i = Inr p"
    and r1: "bind_err (deref heap p) (\<lambda>(r, s).
     bind_err (at (elf_syms ?f) i) (\<lambda>esym.
       if is_undef esym then Inr heap
       else if \<not> is_abs esym \<and> \<not> is_common esym then
         bind_err (at (sections ?f) (get_shndx ?f i)) (\<lambda>isec.
           case isec of
             None \<Rightarrow> Inr heap
           | Some sec \<Rightarrow>
               if \<not> is_alive sec then Inr heap
               else obj_resolve_at ctx files this heap i r s esym (Some (get_shndx ?f i)))
       else obj_resolve_at ctx files this heap i r s esym None)) = Inr h'"
    unfolding obj_resolve_step_def by (rule bind_err_InrE)
  from r1 obtain rs where d: "deref heap p = Inr rs"
    and r2: "(case rs of (r, s) \<Rightarrow>
     bind_err (at (elf_syms ?f) i) (\<lambda>esym.
       if is_undef esym then Inr heap
       else if \<not> is_abs esym \<and> \<not> is_common esym then
         bind_err (at (sections ?f) (get_shndx ?f i)) (\<lambda>isec.
           case isec of
             None \<Rightarrow> Inr heap
           | Some sec \<Rightarrow>
               if \<not> is_alive sec then Inr heap
               else obj_resolve_at ctx files this heap i r s esym (Some (get_shndx ?f i)))
       else obj_resolve_at ctx files this heap i r s esym None)) = Inr h'"
    by (rule bind_err_InrE)
  obtain r s where rs: "rs = (r, s)" by (cases rs)
  from d rs have hr: "heap r = Some s" by (simp add: deref_Inr_iff)
  from r2 rs obtain esym where e: "at (elf_syms ?f) i = Inr esym"
    and r3: "(if is_undef esym then Inr heap
       else if \<not> is_abs esym \<and> \<not> is_common esym then
         bind_err (at (sections ?f) (get_shndx ?f i)) (\<lambda>isec.
           case isec of
             None \<Rightarrow> Inr heap
           | Some sec \<Rightarrow>
               if \<not> is_alive sec then Inr heap
               else obj_resolve_at ctx files this heap i r s esym (Some (get_shndx ?f i)))
       else obj_resolve_at ctx files this heap i r s esym None) = Inr h'"
    by (auto elim: bind_err_InrE)
  have "h' = heap \<or> (\<exists>isec. obj_resolve_at ctx files this heap i r s esym isec = Inr h')"
  proof (cases "is_undef esym")
    case True
    with r3 show ?thesis by simp
  next
    case nu: False
    show ?thesis
    proof (cases "\<not> is_abs esym \<and> \<not> is_common esym")
      case False
      with nu r3 show ?thesis by auto
    next
      case True
      with nu r3 obtain isec where "at (sections ?f) (get_shndx ?f i) = Inr isec"
        and r4: "(case isec of
             None \<Rightarrow> Inr heap
           | Some sec \<Rightarrow>
               if \<not> is_alive sec then Inr heap
               else obj_resolve_at ctx files this heap i r s esym (Some (get_shndx ?f i))) = Inr h'"
        by (auto elim: bind_err_InrE)
      from r4 show ?thesis by (cases isec) (auto split: if_splits)
    qed
  qed
  then show ?thesis
  proof
    assume "h' = heap"
    then show ?thesis by (simp add: rank_lowered_refl)
  next
    assume "\<exists>isec. obj_resolve_at ctx files this heap i r s esym isec = Inr h'"
    then obtain isec where "obj_resolve_at ctx files this heap i r s esym isec = Inr h'" ..
    then show ?thesis using hr e by (rule obj_resolve_at_lowered)
  qed
qed

subsection \<open>Symbol resolution: one iteration over a shared object\<close>

lemma dso_resolve_base_result:
  assumes "dso_resolve_base files this heap i r s esym = Inr h'"
  shows "\<exists>a b. get_rank (files this) esym False = Inr a \<and> get_rank_sym files s = Inr b \<and>
           (if a < b
            then \<exists>ver. at (versyms (files this)) i = Inr ver \<and>
                   h' = heap(r \<mapsto> dso_overwrite this i esym ver s)
            else h' = heap)"
proof -
  from assms obtain a where a: "get_rank (files this) esym False = Inr a"
    and r1: "bind_err (get_rank_sym files s) (\<lambda>b.
       if a < b
       then bind_err (at (versyms (files this)) i) (\<lambda>ver.
              Inr (heap(r \<mapsto> dso_overwrite this i esym ver s)))
       else Inr heap) = Inr h'"
    unfolding dso_resolve_base_def by (auto elim: bind_err_InrE)
  from r1 obtain b where b: "get_rank_sym files s = Inr b"
    and r2: "(if a < b
       then bind_err (at (versyms (files this)) i) (\<lambda>ver.
              Inr (heap(r \<mapsto> dso_overwrite this i esym ver s)))
       else Inr heap) = Inr h'"
    by (auto elim: bind_err_InrE)
  show ?thesis
  proof (cases "a < b")
    case True
    with r2 obtain ver where "at (versyms (files this)) i = Inr ver"
      and "h' = heap(r \<mapsto> dso_overwrite this i esym ver s)"
      by (auto elim: bind_err_InrE)
    with a b True show ?thesis by auto
  next
    case False
    with r2 a b show ?thesis by auto
  qed
qed

lemma dso_resolve_base_lowered:
  assumes res: "dso_resolve_base files this heap i r s esym = Inr h'"
    and hr: "heap r = Some s" and e: "at (elf_syms (files this)) i = Inr esym"
    and dso: "is_dso (files this)"
  shows "rank_lowered files heap h'"
proof -
  from dso_resolve_base_result[OF res] obtain a b where
    a: "get_rank (files this) esym False = Inr a"
    and b: "get_rank_sym files s = Inr b"
    and h': "if a < b
            then \<exists>ver. at (versyms (files this)) i = Inr ver \<and>
                   h' = heap(r \<mapsto> dso_overwrite this i esym ver s)
            else h' = heap"
    by blast
  show ?thesis
  proof (cases "a < b")
    case True
    with h' obtain ver where h'': "h' = heap(r \<mapsto> dso_overwrite this i esym ver s)" by auto
    have "get_rank_sym files (dso_overwrite this i esym ver s) = Inr a"
      using get_rank_sym_dso_overwrite[of files this i esym ver s] e dso a by simp
    with hr b have "rank_lowered files heap (heap(r \<mapsto> dso_overwrite this i esym ver s))"
      using True by (intro rank_lowered_upd)
    with h'' show ?thesis by simp
  next
    case False
    with h' show ?thesis by (simp add: rank_lowered_refl)
  qed
qed

lemma dso_resolve_alias_result:
  assumes "dso_resolve_alias files this heap i r esym = Inr h'"
  shows "\<exists>p2. at (symbols2 (files this)) i = Inr p2 \<and>
           (if p2 \<noteq> None \<and> p2 \<noteq> Some r
            then \<exists>r2 s2 a b. p2 = Some r2 \<and> heap r2 = Some s2 \<and>
                   get_rank (files this) esym False = Inr a \<and> get_rank_sym files s2 = Inr b \<and>
                   h' = (if a < b then heap(r2 \<mapsto> dso_overwrite_alias this i r s2) else heap)
            else h' = heap)"
proof -
  from assms obtain p2 where p2: "at (symbols2 (files this)) i = Inr p2"
    and r1: "(if p2 \<noteq> None \<and> p2 \<noteq> Some r then
         bind_err (deref heap p2) (\<lambda>(r2, s2).
         bind_err (get_rank (files this) esym False) (\<lambda>a.
         bind_err (get_rank_sym files s2) (\<lambda>b.
           Inr (if a < b then heap(r2 \<mapsto> dso_overwrite_alias this i r s2) else heap))))
       else Inr heap) = Inr h'"
    unfolding dso_resolve_alias_def by (auto elim: bind_err_InrE)
  show ?thesis
  proof (cases "p2 \<noteq> None \<and> p2 \<noteq> Some r")
    case False
    with r1 p2 show ?thesis by auto
  next
    case True
    with r1 obtain rs where d: "deref heap p2 = Inr rs"
      and r2: "(case rs of (r2, s2) \<Rightarrow>
         bind_err (get_rank (files this) esym False) (\<lambda>a.
         bind_err (get_rank_sym files s2) (\<lambda>b.
           Inr (if a < b then heap(r2 \<mapsto> dso_overwrite_alias this i r s2) else heap)))) = Inr h'"
      by (auto elim: bind_err_InrE)
    obtain r2 s2 where rs: "rs = (r2, s2)" by (cases rs)
    from d rs have d': "p2 = Some r2" "heap r2 = Some s2" by (simp_all add: deref_Inr_iff)
    from r2 rs obtain a where a: "get_rank (files this) esym False = Inr a"
      and r3: "bind_err (get_rank_sym files s2) (\<lambda>b.
           Inr (if a < b then heap(r2 \<mapsto> dso_overwrite_alias this i r s2) else heap)) = Inr h'"
      by (auto elim: bind_err_InrE)
    from r3 obtain b where "get_rank_sym files s2 = Inr b"
      and "h' = (if a < b then heap(r2 \<mapsto> dso_overwrite_alias this i r s2) else heap)"
      by (auto elim: bind_err_InrE)
    with True p2 d' a show ?thesis by auto
  qed
qed

lemma dso_resolve_alias_lowered:
  assumes res: "dso_resolve_alias files this heap i r esym = Inr h'"
    and e: "at (elf_syms (files this)) i = Inr esym"
    and dso: "is_dso (files this)"
  shows "rank_lowered files heap h'"
proof -
  from dso_resolve_alias_result[OF res] obtain p2 where
    h': "if p2 \<noteq> None \<and> p2 \<noteq> Some r
            then \<exists>r2 s2 a b. p2 = Some r2 \<and> heap r2 = Some s2 \<and>
                   get_rank (files this) esym False = Inr a \<and> get_rank_sym files s2 = Inr b \<and>
                   h' = (if a < b then heap(r2 \<mapsto> dso_overwrite_alias this i r s2) else heap)
            else h' = heap"
    by blast
  show ?thesis
  proof (cases "p2 \<noteq> None \<and> p2 \<noteq> Some r")
    case False
    with h' show ?thesis by (simp add: rank_lowered_refl)
  next
    case True
    with h' obtain r2 s2 a b where hr: "heap r2 = Some s2"
      and a: "get_rank (files this) esym False = Inr a" and b: "get_rank_sym files s2 = Inr b"
      and h'': "h' = (if a < b then heap(r2 \<mapsto> dso_overwrite_alias this i r s2) else heap)"
      by auto
    show ?thesis
    proof (cases "a < b")
      case lt: True
      have "get_rank_sym files (dso_overwrite_alias this i r s2) = Inr a"
        using get_rank_sym_dso_overwrite_alias[of files this i esym r s2] e dso a by simp
      with hr b have "rank_lowered files heap (heap(r2 \<mapsto> dso_overwrite_alias this i r s2))"
        using lt by (intro rank_lowered_upd)
      with h'' lt show ?thesis by simp
    next
      case False
      with h'' show ?thesis by (simp add: rank_lowered_refl)
    qed
  qed
qed

lemma dso_resolve_step_candidate:
  assumes cand: "dso_candidate (files this) heap i"
    and p: "symbols (files this) ! i = Some r" and hr: "heap r = Some s"
  shows "dso_resolve_step files this heap i
         = bind_err (dso_resolve_base files this heap i r s (elf_syms (files this) ! i))
             (\<lambda>heap1. dso_resolve_alias files this heap1 i r (elf_syms (files this) ! i))"
proof -
  let ?f = "files this"
  from cand have l1: "i < length (symbols ?f)" and l2: "i < length (elf_syms ?f)"
    and nu: "\<not> is_undef (elf_syms ?f ! i)"
    by (simp_all add: dso_candidate_def)
  have d: "deref heap (Some r) = Inr (r, s)" using hr by (rule deref_Some)
  with cand p have ns: "\<not> skip_dso s" by (simp add: dso_candidate_def)
  show ?thesis
    using l1 l2 nu ns d p
    by (simp add: dso_resolve_step_def at_in_range bind_err_simps)
qed

lemma dso_resolve_step_result:
  assumes step: "dso_resolve_step files this heap i = Inr h'"
  shows "h' = heap \<or>
         (\<exists>r s esym h1. heap r = Some s \<and> at (elf_syms (files this)) i = Inr esym \<and>
            dso_resolve_base files this heap i r s esym = Inr h1 \<and>
            dso_resolve_alias files this h1 i r esym = Inr h')"
proof -
  let ?f = "files this"
  from step obtain p where p: "at (symbols ?f) i = Inr p"
    and r1: "bind_err (deref heap p) (\<lambda>(r, s).
     bind_err (at (elf_syms ?f) i) (\<lambda>esym.
       if is_undef esym \<or> skip_dso s then Inr heap
       else
         bind_err (dso_resolve_base files this heap i r s esym) (\<lambda>heap1.
           dso_resolve_alias files this heap1 i r esym))) = Inr h'"
    unfolding dso_resolve_step_def by (auto elim: bind_err_InrE)
  from r1 obtain rs where d: "deref heap p = Inr rs"
    and r2: "(case rs of (r, s) \<Rightarrow>
     bind_err (at (elf_syms ?f) i) (\<lambda>esym.
       if is_undef esym \<or> skip_dso s then Inr heap
       else
         bind_err (dso_resolve_base files this heap i r s esym) (\<lambda>heap1.
           dso_resolve_alias files this heap1 i r esym))) = Inr h'"
    by (auto elim: bind_err_InrE)
  obtain r s where rs: "rs = (r, s)" by (cases rs)
  from d rs have hr: "heap r = Some s" by (simp add: deref_Inr_iff)
  from r2 rs obtain esym where e: "at (elf_syms ?f) i = Inr esym"
    and r3: "(if is_undef esym \<or> skip_dso s then Inr heap
       else
         bind_err (dso_resolve_base files this heap i r s esym) (\<lambda>heap1.
           dso_resolve_alias files this heap1 i r esym)) = Inr h'"
    by (auto elim: bind_err_InrE)
  show ?thesis
  proof (cases "is_undef esym \<or> skip_dso s")
    case True
    with r3 show ?thesis by simp
  next
    case False
    with r3 obtain h1 where "dso_resolve_base files this heap i r s esym = Inr h1"
      and "dso_resolve_alias files this h1 i r esym = Inr h'"
      by (auto elim: bind_err_InrE)
    with hr e show ?thesis by blast
  qed
qed

lemma dso_resolve_step_lowered:
  assumes step: "dso_resolve_step files this heap i = Inr h'" and dso: "is_dso (files this)"
  shows "rank_lowered files heap h'"
proof -
  from dso_resolve_step_result[OF step] show ?thesis
  proof
    assume "h' = heap"
    then show ?thesis by (simp add: rank_lowered_refl)
  next
    assume "\<exists>r s esym h1. heap r = Some s \<and> at (elf_syms (files this)) i = Inr esym \<and>
            dso_resolve_base files this heap i r s esym = Inr h1 \<and>
            dso_resolve_alias files this h1 i r esym = Inr h'"
    then obtain r s esym h1 where hr: "heap r = Some s"
      and e: "at (elf_syms (files this)) i = Inr esym"
      and b: "dso_resolve_base files this heap i r s esym = Inr h1"
      and a: "dso_resolve_alias files this h1 i r esym = Inr h'"
      by blast
    have "rank_lowered files heap h1" using b hr e dso by (rule dso_resolve_base_lowered)
    moreover have "rank_lowered files h1 h'" using a e dso by (rule dso_resolve_alias_lowered)
    ultimately show ?thesis by (rule rank_lowered_trans)
  qed
qed

subsection \<open>Ranks as pairs of a class and a priority\<close>

lemma unat_rank:
  fixes c p :: u64
  assumes c: "c \<le> 7" and p: "unat p < 2 ^ 24"
  shows "unat (push_bit 24 c + p) = unat c * 2 ^ 24 + unat p"
proof -
  from c have c': "unat c \<le> 7" by (simp add: word_le_nat_alt)
  have two: "unat (2 ^ 24 :: u64) = 2 ^ 24" by simp
  have "unat c * unat (2 ^ 24 :: u64) < 2 ^ LENGTH(64)"
    using c' unfolding two by simp
  then have "unat (c * 2 ^ 24) = unat c * unat (2 ^ 24 :: u64)"
    by (simp only: unat_mult_lem)
  then have pb: "unat (push_bit 24 c) = unat c * 2 ^ 24"
    by (simp add: push_bit_eq_mult)
  have "unat (push_bit 24 c) + unat p < 2 ^ LENGTH(64)"
    using c' p unfolding pb by simp
  then have "unat (push_bit 24 c + p) = unat (push_bit 24 c) + unat p"
    by (simp only: unat_add_lem)
  with pb show ?thesis by simp
qed

lemma rank_same_class:
  fixes c p1 p2 :: u64
  assumes "c \<le> 7" "unat p1 < 2 ^ 24" "unat p2 < 2 ^ 24"
  shows "push_bit 24 c + p1 \<le> push_bit 24 c + p2 \<longleftrightarrow> p1 \<le> p2"
  using assms by (simp add: word_le_nat_alt unat_rank)

lemma rank_class_dominates:
  fixes c1 c2 p1 p2 :: u64
  assumes "c1 < c2" "c2 \<le> 7" "unat p1 < 2 ^ 24" "unat p2 < 2 ^ 24"
  shows "push_bit 24 c1 + p1 < push_bit 24 c2 + p2"
proof -
  from assms have c1: "c1 \<le> 7" by simp
  from assms have lt: "unat c1 < unat c2" by (simp add: word_less_nat_alt)
  then have "Suc (unat c1) \<le> unat c2" by simp
  then have "Suc (unat c1) * 2 ^ 24 \<le> unat c2 * 2 ^ 24" by (rule mult_le_mono1)
  then have "unat c1 * 2 ^ 24 + unat p1 < unat c2 * 2 ^ 24 + unat p2"
    using assms(3) by simp
  then show ?thesis
    using assms c1 by (simp add: word_less_nat_alt unat_rank)
qed

lemma get_sym_rank_range: "get_sym_rank f e x = Inr c \<Longrightarrow> 1 \<le> c \<and> c \<le> 6"
  by (auto simp: get_sym_rank_def split: if_splits)

subsection \<open>Symbol resolution: stores that resolution leaves unchanged\<close>

lemma obj_resolve_symbols_fixpoint:
  assumes "obj_resolve_symbols ctx files this heap = Inr heap"
    and "first_global (files this) \<le> i" "i < length (elf_syms (files this))"
  shows "obj_resolve_step ctx files this heap i = Inr heap"
proof -
  have "\<forall>i\<in>set [first_global (files this) ..< length (elf_syms (files this))].
          obj_resolve_step ctx files this heap i = Inr heap"
    using assms(1) unfolding obj_resolve_symbols_def
    by (rule for_each_fixpoint[where R = "rank_lowered files", rotated -1])
       (erule obj_resolve_step_lowered, rule rank_lowered_refl,
        erule (1) rank_lowered_trans, erule (1) rank_lowered_antisym)
  with assms(2,3) show ?thesis by simp
qed

lemma dso_resolve_symbols_fixpoint:
  assumes "dso_resolve_symbols files this heap = Inr heap" and dso: "is_dso (files this)"
    and "i < length (symbols (files this))"
  shows "dso_resolve_step files this heap i = Inr heap"
proof -
  have "\<forall>i\<in>set [0 ..< length (symbols (files this))].
          dso_resolve_step files this heap i = Inr heap"
    using assms(1) unfolding dso_resolve_symbols_def
    by (rule for_each_fixpoint[where R = "rank_lowered files", rotated -1])
       (erule dso_resolve_step_lowered[where files=files and this=this, OF _ dso], rule rank_lowered_refl,
        erule (1) rank_lowered_trans, erule (1) rank_lowered_antisym)
  with assms(3) show ?thesis by simp
qed

lemma obj_step_fixed_min:
  assumes fx: "obj_resolve_step ctx files this heap i = Inr heap"
    and cand: "obj_candidate (files this) i"
  shows "\<exists>r s a b. symbols (files this) ! i = Some r \<and> heap r = Some s \<and>
           get_rank (files this) (elf_syms (files this) ! i) (\<not> is_reachable (files this)) = Inr a \<and>
           get_rank_sym files s = Inr b \<and> b \<le> a"
proof -
  let ?f = "files this"
  let ?e = "elf_syms ?f ! i"
  from fx obtain p where p: "at (symbols ?f) i = Inr p"
    and r1: "bind_err (deref heap p) (\<lambda>(r, s).
     bind_err (at (elf_syms ?f) i) (\<lambda>esym.
       if is_undef esym then Inr heap
       else if \<not> is_abs esym \<and> \<not> is_common esym then
         bind_err (at (sections ?f) (get_shndx ?f i)) (\<lambda>isec.
           case isec of
             None \<Rightarrow> Inr heap
           | Some sec \<Rightarrow>
               if \<not> is_alive sec then Inr heap
               else obj_resolve_at ctx files this heap i r s esym (Some (get_shndx ?f i)))
       else obj_resolve_at ctx files this heap i r s esym None)) = Inr heap"
    unfolding obj_resolve_step_def by (auto elim: bind_err_InrE)
  from r1 obtain rs where d: "deref heap p = Inr rs" by (auto elim: bind_err_InrE)
  obtain r s where rs: "rs = (r, s)" by (cases rs)
  from d rs have pr: "p = Some r" and hr: "heap r = Some s" by (simp_all add: deref_Inr_iff)
  from p pr have sym: "symbols ?f ! i = Some r" and p': "at (symbols ?f) i = Inr (Some r)"
    by (simp_all add: at_Inr_iff)
  from cand have e: "at (elf_syms ?f) i = Inr ?e"
    by (simp add: obj_candidate_def at_in_range)
  have "obj_resolve_at ctx files this heap i r s ?e (obj_isec ?f i) = Inr heap"
    using obj_resolve_step_candidate[where files=files and this=this and heap=heap and ctx=ctx, OF cand p' hr] fx
    by simp
  from obj_resolve_at_result[OF this] obtain a b where
    a: "get_rank ?f ?e (\<not> is_reachable ?f) = Inr a" and b: "get_rank_sym files s = Inr b"
    and h: "heap = (if a < b then heap(r \<mapsto> obj_overwrite ctx this i ?e (obj_isec ?f i) s) else heap)"
    by blast
  have "\<not> a < b"
  proof
    assume lt: "a < b"
    with h have upd: "heap(r \<mapsto> obj_overwrite ctx this i ?e (obj_isec ?f i) s) = heap" by simp
    have "get_rank_sym files (obj_overwrite ctx this i ?e (obj_isec ?f i) s) = Inr a"
      using get_rank_sym_obj_overwrite[of files this i ?e ctx "obj_isec ?f i" s] e a by simp
    from upd_fixed_rank[OF upd hr b this] lt show False by simp
  qed
  with sym hr a b show ?thesis by auto
qed

lemma dso_step_fixed_min:
  assumes fx: "dso_resolve_step files this heap i = Inr heap"
    and cand: "dso_candidate (files this) heap i" and dso: "is_dso (files this)"
  shows "\<exists>r s a b. symbols (files this) ! i = Some r \<and> heap r = Some s \<and>
           get_rank (files this) (elf_syms (files this) ! i) False = Inr a \<and>
           get_rank_sym files s = Inr b \<and> b \<le> a \<and>
           (\<forall>r2. symbols2 (files this) ! i = Some r2 \<and> r2 \<noteq> r \<longrightarrow>
              (\<exists>s2 b2. heap r2 = Some s2 \<and> get_rank_sym files s2 = Inr b2 \<and> b2 \<le> a))"
proof -
  let ?f = "files this"
  let ?e = "elf_syms ?f ! i"
  from cand obtain r s where d: "deref heap (symbols ?f ! i) = Inr (r, s)"
    by (cases "deref heap (symbols ?f ! i)") (auto simp: dso_candidate_def)
  then have sym: "symbols ?f ! i = Some r" and hr: "heap r = Some s"
    by (simp_all add: deref_Inr_iff)
  from cand have e: "at (elf_syms ?f) i = Inr ?e"
    by (simp add: dso_candidate_def at_in_range)
  have "bind_err (dso_resolve_base files this heap i r s ?e)
             (\<lambda>heap1. dso_resolve_alias files this heap1 i r ?e) = Inr heap"
    using dso_resolve_step_candidate[where files=files and this=this and heap=heap, OF cand sym hr] fx
    by simp
  then obtain h1 where base: "dso_resolve_base files this heap i r s ?e = Inr h1"
    and ali: "dso_resolve_alias files this h1 i r ?e = Inr heap"
    by (auto elim: bind_err_InrE)
  have "rank_lowered files heap h1" using base hr e dso by (rule dso_resolve_base_lowered)
  moreover have "rank_lowered files h1 heap" using ali e dso by (rule dso_resolve_alias_lowered)
  ultimately have h1: "h1 = heap" by (rule rank_lowered_antisym[symmetric])
  from dso_resolve_base_result[OF base] obtain a b where
    a: "get_rank ?f ?e False = Inr a" and b: "get_rank_sym files s = Inr b"
    and h: "if a < b
            then \<exists>ver. at (versyms ?f) i = Inr ver \<and> h1 = heap(r \<mapsto> dso_overwrite this i ?e ver s)
            else h1 = heap"
    by blast
  have nlt: "\<not> a < b"
  proof
    assume lt: "a < b"
    with h h1 obtain ver where "heap = heap(r \<mapsto> dso_overwrite this i ?e ver s)" by auto
    then have upd: "heap(r \<mapsto> dso_overwrite this i ?e ver s) = heap" by (rule HOL.sym)
    have "get_rank_sym files (dso_overwrite this i ?e ver s) = Inr a"
      using get_rank_sym_dso_overwrite[of files this i ?e ver s] e dso a by simp
    from upd_fixed_rank[OF upd hr b this] lt show False by simp
  qed
  have al: "\<forall>r2. symbols2 ?f ! i = Some r2 \<and> r2 \<noteq> r \<longrightarrow>
              (\<exists>s2 b2. heap r2 = Some s2 \<and> get_rank_sym files s2 = Inr b2 \<and> b2 \<le> a)"
  proof (intro allI impI)
    fix r2 assume r2: "symbols2 ?f ! i = Some r2 \<and> r2 \<noteq> r"
    from dso_resolve_alias_result[OF ali] h1 obtain p2 where
      p2: "at (symbols2 ?f) i = Inr p2"
      and c: "if p2 \<noteq> None \<and> p2 \<noteq> Some r
            then \<exists>r2 s2 a b. p2 = Some r2 \<and> heap r2 = Some s2 \<and>
                   get_rank ?f ?e False = Inr a \<and> get_rank_sym files s2 = Inr b \<and>
                   heap = (if a < b then heap(r2 \<mapsto> dso_overwrite_alias this i r s2) else heap)
            else heap = heap"
      by auto
    from p2 r2 have "p2 = Some r2" by (simp add: at_Inr_iff)
    with c r2 a obtain s2 b2 where hr2: "heap r2 = Some s2" and b2: "get_rank_sym files s2 = Inr b2"
      and hh: "heap = (if a < b2 then heap(r2 \<mapsto> dso_overwrite_alias this i r s2) else heap)"
      by auto
    have "\<not> a < b2"
    proof
      assume lt: "a < b2"
      with hh have upd: "heap(r2 \<mapsto> dso_overwrite_alias this i r s2) = heap" by simp
      have "get_rank_sym files (dso_overwrite_alias this i r s2) = Inr a"
        using get_rank_sym_dso_overwrite_alias[of files this i ?e r s2] e dso a by simp
      from upd_fixed_rank[OF upd hr2 b2 this] lt show False by simp
    qed
    with hr2 b2 show "\<exists>s2 b2. heap r2 = Some s2 \<and> get_rank_sym files s2 = Inr b2 \<and> b2 \<le> a"
      by auto
  qed
  from sym hr a b nlt al show ?thesis by auto
qed

subsection \<open>Symbol resolution: the rank and the rule of replacement\<close>

lemma rank_lexicographic:
  fixes c1 c2 p1 p2 :: u64
  assumes c1: "c1 \<le> 7" and c2: "c2 \<le> 7" and p1: "unat p1 < 2 ^ 24" and p2: "unat p2 < 2 ^ 24"
  shows "push_bit 24 c1 + p1 < push_bit 24 c2 + p2 \<longleftrightarrow> c1 < c2 \<or> (c1 = c2 \<and> p1 < p2)"
proof (cases "c1 < c2")
  case True
  with rank_class_dominates[OF True c2 p1 p2] show ?thesis by simp
next
  case False
  show ?thesis
  proof (cases "c1 = c2")
    case True
    from rank_same_class[OF c2 p2 p1] True
    have "push_bit 24 c1 + p1 < push_bit 24 c2 + p2 \<longleftrightarrow> p1 < p2"
      by (simp add: not_le[symmetric])
    with True show ?thesis by simp
  next
    case ne: False
    with False have "c2 < c1" by simp
    from rank_class_dominates[OF this c1 p2 p1] have "\<not> push_bit 24 c1 + p1 < push_bit 24 c2 + p2"
      by simp
    with False ne show ?thesis by simp
  qed
qed

lemma get_rank_table:
  "get_rank f e arch =
     (if is_common e then
        (if is_dso f then Inl AssertionFailed
         else Inr (push_bit 24 (if arch then 6 else 5) + priority f))
      else if is_dso f \<or> arch then
        Inr (push_bit 24 (if st_bind e = STB_WEAK then 4 else 3) + priority f)
      else Inr (push_bit 24 (if st_bind e = STB_WEAK then 2 else 1) + priority f))"
  by (simp add: get_rank_def get_sym_rank_def bind_err_simps)

lemma get_rank_sym_cases:
  "get_rank_sym files s0 =
     (case sym_file s0 of
        None \<Rightarrow> Inr (push_bit 24 7)
      | Some g \<Rightarrow>
          (case esym_of files s0 of
             Inl err \<Rightarrow> Inl err
           | Inr e0 \<Rightarrow> get_rank (files g) e0 (\<not> is_reachable (files g))))"
  by (simp add: get_rank_sym_def bind_err_def split: option.splits)

lemma obj_resolve_step_overwrites:
  assumes cand: "obj_candidate (files this) i"
    and p: "at (symbols (files this)) i = Inr (Some r)" and hr: "heap r = Some s"
    and a: "get_rank (files this) (elf_syms (files this) ! i) (\<not> is_reachable (files this)) = Inr a"
    and b: "get_rank_sym files s = Inr b"
  shows "obj_resolve_step ctx files this heap i =
           Inr (if a < b
                then heap(r \<mapsto> obj_overwrite ctx this i (elf_syms (files this) ! i)
                                  (obj_isec (files this) i) s)
                else heap)"
    and "(obj_resolve_step ctx files this heap i = Inr heap) \<longleftrightarrow> \<not> a < b"
proof -
  let ?new = "obj_overwrite ctx this i (elf_syms (files this) ! i) (obj_isec (files this) i) s"
  show eq: "obj_resolve_step ctx files this heap i = Inr (if a < b then heap(r \<mapsto> ?new) else heap)"
    using obj_resolve_step_candidate[where files=files and this=this and heap=heap and ctx=ctx, OF cand p hr]
      obj_resolve_at_defined[where files=files and this=this, OF a b]
    by simp
  from cand have e: "at (elf_syms (files this)) i = Inr (elf_syms (files this) ! i)"
    by (simp add: obj_candidate_def at_in_range)
  have new: "get_rank_sym files ?new = Inr a"
    using get_rank_sym_obj_overwrite[of files this i "elf_syms (files this) ! i" ctx "obj_isec (files this) i" s] e a
    by simp
  have "a < b \<Longrightarrow> heap(r \<mapsto> ?new) \<noteq> heap"
  proof
    assume "a < b" "heap(r \<mapsto> ?new) = heap"
    from upd_fixed_rank[OF this(2) hr b new] this(1) show False by simp
  qed
  with eq show "(obj_resolve_step ctx files this heap i = Inr heap) \<longleftrightarrow> \<not> a < b"
    by auto
qed

lemma obj_overwrite_fields:
  "sym_file (obj_overwrite ctx this i e isec s) = Some this"
  "sym_idx (obj_overwrite ctx this i e isec s) = int i"
  "is_weak (obj_overwrite ctx this i e isec s) = (st_bind e = STB_WEAK)"
  "sym_value (obj_overwrite ctx this i e isec s) = st_value e"
  "input_section (obj_overwrite ctx this i e isec s) = isec"
  "ver_idx (obj_overwrite ctx this i e isec s) = default_version ctx"
  "is_versioned_default (obj_overwrite ctx this i e isec s) = False"
  by (simp_all add: obj_overwrite_def set_input_section_def esym_is_weak_def)

lemma resolve_symbols_fixed_obj:
  assumes "\<forall>g\<in>F. resolve_symbols ctx files g heap = Inr heap" "this \<in> F"
    "\<not> is_dso (files this)" "obj_candidate (files this) i"
  shows "\<exists>r s a b. symbols (files this) ! i = Some r \<and> heap r = Some s \<and>
           get_rank (files this) (elf_syms (files this) ! i) (\<not> is_reachable (files this)) = Inr a \<and>
           get_rank_sym files s = Inr b \<and> b \<le> a"
proof -
  from assms have "obj_resolve_symbols ctx files this heap = Inr heap"
    by (auto simp: resolve_symbols_def)
  moreover from assms(4) have "first_global (files this) \<le> i" "i < length (elf_syms (files this))"
    by (simp_all add: obj_candidate_def)
  ultimately have "obj_resolve_step ctx files this heap i = Inr heap"
    by (rule obj_resolve_symbols_fixpoint)
  then show ?thesis using assms(4) by (rule obj_step_fixed_min)
qed

lemma resolve_symbols_fixed_dso:
  assumes "\<forall>g\<in>F. resolve_symbols ctx files g heap = Inr heap" "this \<in> F"
    "is_dso (files this)" "dso_candidate (files this) heap i"
  shows "\<exists>r s a b. symbols (files this) ! i = Some r \<and> heap r = Some s \<and>
           get_rank (files this) (elf_syms (files this) ! i) False = Inr a \<and>
           get_rank_sym files s = Inr b \<and> b \<le> a \<and>
           (\<forall>r2. symbols2 (files this) ! i = Some r2 \<and> r2 \<noteq> r \<longrightarrow>
              (\<exists>s2 b2. heap r2 = Some s2 \<and> get_rank_sym files s2 = Inr b2 \<and> b2 \<le> a))"
proof -
  from assms have "dso_resolve_symbols files this heap = Inr heap"
    by (auto simp: resolve_symbols_def)
  moreover from assms(4) have "i < length (symbols (files this))"
    by (simp add: dso_candidate_def)
  ultimately have "dso_resolve_step files this heap i = Inr heap"
    using assms(3) by (intro dso_resolve_symbols_fixpoint)
  then show ?thesis using assms(4,3) by (rule dso_step_fixed_min)
qed

subsection \<open>Symbol resolution: the claim\<close>

lemmas scenario_defs =
  three_files_def x_o_def y_o_def libz_so_def no_file_def null_esym_def ctx0_def
  foo_common_def foo_strong_def foo_exported_def foo_unresolved_def foo_in_y_def new_symbol_def

lemmas elf_defs =
  is_undef_def is_abs_def is_common_def esym_is_weak_def SHN_UNDEF_def SHN_ABS_def SHN_COMMON_def
  STB_WEAK_def STB_GLOBAL_def VER_NDX_UNSPECIFIED_def STV_DEFAULT_def

lemmas resolve_defs =
  obj_resolve_step_def obj_resolve_at_def obj_overwrite_def set_input_section_def
  dso_resolve_step_def dso_resolve_base_def dso_resolve_alias_def dso_overwrite_def
  dso_overwrite_alias_def get_rank_def get_sym_rank_def get_rank_sym_def esym_of_def
  at_def deref_def bind_err_def

text \<open>
  C1. The rank of a candidate is its class shifted left by 24 plus the priority of its
  file, with the classes 1 to 6 as listed and class 7 for a symbol without a file; the
  incumbent is ranked with \<open>is_in_archive = \<not> is_reachable\<close> of its file. Where classes
  are at most 7 and priorities below \<open>2 ^ 24\<close>, ranks compare as pairs (class, priority).
  One iteration of \<^verbatim>\<open>ObjectFile::resolve_symbols\<close> on a candidate replaces the
  incumbent with the candidate (file and \<open>sym_idx\<close> included) exactly when the
  candidate's rank is strictly smaller, and leaves the store alone otherwise. In a store
  that the resolution of every file of \<open>F\<close> leaves unchanged, the symbol of every candidate
  of every file of \<open>F\<close> (an alias \<^verbatim>\<open>symbols2[i]\<close> of a shared object included) has a
  rank no greater than the candidate's.
\<close>

theorem resolution_by_rank:
  "get_rank f e arch =
     (if is_common e then
        (if is_dso f then Inl AssertionFailed
         else Inr (push_bit 24 (if arch then 6 else 5) + priority f))
      else if is_dso f \<or> arch then
        Inr (push_bit 24 (if st_bind e = STB_WEAK then 4 else 3) + priority f)
      else Inr (push_bit 24 (if st_bind e = STB_WEAK then 2 else 1) + priority f)) \<and>
   get_rank_sym files s0 =
     (case sym_file s0 of
        None \<Rightarrow> Inr (push_bit 24 7)
      | Some g \<Rightarrow>
          (case esym_of files s0 of
             Inl err \<Rightarrow> Inl err
           | Inr e0 \<Rightarrow> get_rank (files g) e0 (\<not> is_reachable (files g)))) \<and>
   (c1 \<le> 7 \<and> c2 \<le> 7 \<and> unat p1 < 2 ^ 24 \<and> unat p2 < 2 ^ 24 \<longrightarrow>
      (push_bit 24 c1 + p1 < push_bit 24 (c2::u64) + p2 \<longleftrightarrow> c1 < c2 \<or> (c1 = c2 \<and> p1 < p2))) \<and>
   (obj_candidate (files this) i \<and> at (symbols (files this)) i = Inr (Some r) \<and>
    heap r = Some s \<and>
    get_rank (files this) (elf_syms (files this) ! i) (\<not> is_reachable (files this)) = Inr a \<and>
    get_rank_sym files s = Inr b \<longrightarrow>
      obj_resolve_step ctx files this heap i =
        Inr (if a < b
             then heap(r \<mapsto> obj_overwrite ctx this i (elf_syms (files this) ! i)
                               (obj_isec (files this) i) s)
             else heap) \<and>
      ((obj_resolve_step ctx files this heap i = Inr heap) \<longleftrightarrow> \<not> a < b) \<and>
      sym_file (obj_overwrite ctx this i (elf_syms (files this) ! i) (obj_isec (files this) i) s)
        = Some this \<and>
      sym_idx (obj_overwrite ctx this i (elf_syms (files this) ! i) (obj_isec (files this) i) s)
        = int i) \<and>
   ((\<forall>g\<in>F. resolve_symbols ctx files g heap = Inr heap) \<and> this \<in> F \<and>
    \<not> is_dso (files this) \<and> obj_candidate (files this) i \<longrightarrow>
      (\<exists>r s a b. symbols (files this) ! i = Some r \<and> heap r = Some s \<and>
         get_rank (files this) (elf_syms (files this) ! i) (\<not> is_reachable (files this)) = Inr a \<and>
         get_rank_sym files s = Inr b \<and> b \<le> a)) \<and>
   ((\<forall>g\<in>F. resolve_symbols ctx files g heap = Inr heap) \<and> this \<in> F \<and>
    is_dso (files this) \<and> dso_candidate (files this) heap i \<longrightarrow>
      (\<exists>r s a b. symbols (files this) ! i = Some r \<and> heap r = Some s \<and>
         get_rank (files this) (elf_syms (files this) ! i) False = Inr a \<and>
         get_rank_sym files s = Inr b \<and> b \<le> a \<and>
         (\<forall>r2. symbols2 (files this) ! i = Some r2 \<and> r2 \<noteq> r \<longrightarrow>
            (\<exists>s2 b2. heap r2 = Some s2 \<and> get_rank_sym files s2 = Inr b2 \<and> b2 \<le> a))))"
proof (intro conjI impI)
  show "get_rank f e arch =
     (if is_common e then
        (if is_dso f then Inl AssertionFailed
         else Inr (push_bit 24 (if arch then 6 else 5) + priority f))
      else if is_dso f \<or> arch then
        Inr (push_bit 24 (if st_bind e = STB_WEAK then 4 else 3) + priority f)
      else Inr (push_bit 24 (if st_bind e = STB_WEAK then 2 else 1) + priority f))"
    by (rule get_rank_table)
next
  show "get_rank_sym files s0 =
     (case sym_file s0 of
        None \<Rightarrow> Inr (push_bit 24 7)
      | Some g \<Rightarrow>
          (case esym_of files s0 of
             Inl err \<Rightarrow> Inl err
           | Inr e0 \<Rightarrow> get_rank (files g) e0 (\<not> is_reachable (files g))))"
    by (rule get_rank_sym_cases)
next
  assume "c1 \<le> 7 \<and> c2 \<le> 7 \<and> unat p1 < 2 ^ 24 \<and> unat p2 < 2 ^ 24"
  then show "push_bit 24 c1 + p1 < push_bit 24 c2 + p2 \<longleftrightarrow> c1 < c2 \<or> (c1 = c2 \<and> p1 < p2)"
    using rank_lexicographic[of c1 c2 p1 p2] by simp
next
  assume h: "obj_candidate (files this) i \<and> at (symbols (files this)) i = Inr (Some r) \<and>
    heap r = Some s \<and>
    get_rank (files this) (elf_syms (files this) ! i) (\<not> is_reachable (files this)) = Inr a \<and>
    get_rank_sym files s = Inr b"
  then have c: "obj_candidate (files this) i" and p: "at (symbols (files this)) i = Inr (Some r)"
    and hr: "heap r = Some s"
    and a: "get_rank (files this) (elf_syms (files this) ! i) (\<not> is_reachable (files this)) = Inr a"
    and b: "get_rank_sym files s = Inr b"
    by simp_all
  show "obj_resolve_step ctx files this heap i =
        Inr (if a < b
             then heap(r \<mapsto> obj_overwrite ctx this i (elf_syms (files this) ! i)
                               (obj_isec (files this) i) s)
             else heap)"
    using c p hr a b by (rule obj_resolve_step_overwrites(1))
  show "(obj_resolve_step ctx files this heap i = Inr heap) \<longleftrightarrow> \<not> a < b"
    using c p hr a b by (rule obj_resolve_step_overwrites(2))
  show "sym_file (obj_overwrite ctx this i (elf_syms (files this) ! i) (obj_isec (files this) i) s)
        = Some this"
    by (rule obj_overwrite_fields)
  show "sym_idx (obj_overwrite ctx this i (elf_syms (files this) ! i) (obj_isec (files this) i) s)
        = int i"
    by (rule obj_overwrite_fields)
next
  assume "(\<forall>g\<in>F. resolve_symbols ctx files g heap = Inr heap) \<and> this \<in> F \<and>
    \<not> is_dso (files this) \<and> obj_candidate (files this) i"
  then show "\<exists>r s a b. symbols (files this) ! i = Some r \<and> heap r = Some s \<and>
         get_rank (files this) (elf_syms (files this) ! i) (\<not> is_reachable (files this)) = Inr a \<and>
         get_rank_sym files s = Inr b \<and> b \<le> a"
    using resolve_symbols_fixed_obj[where F=F and ctx=ctx and files=files and this=this and heap=heap and i=i]
    by simp
next
  assume "(\<forall>g\<in>F. resolve_symbols ctx files g heap = Inr heap) \<and> this \<in> F \<and>
    is_dso (files this) \<and> dso_candidate (files this) heap i"
  then show "\<exists>r s a b. symbols (files this) ! i = Some r \<and> heap r = Some s \<and>
         get_rank (files this) (elf_syms (files this) ! i) False = Inr a \<and>
         get_rank_sym files s = Inr b \<and> b \<le> a \<and>
         (\<forall>r2. symbols2 (files this) ! i = Some r2 \<and> r2 \<noteq> r \<longrightarrow>
            (\<exists>s2 b2. heap r2 = Some s2 \<and> get_rank_sym files s2 = Inr b2 \<and> b2 \<le> a))"
    using resolve_symbols_fixed_dso[where F=F and ctx=ctx and files=files and this=this and heap=heap and i=i]
    by simp
qed

text \<open>
  The files \<open>x_o\<close> (common \<open>foo\<close>), \<open>y_o\<close> (strong \<open>foo\<close>) and \<open>libz_so\<close>: the common
  definition replaces the unresolved symbol; the store with \<open>foo\<close> resolved to \<open>y_o\<close> is
  left unchanged by the three files, and there the rank of \<open>foo\<close> is no greater than the
  rank of the candidates of \<open>x_o\<close> and of \<open>libz_so\<close>.
\<close>

theorem resolution_by_rank_witness:
  "obj_resolve_step ctx0 three_files 0 foo_unresolved 1 =
     Inr (foo_unresolved(GlobalSym ''foo'' \<mapsto>
            obj_overwrite ctx0 0 1 foo_common None (new_symbol ''foo''))) \<and>
   resolve_symbols ctx0 three_files 0 foo_in_y = Inr foo_in_y \<and>
   resolve_symbols ctx0 three_files 1 foo_in_y = Inr foo_in_y \<and>
   resolve_symbols ctx0 three_files 2 foo_in_y = Inr foo_in_y \<and>
   (\<exists>r s a b. symbols (three_files 0) ! 1 = Some r \<and> foo_in_y r = Some s \<and>
      get_rank (three_files 0) (elf_syms (three_files 0) ! 1) (\<not> is_reachable (three_files 0)) = Inr a \<and>
      get_rank_sym three_files s = Inr b \<and> b \<le> a) \<and>
   (\<exists>r s a b. symbols (three_files 2) ! 0 = Some r \<and> foo_in_y r = Some s \<and>
      get_rank (three_files 2) (elf_syms (three_files 2) ! 0) False = Inr a \<and>
      get_rank_sym three_files s = Inr b \<and> b \<le> a) \<and>
   push_bit 24 1 + 10001 < push_bit 24 5 + (10000 :: u64)"
proof -
  have r0: "resolve_symbols ctx0 three_files 0 foo_in_y = Inr foo_in_y"
    by (simp add: resolve_symbols_def obj_resolve_symbols_def scenario_defs elf_defs resolve_defs upt_rec)
  have r1: "resolve_symbols ctx0 three_files 1 foo_in_y = Inr foo_in_y"
    by (simp add: resolve_symbols_def obj_resolve_symbols_def scenario_defs elf_defs resolve_defs upt_rec)
  have r2: "resolve_symbols ctx0 three_files 2 foo_in_y = Inr foo_in_y"
    by (simp add: resolve_symbols_def dso_resolve_symbols_def scenario_defs elf_defs resolve_defs upt_rec)
  have fixed: "\<forall>g\<in>{0, 1, 2}. resolve_symbols ctx0 three_files g foo_in_y = Inr foo_in_y"
    using r0 r1 r2 by simp
  have c0: "obj_candidate (three_files 0) 1" "\<not> is_dso (three_files 0)"
    by (simp_all add: obj_candidate_def scenario_defs elf_defs)
  have c2: "dso_candidate (three_files 2) foo_in_y 0" "is_dso (three_files 2)"
    by (simp_all add: dso_candidate_def scenario_defs elf_defs deref_def obj_overwrite_def
        set_input_section_def)
  have p0: "at (symbols (three_files 0)) 1 = Inr (Some (GlobalSym ''foo''))"
    "foo_unresolved (GlobalSym ''foo'') = Some (new_symbol ''foo'')"
    by (simp_all add: scenario_defs at_def)
  have a0: "get_rank (three_files 0) (elf_syms (three_files 0) ! 1) (\<not> is_reachable (three_files 0))
            = Inr 83896080"
    by (simp add: scenario_defs elf_defs resolve_defs)
  have b0: "get_rank_sym three_files (new_symbol ''foo'') = Inr 117440512"
    by (simp add: scenario_defs elf_defs resolve_defs)
  have e0: "elf_syms (three_files 0) ! 1 = foo_common" "obj_isec (three_files 0) 1 = None"
    by (simp_all add: obj_isec_def three_files_def x_o_def foo_common_def null_esym_def elf_defs)
  have lt: "(83896080 :: u64) < 117440512" by simp
  have "obj_resolve_step ctx0 three_files 0 foo_unresolved 1 =
        Inr (if (83896080 :: u64) < 117440512
             then foo_unresolved(GlobalSym ''foo'' \<mapsto> obj_overwrite ctx0 0 1 (elf_syms (three_files 0) ! 1)
                               (obj_isec (three_files 0) 1) (new_symbol ''foo''))
             else foo_unresolved)"
    by (rule resolution_by_rank[where files=three_files and this=0 and i=1 and heap=foo_unresolved
        and r="GlobalSym ''foo''" and s="new_symbol ''foo''" and a=83896080 and b=117440512
        and ctx=ctx0, THEN conjunct2, THEN conjunct2, THEN conjunct2, THEN conjunct1, THEN mp,
        THEN conjunct1])
       (simp only: c0 p0 a0 b0 simp_thms)
  then have step: "obj_resolve_step ctx0 three_files 0 foo_unresolved 1 =
     Inr (foo_unresolved(GlobalSym ''foo'' \<mapsto>
            obj_overwrite ctx0 0 1 foo_common None (new_symbol ''foo'')))"
    by (simp only: lt if_True e0)
  have mo: "\<exists>r s a b. symbols (three_files 0) ! 1 = Some r \<and> foo_in_y r = Some s \<and>
      get_rank (three_files 0) (elf_syms (three_files 0) ! 1) (\<not> is_reachable (three_files 0)) = Inr a \<and>
      get_rank_sym three_files s = Inr b \<and> b \<le> a"
    by (rule resolution_by_rank[where files=three_files and this=0 and i=1 and heap=foo_in_y
        and F="{0, 1, 2}" and ctx=ctx0, THEN conjunct2, THEN conjunct2, THEN conjunct2,
        THEN conjunct2, THEN conjunct1, THEN mp])
       (intro conjI fixed c0, simp)
  have md: "\<exists>r s a b. symbols (three_files 2) ! 0 = Some r \<and> foo_in_y r = Some s \<and>
      get_rank (three_files 2) (elf_syms (three_files 2) ! 0) False = Inr a \<and>
      get_rank_sym three_files s = Inr b \<and> b \<le> a"
    using resolution_by_rank[where files=three_files and this=2 and i=0 and heap=foo_in_y
        and F="{0, 1, 2}" and ctx=ctx0, THEN conjunct2, THEN conjunct2, THEN conjunct2,
        THEN conjunct2, THEN conjunct2, THEN mp, OF conjI[OF fixed conjI[OF _ conjI[OF c2(2) c2(1)]]]]
    by blast
  have lx: "push_bit 24 1 + 10001 < push_bit 24 5 + (10000 :: u64)"
    by (simp add: resolution_by_rank[where ?c1.0=1 and ?c2.0=5 and ?p1.0=10001 and ?p2.0=10000,
        THEN conjunct2, THEN conjunct2, THEN conjunct1, THEN mp])
  from step r0 r1 r2 mo md lx show ?thesis by blast
qed

subsection \<open>Symbol resolution: the weak flag of the winner\<close>

lemma dso_resolve_alias_keeps_base:
  assumes "dso_resolve_alias files this h1 i r esym = Inr h'"
  shows "h' r = h1 r"
proof -
  from dso_resolve_alias_result[OF assms] obtain p2 where
    c: "if p2 \<noteq> None \<and> p2 \<noteq> Some r
            then \<exists>r2 s2 a b. p2 = Some r2 \<and> h1 r2 = Some s2 \<and>
                   get_rank (files this) esym False = Inr a \<and> get_rank_sym files s2 = Inr b \<and>
                   h' = (if a < b then h1(r2 \<mapsto> dso_overwrite_alias this i r s2) else h1)
            else h' = h1"
    by blast
  show ?thesis
  proof (cases "p2 \<noteq> None \<and> p2 \<noteq> Some r")
    case False
    with c show ?thesis by simp
  next
    case True
    from c[unfolded if_P[OF True]] obtain r2 s2 a b where x: "p2 = Some r2 \<and> h1 r2 = Some s2 \<and>
        get_rank (files this) esym False = Inr a \<and> get_rank_sym files s2 = Inr b \<and>
        h' = (if a < b then h1(r2 \<mapsto> dso_overwrite_alias this i r s2) else h1)"
      by (elim exE)
    then have "p2 = Some r2"
      and h: "h' = (if a < b then h1(r2 \<mapsto> dso_overwrite_alias this i r s2) else h1)"
      by simp_all
    with True have "r2 \<noteq> r" by simp
    with h show ?thesis by simp
  qed
qed

lemma dso_overwrite_fields:
  "sym_file (dso_overwrite this i e ver s) = Some this"
  "sym_idx (dso_overwrite this i e ver s) = int i"
  "is_weak (dso_overwrite this i e ver s) = True"
  "origin (dso_overwrite this i e ver s) = None"
  "sym_value (dso_overwrite this i e ver s) = st_value e"
  "ver_idx (dso_overwrite this i e ver s) = ver"
  "is_versioned_default (dso_overwrite this i e ver s) = False"
  by (simp_all add: dso_overwrite_def)

lemma dso_step_winner:
  assumes cand: "dso_candidate (files this) heap i"
    and p: "symbols (files this) ! i = Some r" and hr: "heap r = Some s"
    and a: "get_rank (files this) (elf_syms (files this) ! i) False = Inr a"
    and b: "get_rank_sym files s = Inr b" and lt: "a < b"
    and step: "dso_resolve_step files this heap i = Inr h'"
  shows "\<exists>ver. at (versyms (files this)) i = Inr ver \<and>
           h' r = Some (dso_overwrite this i (elf_syms (files this) ! i) ver s)"
proof -
  let ?e = "elf_syms (files this) ! i"
  have "bind_err (dso_resolve_base files this heap i r s ?e)
             (\<lambda>heap1. dso_resolve_alias files this heap1 i r ?e) = Inr h'"
    using dso_resolve_step_candidate[where files=files and this=this and heap=heap, OF cand p hr] step
    by simp
  then obtain h1 where base: "dso_resolve_base files this heap i r s ?e = Inr h1"
    and ali: "dso_resolve_alias files this h1 i r ?e = Inr h'"
    by (auto elim: bind_err_InrE)
  from dso_resolve_base_result[OF base] a b lt obtain ver where
    ver: "at (versyms (files this)) i = Inr ver"
    and h1: "h1 = heap(r \<mapsto> dso_overwrite this i ?e ver s)"
    by auto
  from dso_resolve_alias_keeps_base[OF ali] h1 have "h' r = Some (dso_overwrite this i ?e ver s)"
    by simp
  with ver show ?thesis by blast
qed

subsection \<open>Shared objects: symbols with a default version\<close>

lemma get_symbol_interned:
  assumes "get_symbol heap key nm = (heap', r)"
  shows "r = GlobalSym key" "heap' (GlobalSym key) \<noteq> None"
    "\<forall>x. heap x \<noteq> None \<longrightarrow> heap' x = heap x"
    "heap (GlobalSym key) = None \<longrightarrow> heap' = heap(GlobalSym key \<mapsto> new_symbol nm)"
  using assms by (auto simp: get_symbol_def split: option.splits)

lemma get_symbol_eq:
  "get_symbol heap key nm =
     (if heap (GlobalSym key) = None then heap(GlobalSym key \<mapsto> new_symbol nm) else heap,
      GlobalSym key)"
  by (simp add: get_symbol_def split: option.splits)

lemma versym_default_ver:
  fixes v :: u16
  assumes "v AND VERSYM_HIDDEN = 0"
  shows "v AND NOT VERSYM_HIDDEN = v"
proof -
  have "v AND NOT VERSYM_HIDDEN = (v AND NOT VERSYM_HIDDEN) OR (v AND VERSYM_HIDDEN)"
    using assms by simp
  also have "\<dots> = v AND (NOT VERSYM_HIDDEN OR VERSYM_HIDDEN)"
    by (simp only: bit.conj_disj_distrib)
  also have "\<dots> = v" by simp
  finally show ?thesis .
qed

lemma dso_parse_step_default:
  assumes i: "i < length esyms" and ne: "vers \<noteq> []" and iv: "i < length vers"
    and def: "\<not> is_undef (esyms ! i)"
    and nl: "vers ! i \<noteq> VER_NDX_LOCAL" and ng: "vers ! i \<noteq> VER_NDX_GLOBAL"
    and nh: "vers ! i AND VERSYM_HIDDEN = 0"
    and vs: "unat (vers ! i) < length version_strings"
  shows "dso_parse_step esyms vers version_strings (f, heap) i =
     Inr (f\<lparr>elf_syms2 := elf_syms2 f @ [esyms ! i], versyms := versyms f @ [vers ! i],
            symbols := symbols f @ [Some (GlobalSym (st_name (esyms ! i)))],
            symbols2 := symbols2 f @
              [Some (GlobalSym (st_name (esyms ! i) @ ''@'' @ version_strings ! unat (vers ! i)))]\<rparr>,
          fst (get_symbol
                 (fst (get_symbol_key heap (st_name (esyms ! i))))
                 (st_name (esyms ! i) @ ''@'' @ version_strings ! unat (vers ! i))
                 (st_name (esyms ! i))))"
proof -
  have ver: "vers ! i AND NOT VERSYM_HIDDEN = vers ! i"
    using nh by (rule versym_default_ver)
  show ?thesis
    using i ne iv def nl ng nh vs
    by (simp add: dso_parse_step_def at_in_range bind_err_simps ver Let_def
        get_versioned_sym_def get_symbol_key_def get_symbol_eq)
qed

subsection \<open>Shared objects: the alias of a symbol with a default version\<close>

lemmas libv_defs =
  libv_dynsym_def libv_vers_def libv_version_strings_def libv_unparsed_def libv_so_def
  libv_heap_def no_file_def null_esym_def new_symbol_def

lemma dso_resolve_base_frame:
  assumes "dso_resolve_base files this heap i r s esym = Inr h1" "x \<noteq> r"
  shows "h1 x = heap x"
proof -
  from dso_resolve_base_result[OF assms(1)] obtain a b where
    x: "get_rank (files this) esym False = Inr a \<and> get_rank_sym files s = Inr b \<and>
        (if a < b
         then \<exists>ver. at (versyms (files this)) i = Inr ver \<and>
                h1 = heap(r \<mapsto> dso_overwrite this i esym ver s)
         else h1 = heap)"
    by (elim exE)
  then have c: "if a < b
        then \<exists>ver. at (versyms (files this)) i = Inr ver \<and>
               h1 = heap(r \<mapsto> dso_overwrite this i esym ver s)
        else h1 = heap"
    by simp
  show ?thesis
  proof (cases "a < b")
    case True
    from c[unfolded if_P[OF True]] obtain ver where
      "h1 = heap(r \<mapsto> dso_overwrite this i esym ver s)" by blast
    with assms(2) show ?thesis by simp
  next
    case False
    with c show ?thesis by simp
  qed
qed

lemma dso_step_alias:
  assumes cand: "dso_candidate (files this) heap i"
    and p: "symbols (files this) ! i = Some r" and hr: "heap r = Some s"
    and p2: "symbols2 (files this) ! i = Some r2" and ne: "r2 \<noteq> r"
    and hr2: "heap r2 = Some s2"
    and a: "get_rank (files this) (elf_syms (files this) ! i) False = Inr a"
    and b2: "get_rank_sym files s2 = Inr b2"
    and step: "dso_resolve_step files this heap i = Inr h'"
  shows "h' r2 = Some (if a < b2 then dso_overwrite_alias this i r s2 else s2)"
proof -
  let ?e = "elf_syms (files this) ! i"
  have "bind_err (dso_resolve_base files this heap i r s ?e)
             (\<lambda>heap1. dso_resolve_alias files this heap1 i r ?e) = Inr h'"
    using dso_resolve_step_candidate[where files=files and this=this and heap=heap, OF cand p hr] step
    by simp
  then obtain h1 where base: "dso_resolve_base files this heap i r s ?e = Inr h1"
    and ali: "dso_resolve_alias files this h1 i r ?e = Inr h'"
    by (auto elim: bind_err_InrE)
  have h1r2: "h1 r2 = Some s2"
    using dso_resolve_base_frame[OF base ne] hr2 by simp
  from dso_resolve_alias_result[OF ali] obtain q where q: "at (symbols2 (files this)) i = Inr q"
    and c: "if q \<noteq> None \<and> q \<noteq> Some r
            then \<exists>r2 s2 a b. q = Some r2 \<and> h1 r2 = Some s2 \<and>
                   get_rank (files this) ?e False = Inr a \<and> get_rank_sym files s2 = Inr b \<and>
                   h' = (if a < b then h1(r2 \<mapsto> dso_overwrite_alias this i r s2) else h1)
            else h' = h1"
    by blast
  from q p2 have qq: "q = Some r2" by (simp add: at_Inr_iff)
  with ne have cond: "q \<noteq> None \<and> q \<noteq> Some r" by simp
  from c[unfolded if_P[OF cond]] obtain r2' s2' a' b' where x: "q = Some r2' \<and> h1 r2' = Some s2' \<and>
        get_rank (files this) ?e False = Inr a' \<and> get_rank_sym files s2' = Inr b' \<and>
        h' = (if a' < b' then h1(r2' \<mapsto> dso_overwrite_alias this i r s2') else h1)"
    by (elim exE)
  with qq have r2': "r2' = r2" by simp
  with x h1r2 have s2': "s2' = s2" by simp
  from x a have a': "a' = a" by simp
  from x s2' b2 have b': "b' = b2" by simp
  from x have "h' = (if a' < b' then h1(r2' \<mapsto> dso_overwrite_alias this i r s2') else h1)"
    by simp
  with r2' s2' a' b' h1r2 show ?thesis by simp
qed

subsection \<open>Live tracing: one iteration\<close>

lemma live_extends_refl: "live_extends st st"
  unfolding live_extends_def by (rule exI[of _ "[]"]) simp

lemma live_extends_heap: "live_extends st (st\<lparr>ls_heap := h\<rparr>)"
  unfolding live_extends_def by (rule exI[of _ "[]"]) simp

lemma live_extends_trans:
  assumes 12: "live_extends st1 st2" and 23: "live_extends st2 st3"
  shows "live_extends st1 st3"
proof -
  from 12 obtain n1 where a: "ls_fed st2 = ls_fed st1 @ n1" "distinct n1"
    "\<forall>g. ls_files st2 g =
        (if g \<in> set n1 then (ls_files st1 g)\<lparr>is_reachable := True\<rparr> else ls_files st1 g)"
    "\<forall>g \<in> set n1. \<not> is_reachable (ls_files st1 g)"
    unfolding live_extends_def by blast
  from 23 obtain n2 where b: "ls_fed st3 = ls_fed st2 @ n2" "distinct n2"
    "\<forall>g. ls_files st3 g =
        (if g \<in> set n2 then (ls_files st2 g)\<lparr>is_reachable := True\<rparr> else ls_files st2 g)"
    "\<forall>g \<in> set n2. \<not> is_reachable (ls_files st2 g)"
    unfolding live_extends_def by blast
  have disj: "set n1 \<inter> set n2 = {}"
  proof (rule ccontr)
    assume "set n1 \<inter> set n2 \<noteq> {}"
    then obtain g where g: "g \<in> set n1" "g \<in> set n2" by blast
    from a(3) g(1) have "is_reachable (ls_files st2 g)" by simp
    with b(4) g(2) show False by blast
  qed
  have fed: "ls_fed st3 = ls_fed st1 @ (n1 @ n2)" using a(1) b(1) by simp
  have dist: "distinct (n1 @ n2)" using a(2) b(2) disj by simp
  have files: "\<forall>g. ls_files st3 g =
        (if g \<in> set (n1 @ n2) then (ls_files st1 g)\<lparr>is_reachable := True\<rparr> else ls_files st1 g)"
    using a(3) b(3) by simp
  have fresh: "\<forall>g \<in> set (n1 @ n2). \<not> is_reachable (ls_files st1 g)"
  proof
    fix g assume "g \<in> set (n1 @ n2)"
    then consider "g \<in> set n1" | "g \<in> set n2" "g \<notin> set n1" by auto
    then show "\<not> is_reachable (ls_files st1 g)"
    proof cases
      case 1
      with a(4) show ?thesis by blast
    next
      case 2
      from b(4) 2(1) have "\<not> is_reachable (ls_files st2 g)" by blast
      with a(3) 2(2) show ?thesis by simp
    qed
  qed
  show ?thesis
    unfolding live_extends_def using fed dist files fresh by (intro exI[of _ "n1 @ n2"] conjI)
qed

lemma test_and_set_feed_extends: "live_extends st (test_and_set_feed g st)"
proof (cases "is_reachable (ls_files st g)")
  case True
  then show ?thesis by (simp add: test_and_set_feed_def live_extends_refl)
next
  case False
  then show ?thesis
    unfolding live_extends_def test_and_set_feed_def
    by (intro exI[of _ "[g]"]) simp
qed

lemma test_and_set_feed_heap: "ls_heap (test_and_set_feed g st) = ls_heap st"
  by (simp add: test_and_set_feed_def)

lemma dso_mark_step_result:
  assumes "dso_mark_step ctx this st i = Inr st'"
  shows "\<exists>esym r s. at (elf_syms (ls_files st this)) i = Inr esym \<and>
           at (symbols (ls_files st this)) i = Inr (Some r) \<and> ls_heap st r = Some s \<and>
           st' = (case sym_file s of
               None \<Rightarrow> st
             | Some g \<Rightarrow>
                 if is_undef esym \<and> \<not> esym_is_weak esym \<and>
                    (\<not> is_dso (ls_files st g) \<or> \<not> arg_allow_shlib_undefined ctx)
                 then test_and_set_feed g st
                 else st)"
proof -
  let ?f = "ls_files st this"
  from assms obtain esym where e: "at (elf_syms ?f) i = Inr esym"
    and r1: "bind_err (at (symbols ?f) i) (\<lambda>p.
      bind_err (deref (ls_heap st) p) (\<lambda>(r, s).
        Inr (case sym_file s of
               None \<Rightarrow> st
             | Some g \<Rightarrow>
                 if is_undef esym \<and> \<not> esym_is_weak esym \<and>
                    (\<not> is_dso (ls_files st g) \<or> \<not> arg_allow_shlib_undefined ctx)
                 then test_and_set_feed g st
                 else st))) = Inr st'"
    unfolding dso_mark_step_def Let_def by (auto elim: bind_err_InrE)
  from r1 obtain p where p: "at (symbols ?f) i = Inr p"
    and r2: "bind_err (deref (ls_heap st) p) (\<lambda>(r, s).
        Inr (case sym_file s of
               None \<Rightarrow> st
             | Some g \<Rightarrow>
                 if is_undef esym \<and> \<not> esym_is_weak esym \<and>
                    (\<not> is_dso (ls_files st g) \<or> \<not> arg_allow_shlib_undefined ctx)
                 then test_and_set_feed g st
                 else st)) = Inr st'"
    by (auto elim: bind_err_InrE)
  from r2 obtain rs where d: "deref (ls_heap st) p = Inr rs"
    and r3: "(case rs of (r, s) \<Rightarrow>
        Inr (case sym_file s of
               None \<Rightarrow> st
             | Some g \<Rightarrow>
                 if is_undef esym \<and> \<not> esym_is_weak esym \<and>
                    (\<not> is_dso (ls_files st g) \<or> \<not> arg_allow_shlib_undefined ctx)
                 then test_and_set_feed g st
                 else st)) = Inr st'"
    by (auto elim: bind_err_InrE)
  obtain r s where rs: "rs = (r, s)" by (cases rs)
  from d rs have "p = Some r" "ls_heap st r = Some s" by (simp_all add: deref_Inr_iff)
  with e p r3 rs show ?thesis by auto
qed

lemma dso_mark_step_extends:
  assumes "dso_mark_step ctx this st i = Inr st'"
  shows "live_extends st st'"
proof -
  from dso_mark_step_result[OF assms] obtain esym r s where
    "at (elf_syms (ls_files st this)) i = Inr esym \<and>
     at (symbols (ls_files st this)) i = Inr (Some r) \<and> ls_heap st r = Some s \<and>
     st' = (case sym_file s of
               None \<Rightarrow> st
             | Some g \<Rightarrow>
                 if is_undef esym \<and> \<not> esym_is_weak esym \<and>
                    (\<not> is_dso (ls_files st g) \<or> \<not> arg_allow_shlib_undefined ctx)
                 then test_and_set_feed g st
                 else st)"
    by (elim exE)
  then have
    x: "st' = (case sym_file s of
               None \<Rightarrow> st
             | Some g \<Rightarrow>
                 if is_undef esym \<and> \<not> esym_is_weak esym \<and>
                    (\<not> is_dso (ls_files st g) \<or> \<not> arg_allow_shlib_undefined ctx)
                 then test_and_set_feed g st
                 else st)"
    by simp
  show ?thesis
    unfolding x
    by (cases "sym_file s") (simp_all add: live_extends_refl test_and_set_feed_extends)
qed

lemma obj_mark_step_extends:
  assumes "obj_mark_step ctx this st i = Inr st'"
  shows "live_extends st st'"
proof -
  let ?f = "ls_files st this"
  from assms obtain esym where e: "at (elf_syms ?f) i = Inr esym"
    and r1: "bind_err (at (symbols ?f) i) (\<lambda>p.
      bind_err (deref (ls_heap st) p) (\<lambda>(r, s).
      bind_err (merge_visibility s
                  (if \<not> is_undef esym \<and> exclude_libs ?f then STV_HIDDEN else st_visibility esym)) (\<lambda>s1.
        let st1 = st\<lparr>ls_heap := (ls_heap st)(r \<mapsto> s1)\<rparr> in
        case sym_file s1 of
          None \<Rightarrow> Inr st1
        | Some g \<Rightarrow>
            let undef_ref = (is_undef esym \<and> (\<not> esym_is_weak esym \<or> is_dso (ls_files st1 g))) in
            bind_err (if is_common esym
                      then bind_err (esym_of (ls_files st1) s1) (\<lambda>e2. Inr (\<not> is_common e2))
                      else Inr False) (\<lambda>common_ref.
              Inr (if undef_ref \<or> common_ref then test_and_set_feed g st1 else st1))))) = Inr st'"
    unfolding obj_mark_step_def Let_def by (auto elim: bind_err_InrE)
  from r1 obtain p where "at (symbols ?f) i = Inr p"
    and r1': "bind_err (deref (ls_heap st) p) (\<lambda>(r, s).
      bind_err (merge_visibility s
                  (if \<not> is_undef esym \<and> exclude_libs ?f then STV_HIDDEN else st_visibility esym)) (\<lambda>s1.
        let st1 = st\<lparr>ls_heap := (ls_heap st)(r \<mapsto> s1)\<rparr> in
        case sym_file s1 of
          None \<Rightarrow> Inr st1
        | Some g \<Rightarrow>
            let undef_ref = (is_undef esym \<and> (\<not> esym_is_weak esym \<or> is_dso (ls_files st1 g))) in
            bind_err (if is_common esym
                      then bind_err (esym_of (ls_files st1) s1) (\<lambda>e2. Inr (\<not> is_common e2))
                      else Inr False) (\<lambda>common_ref.
              Inr (if undef_ref \<or> common_ref then test_and_set_feed g st1 else st1)))) = Inr st'"
    by (auto elim: bind_err_InrE)
  from r1' obtain rs where d: "deref (ls_heap st) p = Inr rs"
    and r2: "(case rs of (r, s) \<Rightarrow>
      bind_err (merge_visibility s
                  (if \<not> is_undef esym \<and> exclude_libs ?f then STV_HIDDEN else st_visibility esym)) (\<lambda>s1.
        let st1 = st\<lparr>ls_heap := (ls_heap st)(r \<mapsto> s1)\<rparr> in
        case sym_file s1 of
          None \<Rightarrow> Inr st1
        | Some g \<Rightarrow>
            let undef_ref = (is_undef esym \<and> (\<not> esym_is_weak esym \<or> is_dso (ls_files st1 g))) in
            bind_err (if is_common esym
                      then bind_err (esym_of (ls_files st1) s1) (\<lambda>e2. Inr (\<not> is_common e2))
                      else Inr False) (\<lambda>common_ref.
              Inr (if undef_ref \<or> common_ref then test_and_set_feed g st1 else st1)))) = Inr st'"
    by (auto elim: bind_err_InrE)
  obtain r s where rs: "rs = (r, s)" by (cases rs)
  from r2 rs obtain s1 where
    r3: "(let st1 = st\<lparr>ls_heap := (ls_heap st)(r \<mapsto> s1)\<rparr> in
        case sym_file s1 of
          None \<Rightarrow> Inr st1
        | Some g \<Rightarrow>
            let undef_ref = (is_undef esym \<and> (\<not> esym_is_weak esym \<or> is_dso (ls_files st1 g))) in
            bind_err (if is_common esym
                      then bind_err (esym_of (ls_files st1) s1) (\<lambda>e2. Inr (\<not> is_common e2))
                      else Inr False) (\<lambda>common_ref.
              Inr (if undef_ref \<or> common_ref then test_and_set_feed g st1 else st1))) = Inr st'"
    by (auto elim: bind_err_InrE)
  let ?st1 = "st\<lparr>ls_heap := (ls_heap st)(r \<mapsto> s1)\<rparr>"
  have h1: "live_extends st ?st1" by (rule live_extends_heap)
  have "live_extends ?st1 st'"
  proof (cases "sym_file s1")
    case None
    with r3 show ?thesis by (simp add: live_extends_refl)
  next
    case (Some g)
    with r3 obtain common_ref where
      "st' = (if (is_undef esym \<and> (\<not> esym_is_weak esym \<or> is_dso (ls_files ?st1 g))) \<or> common_ref
              then test_and_set_feed g ?st1 else ?st1)"
      unfolding Let_def by (auto elim: bind_err_InrE)
    then show ?thesis
      by (simp add: live_extends_refl test_and_set_feed_extends)
  qed
  with h1 show ?thesis by (rule live_extends_trans)
qed

subsection \<open>Live tracing: whole visits\<close>

lemmas trace_defs =
  trace_start_def ctx_allow_def ctx0_def libu_so_def member_o_def no_file_def null_esym_def
  new_symbol_def

lemmas mark_defs =
  dso_mark_step_def obj_mark_step_def test_and_set_feed_def merge_visibility_def update_minimum_def
  canonicalize_def vis_priority_def at_def deref_def bind_err_def esym_of_def
  STV_HIDDEN_def STV_INTERNAL_def STV_PROTECTED_def

lemma obj_mark_live_objects_extends:
  assumes "obj_mark_live_objects ctx this st = Inr st'"
  shows "live_extends st st'"
proof -
  from assms have "for_each (obj_mark_step ctx this)
             [first_global (ls_files st this) ..< length (elf_syms (ls_files st this))] st = Inr st'"
    by (simp add: obj_mark_live_objects_def split: if_splits)
  then show ?thesis
    by (rule for_each_rel[where R = live_extends, rotated -1])
       (erule obj_mark_step_extends, rule live_extends_refl, erule (1) live_extends_trans)
qed

lemma dso_mark_live_objects_extends:
  assumes "dso_mark_live_objects ctx this st = Inr st'"
  shows "live_extends st st'"
  using assms unfolding dso_mark_live_objects_def
  by (rule for_each_rel[where R = live_extends, rotated -1])
     (erule dso_mark_step_extends, rule live_extends_refl, erule (1) live_extends_trans)

lemma mark_live_objects_extends:
  assumes "mark_live_objects ctx this st = Inr st'"
  shows "live_extends st st'"
  using assms obj_mark_live_objects_extends dso_mark_live_objects_extends
  by (auto simp: mark_live_objects_def split: if_splits)

lemma visits_extends:
  "visits ctx fs st = Inr st' \<Longrightarrow> live_extends st st'"
proof (induction fs arbitrary: st)
  case Nil
  then show ?case by (simp add: live_extends_refl)
next
  case (Cons this fs)
  from Cons.prems obtain st1 where 1: "mark_live_objects ctx this st = Inr st1"
    and 2: "visits ctx fs st1 = Inr st'"
    by (cases "mark_live_objects ctx this st") simp_all
  from mark_live_objects_extends[OF 1] Cons.IH[OF 2] show ?case by (rule live_extends_trans)
qed

lemma live_extends_once:
  assumes "live_extends st st'" "ls_fed st = []"
  shows "distinct (ls_fed st')"
    and "\<forall>g. is_reachable (ls_files st' g) \<longleftrightarrow> is_reachable (ls_files st g) \<or> g \<in> set (ls_fed st')"
    and "\<forall>g \<in> set (ls_fed st'). \<not> is_reachable (ls_files st g)"
proof -
  from assms obtain new where n: "ls_fed st' = new" "distinct new"
    "\<forall>g. ls_files st' g =
        (if g \<in> set new then (ls_files st g)\<lparr>is_reachable := True\<rparr> else ls_files st g)"
    "\<forall>g \<in> set new. \<not> is_reachable (ls_files st g)"
    unfolding live_extends_def by auto
  from n show "distinct (ls_fed st')" by simp
  from n show "\<forall>g. is_reachable (ls_files st' g) \<longleftrightarrow> is_reachable (ls_files st g) \<or> g \<in> set (ls_fed st')"
    by simp
  from n show "\<forall>g \<in> set (ls_fed st'). \<not> is_reachable (ls_files st g)" by simp
qed

lemma test_and_set_feed_fed:
  assumes "ls_fed (test_and_set_feed g st) \<noteq> ls_fed st"
  shows "\<not> is_reachable (ls_files st g) \<and> ls_fed (test_and_set_feed g st) = ls_fed st @ [g] \<and>
         is_reachable (ls_files (test_and_set_feed g st) g)"
  using assms by (cases "is_reachable (ls_files st g)") (simp_all add: test_and_set_feed_def)

lemma dso_mark_step_feeds:
  assumes step: "dso_mark_step ctx this st i = Inr st'" and fed: "ls_fed st' \<noteq> ls_fed st"
  shows "\<exists>esym r s g. at (elf_syms (ls_files st this)) i = Inr esym \<and>
           is_undef esym \<and> \<not> esym_is_weak esym \<and>
           at (symbols (ls_files st this)) i = Inr (Some r) \<and> ls_heap st r = Some s \<and>
           sym_file s = Some g \<and>
           (is_dso (ls_files st g) \<longrightarrow> \<not> arg_allow_shlib_undefined ctx) \<and>
           \<not> is_reachable (ls_files st g) \<and> is_reachable (ls_files st' g) \<and>
           ls_fed st' = ls_fed st @ [g]"
proof -
  from dso_mark_step_result[OF step] obtain esym r s where
    x: "at (elf_syms (ls_files st this)) i = Inr esym \<and>
     at (symbols (ls_files st this)) i = Inr (Some r) \<and> ls_heap st r = Some s \<and>
     st' = (case sym_file s of
               None \<Rightarrow> st
             | Some g \<Rightarrow>
                 if is_undef esym \<and> \<not> esym_is_weak esym \<and>
                    (\<not> is_dso (ls_files st g) \<or> \<not> arg_allow_shlib_undefined ctx)
                 then test_and_set_feed g st
                 else st)"
    by (elim exE)
  show ?thesis
  proof (cases "sym_file s")
    case None
    with x fed show ?thesis by simp
  next
    case (Some g)
    show ?thesis
    proof (cases "is_undef esym \<and> \<not> esym_is_weak esym \<and>
                    (\<not> is_dso (ls_files st g) \<or> \<not> arg_allow_shlib_undefined ctx)")
      case False
      with x Some fed show ?thesis by auto
    next
      case True
      with x Some have st': "st' = test_and_set_feed g st" by simp
      with fed have "ls_fed (test_and_set_feed g st) \<noteq> ls_fed st" by simp
      from test_and_set_feed_fed[OF this] st' x Some True show ?thesis by auto
    qed
  qed
qed

lemma dso_mark_step_feeds_iff:
  assumes e: "at (elf_syms (ls_files st this)) i = Inr esym"
    and r: "at (symbols (ls_files st this)) i = Inr (Some r)" and s: "ls_heap st r = Some s"
    and g: "sym_file s = Some g"
  shows "dso_mark_step ctx this st i =
           Inr (if is_undef esym \<and> \<not> esym_is_weak esym \<and>
                   (\<not> is_dso (ls_files st g) \<or> \<not> arg_allow_shlib_undefined ctx)
                then test_and_set_feed g st else st)"
  using e r s g by (simp add: dso_mark_step_def bind_err_simps deref_Some)

subsection \<open>Live tracing: the claim\<close>

lemma obj_mark_step_shape:
  assumes "obj_mark_step ctx this st i = Inr st'"
  shows "\<exists>h. st' = st\<lparr>ls_heap := h\<rparr> \<or> (\<exists>g. st' = test_and_set_feed g (st\<lparr>ls_heap := h\<rparr>))"
proof -
  let ?f = "ls_files st this"
  from assms obtain esym where e: "at (elf_syms ?f) i = Inr esym"
    and r1: "bind_err (at (symbols ?f) i) (\<lambda>p.
      bind_err (deref (ls_heap st) p) (\<lambda>(r, s).
      bind_err (merge_visibility s
                  (if \<not> is_undef esym \<and> exclude_libs ?f then STV_HIDDEN else st_visibility esym)) (\<lambda>s1.
        let st1 = st\<lparr>ls_heap := (ls_heap st)(r \<mapsto> s1)\<rparr> in
        case sym_file s1 of
          None \<Rightarrow> Inr st1
        | Some g \<Rightarrow>
            let undef_ref = (is_undef esym \<and> (\<not> esym_is_weak esym \<or> is_dso (ls_files st1 g))) in
            bind_err (if is_common esym
                      then bind_err (esym_of (ls_files st1) s1) (\<lambda>e2. Inr (\<not> is_common e2))
                      else Inr False) (\<lambda>common_ref.
              Inr (if undef_ref \<or> common_ref then test_and_set_feed g st1 else st1))))) = Inr st'"
    unfolding obj_mark_step_def Let_def by (auto elim: bind_err_InrE)
  from r1 obtain p where "at (symbols ?f) i = Inr p"
    and r1': "bind_err (deref (ls_heap st) p) (\<lambda>(r, s).
      bind_err (merge_visibility s
                  (if \<not> is_undef esym \<and> exclude_libs ?f then STV_HIDDEN else st_visibility esym)) (\<lambda>s1.
        let st1 = st\<lparr>ls_heap := (ls_heap st)(r \<mapsto> s1)\<rparr> in
        case sym_file s1 of
          None \<Rightarrow> Inr st1
        | Some g \<Rightarrow>
            let undef_ref = (is_undef esym \<and> (\<not> esym_is_weak esym \<or> is_dso (ls_files st1 g))) in
            bind_err (if is_common esym
                      then bind_err (esym_of (ls_files st1) s1) (\<lambda>e2. Inr (\<not> is_common e2))
                      else Inr False) (\<lambda>common_ref.
              Inr (if undef_ref \<or> common_ref then test_and_set_feed g st1 else st1)))) = Inr st'"
    by (auto elim: bind_err_InrE)
  from r1' obtain rs where d: "deref (ls_heap st) p = Inr rs"
    and r2: "(case rs of (r, s) \<Rightarrow>
      bind_err (merge_visibility s
                  (if \<not> is_undef esym \<and> exclude_libs ?f then STV_HIDDEN else st_visibility esym)) (\<lambda>s1.
        let st1 = st\<lparr>ls_heap := (ls_heap st)(r \<mapsto> s1)\<rparr> in
        case sym_file s1 of
          None \<Rightarrow> Inr st1
        | Some g \<Rightarrow>
            let undef_ref = (is_undef esym \<and> (\<not> esym_is_weak esym \<or> is_dso (ls_files st1 g))) in
            bind_err (if is_common esym
                      then bind_err (esym_of (ls_files st1) s1) (\<lambda>e2. Inr (\<not> is_common e2))
                      else Inr False) (\<lambda>common_ref.
              Inr (if undef_ref \<or> common_ref then test_and_set_feed g st1 else st1)))) = Inr st'"
    by (auto elim: bind_err_InrE)
  obtain r s where rs: "rs = (r, s)" by (cases rs)
  from r2 rs obtain s1 where
    r3: "(let st1 = st\<lparr>ls_heap := (ls_heap st)(r \<mapsto> s1)\<rparr> in
        case sym_file s1 of
          None \<Rightarrow> Inr st1
        | Some g \<Rightarrow>
            let undef_ref = (is_undef esym \<and> (\<not> esym_is_weak esym \<or> is_dso (ls_files st1 g))) in
            bind_err (if is_common esym
                      then bind_err (esym_of (ls_files st1) s1) (\<lambda>e2. Inr (\<not> is_common e2))
                      else Inr False) (\<lambda>common_ref.
              Inr (if undef_ref \<or> common_ref then test_and_set_feed g st1 else st1))) = Inr st'"
    by (auto elim: bind_err_InrE)
  let ?st1 = "st\<lparr>ls_heap := (ls_heap st)(r \<mapsto> s1)\<rparr>"
  have "st' = ?st1 \<or> (\<exists>g. st' = test_and_set_feed g ?st1)"
  proof (cases "sym_file s1")
    case None
    with r3 show ?thesis by simp
  next
    case (Some g)
    with r3 obtain common_ref where
      "st' = (if (is_undef esym \<and> (\<not> esym_is_weak esym \<or> is_dso (ls_files ?st1 g))) \<or> common_ref
              then test_and_set_feed g ?st1 else ?st1)"
      unfolding Let_def by (auto elim: bind_err_InrE)
    then show ?thesis by (cases "(is_undef esym \<and> (\<not> esym_is_weak esym \<or> is_dso (ls_files ?st1 g))) \<or> common_ref") auto
  qed
  then show ?thesis by blast
qed

lemma obj_mark_step_feeds:
  assumes step: "obj_mark_step ctx this st i = Inr st'" and fed: "ls_fed st' \<noteq> ls_fed st"
  shows "\<exists>g. \<not> is_reachable (ls_files st g) \<and> is_reachable (ls_files st' g) \<and>
           ls_fed st' = ls_fed st @ [g]"
proof -
  from obj_mark_step_shape[OF step] obtain h where
    x: "st' = st\<lparr>ls_heap := h\<rparr> \<or> (\<exists>g. st' = test_and_set_feed g (st\<lparr>ls_heap := h\<rparr>))"
    by (elim exE)
  with fed obtain g where st': "st' = test_and_set_feed g (st\<lparr>ls_heap := h\<rparr>)"
    by auto
  with fed have "ls_fed (test_and_set_feed g (st\<lparr>ls_heap := h\<rparr>)) \<noteq> ls_fed (st\<lparr>ls_heap := h\<rparr>)"
    by simp
  from test_and_set_feed_fed[OF this] st' show ?thesis by auto
qed

text \<open>
  C3, as the code has it. In any sequence of visits that starts with no call of the feeder
  made: the feeder is called at most once for each file; a file is reachable at the end
  exactly when it was at the start or the feeder was called for it, so that no flag is
  cleared and each is set at most once; and the feeder is called only for files that were
  not reachable at the start. One iteration calls the feeder only for a file whose flag it
  has just set. A shared object calls the feeder only for the file that defines one of its
  undefined, non-weak references, and, when that file is itself a shared object, only when
  \<^verbatim>\<open>--allow-shlib-undefined\<close> is disabled.
\<close>

theorem live_tracing_once:
  "(visits ctx fs st = Inr st' \<and> ls_fed st = [] \<longrightarrow>
      distinct (ls_fed st') \<and>
      (\<forall>g. is_reachable (ls_files st' g) \<longleftrightarrow> is_reachable (ls_files st g) \<or> g \<in> set (ls_fed st')) \<and>
      (\<forall>g \<in> set (ls_fed st'). \<not> is_reachable (ls_files st g))) \<and>
   (obj_mark_step ctx this st i = Inr st1 \<and> ls_fed st1 \<noteq> ls_fed st \<longrightarrow>
      (\<exists>g. \<not> is_reachable (ls_files st g) \<and> is_reachable (ls_files st1 g) \<and>
         ls_fed st1 = ls_fed st @ [g])) \<and>
   (dso_mark_step ctx this st i = Inr st2 \<and> ls_fed st2 \<noteq> ls_fed st \<longrightarrow>
      (\<exists>esym r s g. at (elf_syms (ls_files st this)) i = Inr esym \<and>
         is_undef esym \<and> \<not> esym_is_weak esym \<and>
         at (symbols (ls_files st this)) i = Inr (Some r) \<and> ls_heap st r = Some s \<and>
         sym_file s = Some g \<and>
         (is_dso (ls_files st g) \<longrightarrow> \<not> arg_allow_shlib_undefined ctx) \<and>
         \<not> is_reachable (ls_files st g) \<and> is_reachable (ls_files st2 g) \<and>
         ls_fed st2 = ls_fed st @ [g]))"
proof (intro conjI impI)
  assume h: "visits ctx fs st = Inr st' \<and> ls_fed st = []"
  then have ext: "live_extends st st'" by (intro visits_extends[where ctx=ctx and fs=fs]) simp
  from h have e: "ls_fed st = []" by simp
  show "distinct (ls_fed st')" using ext e by (rule live_extends_once(1))
  show "\<forall>g. is_reachable (ls_files st' g) \<longleftrightarrow> is_reachable (ls_files st g) \<or> g \<in> set (ls_fed st')"
    using ext e by (rule live_extends_once(2))
  show "\<forall>g \<in> set (ls_fed st'). \<not> is_reachable (ls_files st g)"
    using ext e by (rule live_extends_once(3))
next
  assume "obj_mark_step ctx this st i = Inr st1 \<and> ls_fed st1 \<noteq> ls_fed st"
  then show "\<exists>g. \<not> is_reachable (ls_files st g) \<and> is_reachable (ls_files st1 g) \<and>
         ls_fed st1 = ls_fed st @ [g]"
    by (intro obj_mark_step_feeds[where ctx=ctx and this=this and i=i]) simp_all
next
  assume "dso_mark_step ctx this st i = Inr st2 \<and> ls_fed st2 \<noteq> ls_fed st"
  then show "\<exists>esym r s g. at (elf_syms (ls_files st this)) i = Inr esym \<and>
         is_undef esym \<and> \<not> esym_is_weak esym \<and>
         at (symbols (ls_files st this)) i = Inr (Some r) \<and> ls_heap st r = Some s \<and>
         sym_file s = Some g \<and>
         (is_dso (ls_files st g) \<longrightarrow> \<not> arg_allow_shlib_undefined ctx) \<and>
         \<not> is_reachable (ls_files st g) \<and> is_reachable (ls_files st2 g) \<and>
         ls_fed st2 = ls_fed st @ [g]"
    by (intro dso_mark_step_feeds) simp_all
qed

text \<open>
  With \<^verbatim>\<open>--allow-shlib-undefined\<close> enabled, the visit of the shared object \<open>libu_so\<close>
  calls the feeder for the object file that defines \<open>bar\<close>.
\<close>

theorem dso_feeds_object_when_allowed:
  "arg_allow_shlib_undefined ctx_allow \<and> is_dso (ls_files trace_start 2) \<and>
   \<not> is_dso (ls_files trace_start 1) \<and> \<not> is_reachable (ls_files trace_start 1) \<and>
   (\<exists>st'. dso_mark_live_objects ctx_allow 2 trace_start = Inr st' \<and> ls_fed st' = [1] \<and>
      is_reachable (ls_files st' 1))"
  by (simp add: dso_mark_live_objects_def trace_defs mark_defs elf_defs upt_rec)

text \<open>
  The same link, from the start: whichever of \<open>libu_so\<close> and \<open>main_o\<close> is visited first
  calls the feeder for \<open>member_o\<close>, and three visits call it once.
\<close>

theorem live_tracing_once_witness:
  "(\<exists>st'. visits ctx_allow [2, 0, 1] trace_start = Inr st' \<and> ls_fed st' = [1] \<and>
      distinct (ls_fed st') \<and>
      (\<forall>g. is_reachable (ls_files st' g) \<longleftrightarrow>
            is_reachable (ls_files trace_start g) \<or> g \<in> set (ls_fed st'))) \<and>
   (\<exists>st1 g. obj_mark_step ctx_allow 0 trace_start 1 = Inr st1 \<and>
      \<not> is_reachable (ls_files trace_start g) \<and> is_reachable (ls_files st1 g) \<and>
      ls_fed st1 = ls_fed trace_start @ [g]) \<and>
   (\<exists>st2 g. dso_mark_step ctx_allow 2 trace_start 0 = Inr st2 \<and>
      \<not> is_dso (ls_files trace_start g) \<and> ls_fed st2 = ls_fed trace_start @ [g])"
proof -
  have e: "ls_fed trace_start = []" by (simp add: trace_start_def)
  obtain st' where v: "visits ctx_allow [2, 0, 1] trace_start = Inr st'" and f: "ls_fed st' = [1]"
    by (simp add: mark_live_objects_def dso_mark_live_objects_def obj_mark_live_objects_def
        trace_defs main_o_def mark_defs elf_defs upt_rec)
  from live_tracing_once[where ctx=ctx_allow and fs="[2, 0, 1]" and st=trace_start and st'=st',
      THEN conjunct1, THEN mp, OF conjI[OF v e]]
  have a: "distinct (ls_fed st')"
    and b: "\<forall>g. is_reachable (ls_files st' g) \<longleftrightarrow>
            is_reachable (ls_files trace_start g) \<or> g \<in> set (ls_fed st')"
    by blast+
  obtain st1 where o: "obj_mark_step ctx_allow 0 trace_start 1 = Inr st1"
    and of: "ls_fed st1 \<noteq> ls_fed trace_start"
    by (simp add: trace_defs main_o_def mark_defs elf_defs)
  from live_tracing_once[where ctx=ctx_allow and this=0 and i=1 and st=trace_start and ?st1.0=st1,
      THEN conjunct2, THEN conjunct1, THEN mp, OF conjI[OF o of]]
  obtain g1 where c: "\<not> is_reachable (ls_files trace_start g1) \<and> is_reachable (ls_files st1 g1) \<and>
         ls_fed st1 = ls_fed trace_start @ [g1]"
    by (elim exE)
  obtain st2 where d: "dso_mark_step ctx_allow 2 trace_start 0 = Inr st2"
    and df: "ls_fed st2 \<noteq> ls_fed trace_start"
    by (simp add: trace_defs main_o_def mark_defs elf_defs)
  from live_tracing_once[where ctx=ctx_allow and this=2 and i=0 and st=trace_start and ?st2.0=st2,
      THEN conjunct2, THEN conjunct2, THEN mp, OF conjI[OF d df]]
  obtain esym r s g2 where x: "at (elf_syms (ls_files trace_start 2)) 0 = Inr esym \<and>
         is_undef esym \<and> \<not> esym_is_weak esym \<and>
         at (symbols (ls_files trace_start 2)) 0 = Inr (Some r) \<and> ls_heap trace_start r = Some s \<and>
         sym_file s = Some g2 \<and>
         (is_dso (ls_files trace_start g2) \<longrightarrow> \<not> arg_allow_shlib_undefined ctx_allow) \<and>
         \<not> is_reachable (ls_files trace_start g2) \<and> is_reachable (ls_files st2 g2) \<and>
         ls_fed st2 = ls_fed trace_start @ [g2]"
    by (elim exE)
  have "arg_allow_shlib_undefined ctx_allow" by (simp add: ctx_allow_def)
  with x have nd: "\<not> is_dso (ls_files trace_start g2)" and e2: "ls_fed st2 = ls_fed trace_start @ [g2]"
    by blast+
  from v f a b o c d nd e2 show ?thesis by blast
qed

subsection \<open>The CREL decoder: flag bits\<close>

lemma and_pow2_neq_0_iff_bit:
  fixes w :: "'a::len word"
  shows "w AND 2 ^ n \<noteq> 0 \<longleftrightarrow> bit w n"
  by (simp add: and_exp_eq_0_iff_not_bit)

lemma flag_bits:
  fixes F :: u8
  shows "F AND 0x80 \<noteq> 0 \<longleftrightarrow> bit F 7" "F AND 1 \<noteq> 0 \<longleftrightarrow> bit F 0"
    "F AND 2 \<noteq> 0 \<longleftrightarrow> bit F 1" "F AND 4 \<noteq> 0 \<longleftrightarrow> bit F 2"
  using and_pow2_neq_0_iff_bit[of F 7] and_pow2_neq_0_iff_bit[of F 0]
    and_pow2_neq_0_iff_bit[of F 1] and_pow2_neq_0_iff_bit[of F 2]
  by simp_all

lemma header_is_rela:
  fixes H :: u64
  shows "H AND 4 \<noteq> 0 \<longleftrightarrow> drop_bit 2 H AND 1 = 1"
proof -
  have "H AND 4 \<noteq> 0 \<longleftrightarrow> bit H 2"
    using and_pow2_neq_0_iff_bit[of H 2] by simp
  also have "\<dots> \<longleftrightarrow> odd (drop_bit 2 H)" by (simp add: bit_iff_odd_drop_bit)
  also have "\<dots> \<longleftrightarrow> drop_bit 2 H AND 1 = 1"
    by (simp add: and_one_eq mod_2_eq_odd)
  finally show ?thesis .
qed

subsection \<open>The CREL decoder: the loop and the records of the format\<close>

lemma crel_step_eq_spec:
  "crel_step uleb sleb is_rela scale st p = crel_spec_record uleb sleb is_rela scale st p"
proof (cases st)
  case (fields offset ty symidx addend)
  show ?thesis
  proof (cases p)
    case Nil
    with fields show ?thesis by (simp add: crel_step_def crel_spec_record_def)
  next
    case (Cons F p1)
    show ?thesis
      unfolding crel_step_def crel_spec_record_def fields Cons Let_def prod.case list.case
        flag_bits bind_err_def crel_spec_delta_def crel_spec_optional_def
      by (rule refl)
  qed
qed


lemma crel_loop_eq_iterate:
  assumes "length vec \<le> nrels"
  shows "crel_loop (crel_step uleb sleb is_rela scale) mk_rel nrels vec st p =
     (case crel_spec_iterate uleb sleb is_rela scale (nrels - length vec) st p of
        Inl e \<Rightarrow> Inl e
      | Inr sts \<Rightarrow> Inr (vec @ map mk_rel sts))"
  using assms
proof (induction "nrels - length vec" arbitrary: vec st p)
  case 0
  then have "length vec = nrels" by simp
  then show ?case by (simp add: crel_loop.simps)
next
  case (Suc n)
  then have lt: "length vec < nrels" and d: "nrels - length vec = Suc n" by simp_all
  have unfold: "crel_loop (crel_step uleb sleb is_rela scale) mk_rel nrels vec st p =
      (case crel_spec_record uleb sleb is_rela scale st p of
           Inl e \<Rightarrow> Inl e
         | Inr (st', p') \<Rightarrow>
             crel_loop (crel_step uleb sleb is_rela scale) mk_rel nrels (vec @ [mk_rel st']) st' p')"
    using lt by (subst crel_loop.simps) (simp add: crel_step_eq_spec)
  show ?case
  proof (cases "crel_spec_record uleb sleb is_rela scale st p")
    case (Inl e)
    with d unfold show ?thesis by simp
  next
    case (Inr x)
    obtain st' p' where x: "x = (st', p')" by (cases x)
    have n: "n = nrels - length (vec @ [mk_rel st'])" using d by simp
    have le: "length (vec @ [mk_rel st']) \<le> nrels" using lt by simp
    have ih: "crel_loop (crel_step uleb sleb is_rela scale) mk_rel nrels (vec @ [mk_rel st']) st' p' =
       (case crel_spec_iterate uleb sleb is_rela scale n st' p' of
          Inl e \<Rightarrow> Inl e
        | Inr sts \<Rightarrow> Inr ((vec @ [mk_rel st']) @ map mk_rel sts))"
      using Suc.hyps(1)[OF n le, of st' p'] n by simp
    show ?thesis
    proof (cases "crel_spec_iterate uleb sleb is_rela scale n st' p'")
      case (Inl e)
      with d unfold Inr x ih show ?thesis by simp
    next
      case sts: (Inr sts)
      with d unfold Inr x ih show ?thesis by simp
    qed
  qed
qed

lemma decode_crel_eq_spec:
  "decode_crel E_is_rela uleb sleb mk_rel data = crel_spec E_is_rela uleb sleb mk_rel data"
proof (cases "uleb data")
  case (Inl e)
  then show ?thesis by (simp add: decode_crel_def crel_spec_def bind_err_def)
next
  case (Inr x)
  obtain H p where x: "x = (H, p)" by (cases x)
  have loop: "crel_loop (crel_step uleb sleb b (unat (H AND 3))) mk_rel
                (unat (drop_bit 3 H)) [] (0, 0, 0, 0) p =
     (case crel_spec_iterate uleb sleb b (unat (H AND 3)) (unat (drop_bit 3 H))
             (0, 0, 0, 0) p of
        Inl e \<Rightarrow> Inl e
      | Inr sts \<Rightarrow> Inr (map mk_rel sts))" for b
    using crel_loop_eq_iterate[of "[]" "unat (drop_bit 3 H)" uleb sleb b
        "unat (H AND 3)" mk_rel "(0, 0, 0, 0)" p]
    by (cases "crel_spec_iterate uleb sleb b (unat (H AND 3)) (unat (drop_bit 3 H))
             (0, 0, 0, 0) p") simp_all
  show ?thesis
    using Inr x
    by (simp add: decode_crel_def crel_spec_def bind_err_def Let_def loop
        header_is_rela[symmetric])
qed

lemma crel_spec_iterate_length:
  "crel_spec_iterate uleb sleb is_rela scale n st p = Inr sts \<Longrightarrow> length sts = n"
proof (induction n arbitrary: st p sts)
  case 0
  then show ?case by simp
next
  case (Suc n)
  from Suc.prems obtain x where r: "crel_spec_record uleb sleb is_rela scale st p = Inr x"
    by (cases "crel_spec_record uleb sleb is_rela scale st p") simp_all
  obtain st' p' where x: "x = (st', p')" by (cases x)
  from Suc.prems r x obtain sts' where i: "crel_spec_iterate uleb sleb is_rela scale n st' p' = Inr sts'"
    and s: "sts = st' # sts'"
    by (cases "crel_spec_iterate uleb sleb is_rela scale n st' p'") auto
  from Suc.IH[OF i] s show ?case by simp
qed

subsection \<open>The CREL decoder: the claim\<close>

lemmas crel_defs =
  decode_crel_def crel_step_def read_uleb_def read_sleb_def bind_err_def Let_def

text \<open>
  C2. The decoder computes what the format says: it reads the header \<open>H\<close>, fails on a
  REL-only target when \<open>(H >> 2) & 1\<close> is set, and otherwise emits the running values
  after each of \<open>H >> 3\<close> records, every record read as the format words it (so does one
  pass of the loop body). A run that does not fail returns exactly \<open>H >> 3\<close> records.
\<close>

theorem decode_crel_refines_format:
  "decode_crel E_is_rela uleb sleb mk_rel data = crel_spec E_is_rela uleb sleb mk_rel data \<and>
   crel_step uleb sleb is_rela scale st q = crel_spec_record uleb sleb is_rela scale st q \<and>
   (uleb data = Inr (H, p) \<and> decode_crel E_is_rela uleb sleb mk_rel data = Inr vec \<longrightarrow>
      length vec = unat (drop_bit 3 H)) \<and>
   (uleb data = Inr (H, p) \<and> drop_bit 2 H AND 1 = 1 \<and> \<not> E_is_rela \<longrightarrow>
      decode_crel E_is_rela uleb sleb mk_rel data =
        Inl (Fatal ''CREL with addends is not supported''))"
proof (intro conjI impI)
  show "decode_crel E_is_rela uleb sleb mk_rel data = crel_spec E_is_rela uleb sleb mk_rel data"
    by (rule decode_crel_eq_spec)
  show "crel_step uleb sleb is_rela scale st q = crel_spec_record uleb sleb is_rela scale st q"
    by (rule crel_step_eq_spec)
next
  assume h: "uleb data = Inr (H, p) \<and> decode_crel E_is_rela uleb sleb mk_rel data = Inr vec"
  then have "crel_spec E_is_rela uleb sleb mk_rel data = Inr vec"
    by (simp add: decode_crel_eq_spec)
  with h obtain sts where
    i: "crel_spec_iterate uleb sleb (drop_bit 2 H AND 1 = 1) (unat (H AND 3))
          (unat (drop_bit 3 H)) (0, 0, 0, 0) p = Inr sts"
    and v: "vec = map mk_rel sts"
    by (auto simp: crel_spec_def split: if_splits sum.splits)
  from crel_spec_iterate_length[OF i] v show "length vec = unat (drop_bit 3 H)" by simp
next
  assume "uleb data = Inr (H, p) \<and> drop_bit 2 H AND 1 = 1 \<and> \<not> E_is_rela"
  then show "decode_crel E_is_rela uleb sleb mk_rel data =
        Inl (Fatal ''CREL with addends is not supported'')"
    by (simp add: decode_crel_eq_spec crel_spec_def)
qed

text \<open>
  A section with the header 0x14 (two records, with addends, scale 0) and the records
  \<open>0x0b 0x05 0x02\<close> and \<open>0x14 0x7f\<close>.
\<close>

theorem decode_crel_refines_format_witness:
  "read_uleb [0x14, 0x0b, 0x05, 0x02, 0x14, 0x7f] = Inr (0x14, [0x0b, 0x05, 0x02, 0x14, 0x7f]) \<and>
   decode_crel True read_uleb read_sleb (\<lambda>st. st) [0x14, 0x0b, 0x05, 0x02, 0x14, 0x7f]
     = Inr [(1, 2, 5, 0), (3, 2, 5, - 1)] \<and>
   length [(1, 2, 5, 0), (3, 2, 5, - 1) :: crel_state] = unat (drop_bit 3 (0x14 :: u64)) \<and>
   decode_crel False read_uleb read_sleb (\<lambda>st. st) [0x14, 0x0b, 0x05, 0x02, 0x14, 0x7f]
     = Inl (Fatal ''CREL with addends is not supported'')"
proof -
  let ?data = "[0x14, 0x0b, 0x05, 0x02, 0x14, 0x7f] :: u8 list"
  have hd: "read_uleb ?data = Inr (0x14, [0x0b, 0x05, 0x02, 0x14, 0x7f])"
    by (simp add: read_uleb_def bind_err_def)
  have "(127 :: u64) = mask 7" by (simp add: mask_eq_exp_minus_1)
  then have m1: "(127 :: u64) OR NOT (mask 7) = - 1" by (simp only: bit.disj_cancel_right)
  have run: "decode_crel True read_uleb read_sleb (\<lambda>st. st) ?data
     = Inr [(1, 2, 5, 0), (3, 2, 5, - 1)]"
    by (simp add: crel_defs crel_loop.simps m1)
  have rela: "drop_bit 2 (0x14 :: u64) AND 1 = 1" by simp
  note T = decode_crel_refines_format[where uleb=read_uleb and sleb=read_sleb
      and mk_rel="\<lambda>st. st" and data="?data" and H="0x14" and p="[0x0b, 0x05, 0x02, 0x14, 0x7f]"]
  have len: "length [(1, 2, 5, 0), (3, 2, 5, - 1) :: crel_state] = unat (drop_bit 3 (0x14 :: u64))"
    by (rule T[where E_is_rela=True and vec="[(1, 2, 5, 0), (3, 2, 5, - 1)]",
          THEN conjunct2, THEN conjunct2, THEN conjunct1, THEN mp])
       (intro conjI hd run)
  have fail: "decode_crel False read_uleb read_sleb (\<lambda>st. st) ?data
     = Inl (Fatal ''CREL with addends is not supported'')"
    by (rule T[where E_is_rela=False, THEN conjunct2, THEN conjunct2, THEN conjunct2, THEN mp])
       (intro conjI hd rela, simp)
  from hd run len fail show ?thesis by (intro conjI)
qed

subsection \<open>Symbol materialization: the version suffix\<close>

lemma takeWhile_at_append:
  "CHR ''@'' \<notin> set base \<Longrightarrow> takeWhile (\<lambda>c. c \<noteq> CHR ''@'') (base @ CHR ''@'' # rest) = base"
  by (induction base) auto

lemma dropWhile_at_append:
  "CHR ''@'' \<notin> set base \<Longrightarrow> dropWhile (\<lambda>c. c \<noteq> CHR ''@'') (base @ CHR ''@'' # rest) = CHR ''@'' # rest"
  by (induction base) auto

lemma parse_symver_plain:
  "CHR ''@'' \<notin> set str \<Longrightarrow> parse_symver str = (str, str, False)"
  by (simp add: parse_symver_def)

lemma parse_symver_bare1:
  assumes "CHR ''@'' \<notin> set base"
  shows "parse_symver (base @ ''@'') = (base @ ''@'', base, False)"
  using assms takeWhile_at_append[OF assms, of "[]"] dropWhile_at_append[OF assms, of "[]"]
  by (simp add: parse_symver_def Let_def)

lemma parse_symver_bare2:
  assumes "CHR ''@'' \<notin> set base"
  shows "parse_symver (base @ ''@@'') = (base @ ''@@'', base, False)"
  using assms takeWhile_at_append[OF assms, of "''@''"] dropWhile_at_append[OF assms, of "''@''"]
  by (simp add: parse_symver_def Let_def)

lemma parse_symver_default:
  assumes "CHR ''@'' \<notin> set base" "v \<noteq> []"
  shows "parse_symver (base @ ''@@'' @ v) = (base, base, True)"
  using assms takeWhile_at_append[OF assms(1), of "CHR ''@'' # v"]
    dropWhile_at_append[OF assms(1), of "CHR ''@'' # v"]
  by (simp add: parse_symver_def Let_def starts_with_def)

lemma parse_symver_versioned:
  assumes "CHR ''@'' \<notin> set base" "v \<noteq> []" "hd v \<noteq> CHR ''@''"
  shows "parse_symver (base @ ''@'' @ v) = (base @ ''@'' @ v, base, True)"
proof -
  obtain c cs where v: "v = c # cs" using assms(2) by (cases v) auto
  with assms(3) have c: "c \<noteq> CHR ''@''" by simp
  show ?thesis
    using assms(1) c takeWhile_at_append[OF assms(1), of v] dropWhile_at_append[OF assms(1), of v]
    by (simp add: parse_symver_def Let_def starts_with_def v)
qed

lemma parse_symver_name:
  "parse_symver str = (key, nm, sv) \<Longrightarrow> nm = takeWhile (\<lambda>c. c \<noteq> CHR ''@'') str"
proof (cases "CHR ''@'' \<in> set str")
  case True
  assume "parse_symver str = (key, nm, sv)"
  with True show ?thesis by (auto simp: parse_symver_def Let_def split: if_splits)
next
  case False
  then have tw: "takeWhile (\<lambda>c. c \<noteq> CHR ''@'') str = str"
    by (intro takeWhile_eq_all_conv[THEN iffD2]) auto
  assume "parse_symver str = (key, nm, sv)"
  with False have nm: "nm = str" by (auto simp: parse_symver_def)
  show ?thesis unfolding nm by (rule tw[symmetric])
qed

lemma parse_symver_symver:
  "parse_symver str = (key, nm, sv) \<Longrightarrow>
   sv \<longleftrightarrow> CHR ''@'' \<in> set str \<and> dropWhile (\<lambda>c. c \<noteq> CHR ''@'') str \<noteq> ''@'' \<and>
        dropWhile (\<lambda>c. c \<noteq> CHR ''@'') str \<noteq> ''@@''"
  by (auto simp: parse_symver_def Let_def split: if_splits)

lemma parse_symver_key:
  "parse_symver str = (key, nm, sv) \<Longrightarrow> key = str \<or> key = nm"
  by (auto simp: parse_symver_def Let_def split: if_splits)

lemma takeWhile_idem_at:
  "takeWhile (\<lambda>c. c \<noteq> CHR ''@'') (takeWhile (\<lambda>c. c \<noteq> CHR ''@'') str) = takeWhile (\<lambda>c. c \<noteq> CHR ''@'') str"
  by simp

lemma parse_symver_key_name:
  assumes "parse_symver str = (key, nm, sv)"
  shows "takeWhile (\<lambda>c. c \<noteq> CHR ''@'') key = nm"
proof -
  from parse_symver_name[OF assms] have nm: "nm = takeWhile (\<lambda>c. c \<noteq> CHR ''@'') str" .
  from parse_symver_key[OF assms] show ?thesis
  proof
    assume "key = str" with nm show ?thesis by simp
  next
    assume "key = nm" with nm show ?thesis by simp
  qed
qed

lemma takeWhile_drop:
  "n \<le> length (takeWhile P xs) \<Longrightarrow> takeWhile P (drop n xs) = drop n (takeWhile P xs)"
proof (induction xs arbitrary: n)
  case Nil
  then show ?case by simp
next
  case (Cons x xs)
  then show ?case by (cases n) (auto split: if_splits)
qed

lemma starts_with_length: "starts_with s pre \<Longrightarrow> length pre \<le> length s"
  by (metis starts_with_def length_take min.cobounded1 min_def nat_le_linear take_all)

lemma starts_with_split: "starts_with s pre \<Longrightarrow> s = pre @ drop (length pre) s"
  by (metis starts_with_def append_take_drop_id)

subsection \<open>Symbol materialization: keys and names\<close>

lemma get_symbol_snd: "snd (get_symbol heap key nm) = GlobalSym key"
  by (simp add: get_symbol_eq)

lemma get_symbol_fst:
  "fst (get_symbol heap key nm) =
     (if heap (GlobalSym key) = None then heap(GlobalSym key \<mapsto> new_symbol nm) else heap)"
  by (simp add: get_symbol_eq)

lemma new_symbol_name: "name (new_symbol nm) = nm"
  by (simp add: new_symbol_def)

lemma get_symbol_names:
  assumes "names_follow_keys heap" "takeWhile (\<lambda>c. c \<noteq> CHR ''@'') key = nm"
  shows "names_follow_keys (fst (get_symbol heap key nm))"
  using assms by (auto simp: names_follow_keys_def get_symbol_fst new_symbol_name)

lemma get_symbol_name:
  assumes "names_follow_keys heap" "takeWhile (\<lambda>c. c \<noteq> CHR ''@'') key = nm"
  shows "\<exists>s. fst (get_symbol heap key nm) (GlobalSym key) = Some s \<and> name s = nm"
proof (cases "heap (GlobalSym key)")
  case None
  then show ?thesis by (simp add: get_symbol_fst new_symbol_name)
next
  case (Some s)
  with assms show ?thesis by (auto simp: get_symbol_fst names_follow_keys_def)
qed

lemma real_key_name:
  assumes p: "parse_symver str = (key, nm, sv)" and r: "starts_with nm ''__real_''"
  shows "takeWhile (\<lambda>c. c \<noteq> CHR ''@'') (drop 7 key) = drop 7 nm"
    and "key = ''__real_'' @ drop 7 key" and "nm = ''__real_'' @ drop 7 nm"
proof -
  have kn: "takeWhile (\<lambda>c. c \<noteq> CHR ''@'') key = nm" using p by (rule parse_symver_key_name)
  from starts_with_length[OF r] have len: "7 \<le> length nm" by simp
  with kn have "7 \<le> length (takeWhile (\<lambda>c. c \<noteq> CHR ''@'') key)" by simp
  from takeWhile_drop[OF this] kn show "takeWhile (\<lambda>c. c \<noteq> CHR ''@'') (drop 7 key) = drop 7 nm"
    by simp
  have l7: "length ''__real_'' = 7" by simp
  have t7: "take 7 nm = ''__real_''" using r unfolding starts_with_def l7 .
  show nm: "nm = ''__real_'' @ drop 7 nm" by (rule starts_with_split[OF r, unfolded l7])
  from parse_symver_key[OF p] show "key = ''__real_'' @ drop 7 key"
  proof
    assume "key = nm" with nm show ?thesis by (simp only:)
  next
    assume ks: "key = str"
    have "key = takeWhile (\<lambda>c. c \<noteq> CHR ''@'') key @ dropWhile (\<lambda>c. c \<noteq> CHR ''@'') key"
      by simp
    then have "take 7 key = take 7 (nm @ dropWhile (\<lambda>c. c \<noteq> CHR ''@'') key)"
      unfolding kn by (rule arg_cong)
    also have "\<dots> = take 7 nm" using len by simp
    finally have "take 7 key = ''__real_''" using t7 by simp
    then have "take 7 key @ drop 7 key = ''__real_'' @ drop 7 key" by (rule arg_cong)
    then show ?thesis by (simp only: append_take_drop_id)
  qed
qed

lemma wrap_key_name:
  "takeWhile (\<lambda>c. c \<noteq> CHR ''@'') key = nm \<Longrightarrow>
   takeWhile (\<lambda>c. c \<noteq> CHR ''@'') (''__wrap_'' @ key) = ''__wrap_'' @ nm"
  by simp

subsection \<open>Symbol materialization: the wrap option and one iteration\<close>

lemma wrap_symbol_real:
  assumes "is_undef esym" "starts_with nm ''__real_''" "drop 7 nm \<in> arg_wrap ctx"
  shows "wrap_symbol ctx heap esym key nm =
           (fst (get_symbol heap (drop 7 key) (drop 7 nm)), GlobalSym (drop 7 key))"
  using assms by (simp add: wrap_symbol_def get_symbol_eq)

lemma wrap_symbol_ordinary:
  assumes "\<not> (is_undef esym \<and> starts_with nm ''__real_'' \<and> drop 7 nm \<in> arg_wrap ctx)"
    and "fst (get_symbol heap key nm) (GlobalSym key) = Some s"
  shows "wrap_symbol ctx heap esym key nm =
           (if is_undef esym \<and> is_wrapped s
            then (fst (get_symbol (fst (get_symbol heap key nm)) (''__wrap_'' @ key) (''__wrap_'' @ nm)),
                  GlobalSym (''__wrap_'' @ key))
            else (fst (get_symbol heap key nm), GlobalSym key))"
proof -
  have g: "get_symbol heap key nm = (fst (get_symbol heap key nm), GlobalSym key)"
    by (simp add: get_symbol_eq)
  have g2: "get_symbol (fst (get_symbol heap key nm)) (''__wrap_'' @ key) (''__wrap_'' @ nm) =
      (fst (get_symbol (fst (get_symbol heap key nm)) (''__wrap_'' @ key) (''__wrap_'' @ nm)),
       GlobalSym (''__wrap_'' @ key))"
    by (simp add: get_symbol_eq)
  show ?thesis
    unfolding wrap_symbol_def if_not_P[OF assms(1)]
    by (subst g, simp only: prod.case assms(2) option.case, subst g2, rule refl)
qed

lemma get_symbol_interns: "\<exists>s. fst (get_symbol heap key nm) (GlobalSym key) = Some s"
  by (cases "heap (GlobalSym key)") (simp_all add: get_symbol_fst)

lemma wrap_symbol_no_wrap_set:
  assumes "drop 7 nm \<notin> arg_wrap ctx"
  shows "wrap_symbol ctx heap esym key nm = wrap_symbol (ctx\<lparr>arg_wrap := {}\<rparr>) heap esym key nm"
  using assms by (simp add: wrap_symbol_def)

lemma wrap_symbol_names:
  assumes nf: "names_follow_keys heap" and p: "parse_symver str = (key, nm, sv)"
  shows "names_follow_keys (fst (wrap_symbol ctx heap esym key nm))"
proof -
  have kn: "takeWhile (\<lambda>c. c \<noteq> CHR ''@'') key = nm" using p by (rule parse_symver_key_name)
  show ?thesis
  proof (cases "is_undef esym \<and> starts_with nm ''__real_'' \<and> drop 7 nm \<in> arg_wrap ctx")
    case True
    then have w: "wrap_symbol ctx heap esym key nm =
           (fst (get_symbol heap (drop 7 key) (drop 7 nm)), GlobalSym (drop 7 key))"
      by (intro wrap_symbol_real) simp_all
    from True have "starts_with nm ''__real_''" by simp
    from real_key_name(1)[OF p this] nf show ?thesis
      unfolding w by (simp add: get_symbol_names)
  next
    case False
    obtain s where s: "fst (get_symbol heap key nm) (GlobalSym key) = Some s"
      using get_symbol_interns by blast
    have n1: "names_follow_keys (fst (get_symbol heap key nm))"
      using nf kn by (rule get_symbol_names)
    have n2: "names_follow_keys (fst (get_symbol (fst (get_symbol heap key nm))
                   (''__wrap_'' @ key) (''__wrap_'' @ nm)))"
      using n1 wrap_key_name[OF kn] by (rule get_symbol_names)
    show ?thesis
      unfolding wrap_symbol_ordinary[OF False s] using n1 n2 by simp
  qed
qed

lemma wrap_symbol_snd_interned:
  "\<exists>key'. snd (wrap_symbol ctx heap esym key nm) = GlobalSym key' \<and>
          fst (wrap_symbol ctx heap esym key nm) (GlobalSym key') \<noteq> None"
proof (cases "is_undef esym \<and> starts_with nm ''__real_'' \<and> drop 7 nm \<in> arg_wrap ctx")
  case True
  then have w: "wrap_symbol ctx heap esym key nm =
           (fst (get_symbol heap (drop 7 key) (drop 7 nm)), GlobalSym (drop 7 key))"
    by (intro wrap_symbol_real) simp_all
  show ?thesis unfolding w using get_symbol_interns[of heap "drop 7 key" "drop 7 nm"] by auto
next
  case False
  obtain s where s: "fst (get_symbol heap key nm) (GlobalSym key) = Some s"
    using get_symbol_interns by blast
  show ?thesis
    unfolding wrap_symbol_ordinary[OF False s]
    using s get_symbol_interns[of "fst (get_symbol heap key nm)" "''__wrap_'' @ key" "''__wrap_'' @ nm"]
    by auto
qed

lemma init_global_step_eq:
  assumes i: "i < length (elf_syms f)" and j: "i < length (symbols f)"
    and k: "i - first_global f < length (has_symver f)"
    and p: "parse_symver (st_name (elf_syms f ! i)) = (key, nm, sv)"
  shows "init_global_step ctx (f, heap) i =
     Inr (f\<lparr>has_common_symbol := (has_common_symbol f \<or> is_common (elf_syms f ! i)),
            has_symver := (if sv then (has_symver f)[i - first_global f := True] else has_symver f),
            symbols := (symbols f)[i := Some (snd (wrap_symbol ctx heap (elf_syms f ! i) key nm))]\<rparr>,
          fst (wrap_symbol ctx heap (elf_syms f ! i) key nm))"
proof -
  obtain h' r where w: "wrap_symbol ctx heap (elf_syms f ! i) key nm = (h', r)"
    by (cases "wrap_symbol ctx heap (elf_syms f ! i) key nm")
  show ?thesis
    using i j k
    by (cases "is_common (elf_syms f ! i)"; cases sv)
       (simp_all add: init_global_step_def at_in_range bind_err_simps p w Let_def)
qed

subsection \<open>Symbol materialization: every entry gets a symbol\<close>

lemma init_global_step_frame:
  assumes "init_global_step ctx (f, heap) i = Inr (f', heap')"
  shows "i < length (symbols f) \<and> elf_syms f' = elf_syms f \<and> first_global f' = first_global f \<and>
         (\<exists>r. symbols f' = (symbols f)[i := Some r])"
proof -
  from assms obtain esym where e: "at (elf_syms f) i = Inr esym"
    and r1: "(let f1 = (if is_common esym then f\<lparr>has_common_symbol := True\<rparr> else f) in
        case parse_symver (st_name esym) of (key, nm, symver) \<Rightarrow>
          bind_err (if symver
                    then (if i - first_global f1 < length (has_symver f1)
                          then Inr (f1\<lparr>has_symver := (has_symver f1)[i - first_global f1 := True]\<rparr>)
                          else Inl OutOfBounds)
                    else Inr f1) (\<lambda>f2.
            case wrap_symbol ctx heap esym key nm of (heap', r) \<Rightarrow>
              if i < length (symbols f2)
              then Inr (f2\<lparr>symbols := (symbols f2)[i := Some r]\<rparr>, heap')
              else Inl OutOfBounds)) = Inr (f', heap')"
    unfolding init_global_step_def prod.case by (auto elim: bind_err_InrE)
  obtain key nm sv where p: "parse_symver (st_name esym) = (key, nm, sv)"
    by (cases "parse_symver (st_name esym)")
  obtain h r where w: "wrap_symbol ctx heap esym key nm = (h, r)"
    by (cases "wrap_symbol ctx heap esym key nm")
  let ?f1 = "if is_common esym then f\<lparr>has_common_symbol := True\<rparr> else f"
  have f1: "symbols ?f1 = symbols f" "elf_syms ?f1 = elf_syms f" "first_global ?f1 = first_global f"
    by simp_all
  from r1 p w obtain f2 where
    f2: "(if sv
          then (if i - first_global ?f1 < length (has_symver ?f1)
                then Inr (?f1\<lparr>has_symver := (has_symver ?f1)[i - first_global ?f1 := True]\<rparr>)
                else Inl OutOfBounds)
          else Inr ?f1) = Inr f2"
    and r2: "(if i < length (symbols f2)
              then Inr (f2\<lparr>symbols := (symbols f2)[i := Some r]\<rparr>, h)
              else Inl OutOfBounds) = Inr (f', heap')"
    unfolding Let_def by (auto elim: bind_err_InrE)
  from f2 have f2': "symbols f2 = symbols f" "elf_syms f2 = elf_syms f"
    "first_global f2 = first_global f"
    by (auto split: if_splits)
  from r2 have "i < length (symbols f2)" and "f' = f2\<lparr>symbols := (symbols f2)[i := Some r]\<rparr>"
    by (auto split: if_splits)
  with f2' show ?thesis by auto
qed

lemma init_global_loop_symbols:
  "for_each (init_global_step ctx) is (f, heap) = Inr (f', heap') \<Longrightarrow>
   length (symbols f') = length (symbols f) \<and> elf_syms f' = elf_syms f \<and>
   (\<forall>j < length (symbols f). symbols f ! j \<noteq> None \<or> j \<in> set is \<longrightarrow> symbols f' ! j \<noteq> None)"
proof (induction "is" arbitrary: f heap)
  case Nil
  then show ?case by simp
next
  case (Cons i "is")
  from Cons.prems obtain st1 where s1: "init_global_step ctx (f, heap) i = Inr st1"
    and rest: "for_each (init_global_step ctx) is st1 = Inr (f', heap')"
    by (cases "init_global_step ctx (f, heap) i") simp_all
  obtain f1 h1 where st1: "st1 = (f1, h1)" by (cases st1)
  from init_global_step_frame[OF s1[unfolded st1]] obtain r where
    i: "i < length (symbols f)" and e: "elf_syms f1 = elf_syms f"
    and s: "symbols f1 = (symbols f)[i := Some r]"
    by blast
  from Cons.IH[OF rest[unfolded st1]] have
    ih: "length (symbols f') = length (symbols f1)" "elf_syms f' = elf_syms f1"
    "\<forall>j < length (symbols f1). symbols f1 ! j \<noteq> None \<or> j \<in> set is \<longrightarrow> symbols f' ! j \<noteq> None"
    by simp_all
  have "\<forall>j < length (symbols f). symbols f ! j \<noteq> None \<or> j \<in> set (i # is) \<longrightarrow> symbols f' ! j \<noteq> None"
  proof (intro allI impI)
    fix j assume j: "j < length (symbols f)" and c: "symbols f ! j \<noteq> None \<or> j \<in> set (i # is)"
    have j1: "j < length (symbols f1)" using j s by simp
    have "symbols f1 ! j \<noteq> None \<or> j \<in> set is"
      using c j s by (cases "j = i") auto
    from ih(3)[rule_format, OF j1 this] show "symbols f' ! j \<noteq> None" .
  qed
  with ih e s show ?case by simp
qed

lemma init_global_symbols_nonnull:
  assumes "init_global_symbols ctx this (f0, heap0) = Inr (f1, heap1)"
  shows "elf_syms f1 = elf_syms f0 \<and>
         (\<forall>j < length (elf_syms f0). j < length (symbols f1) \<and> symbols f1 ! j \<noteq> None)"
proof (cases "elf_syms f0 = []")
  case True
  with assms show ?thesis by (simp add: init_global_symbols_def)
next
  case False
  let ?n = "length (elf_syms f0)"
  let ?f = "f0\<lparr>symbols := map (\<lambda>i. if i < first_global f0 then Some (LocalSym this i) else None) [0 ..< ?n],
                   has_symver := replicate (?n - first_global f0) False\<rparr>"
  from assms False have le: "first_global f0 \<le> ?n"
    and loop: "for_each (init_global_step ctx) [first_global f0 ..< ?n] (?f, heap0) = Inr (f1, heap1)"
    by (auto simp: init_global_symbols_def Let_def split: if_splits)
  from init_global_loop_symbols[OF loop] have
    l: "length (symbols f1) = ?n" and e: "elf_syms f1 = elf_syms f0"
    and a: "\<forall>j < ?n. symbols ?f ! j \<noteq> None \<or> j \<in> set [first_global f0 ..< ?n] \<longrightarrow> symbols f1 ! j \<noteq> None"
    by simp_all
  have "\<forall>j < ?n. j < length (symbols f1) \<and> symbols f1 ! j \<noteq> None"
  proof (intro allI impI)
    fix j assume j: "j < ?n"
    have "symbols ?f ! j \<noteq> None \<or> j \<in> set [first_global f0 ..< ?n]"
      using j by (cases "j < first_global f0") simp_all
    from a[rule_format, OF j this] have "symbols f1 ! j \<noteq> None" .
    with j l show "j < length (symbols f1) \<and> symbols f1 ! j \<noteq> None" by simp
  qed
  with e show ?thesis by simp
qed

subsection \<open>Symbol materialization: the loop returns\<close>

lemmas wrap_defs = ctx_wrap_def undef_ref_def wrap_raw_def wrap_heap_def ctx0_def
  no_file_def null_esym_def

lemma names_follow_keys_wrap_heap: "names_follow_keys wrap_heap"
  by (simp add: names_follow_keys_def wrap_heap_def new_symbol_def)

lemma init_global_loop_total:
  "set is \<subseteq> {first_global f ..< length (elf_syms f)} \<Longrightarrow>
   length (symbols f) = length (elf_syms f) \<Longrightarrow>
   length (has_symver f) = length (elf_syms f) - first_global f \<Longrightarrow>
   \<exists>f' heap'. for_each (init_global_step ctx) is (f, heap) = Inr (f', heap')"
proof (induction "is" arbitrary: f heap)
  case Nil
  then show ?case by simp
next
  case (Cons i "is")
  from Cons.prems have i: "i < length (elf_syms f)" and g: "first_global f \<le> i" by simp_all
  with Cons.prems have j: "i < length (symbols f)" by simp
  from i g Cons.prems have k: "i - first_global f < length (has_symver f)"
    by simp
  obtain key nm sv where p: "parse_symver (st_name (elf_syms f ! i)) = (key, nm, sv)"
    by (cases "parse_symver (st_name (elf_syms f ! i))")
  define f1 where "f1 = f\<lparr>has_common_symbol := (has_common_symbol f \<or> is_common (elf_syms f ! i)),
            has_symver := (if sv then (has_symver f)[i - first_global f := True] else has_symver f),
            symbols := (symbols f)[i := Some (snd (wrap_symbol ctx heap (elf_syms f ! i) key nm))]\<rparr>"
  define h1 where "h1 = fst (wrap_symbol ctx heap (elf_syms f ! i) key nm)"
  have s: "init_global_step ctx (f, heap) i = Inr (f1, h1)"
    unfolding f1_def h1_def by (rule init_global_step_eq[OF i j k p])
  have e: "elf_syms f1 = elf_syms f" "first_global f1 = first_global f"
    "length (symbols f1) = length (symbols f)" "length (has_symver f1) = length (has_symver f)"
    by (simp_all add: f1_def)
  have "\<exists>f' heap'. for_each (init_global_step ctx) is (f1, h1) = Inr (f', heap')"
    using Cons.prems by (intro Cons.IH) (simp_all add: e)
  then show ?case by (simp add: s)
qed

lemma init_global_symbols_total:
  assumes "first_global f0 \<le> length (elf_syms f0)"
  shows "\<exists>f1 heap1. init_global_symbols ctx this (f0, heap0) = Inr (f1, heap1)"
proof (cases "elf_syms f0 = []")
  case True
  then show ?thesis by (simp add: init_global_symbols_def)
next
  case False
  let ?n = "length (elf_syms f0)"
  let ?f = "f0\<lparr>symbols := map (\<lambda>i. if i < first_global f0 then Some (LocalSym this i) else None) [0 ..< ?n],
                   has_symver := replicate (?n - first_global f0) False\<rparr>"
  have "\<exists>f' heap'. for_each (init_global_step ctx) [first_global ?f ..< length (elf_syms ?f)] (?f, heap0)
           = Inr (f', heap')"
    by (rule init_global_loop_total) simp_all
  with False assms show ?thesis by (simp add: init_global_symbols_def Let_def)
qed

subsection \<open>Symbol resolution: whole passes\<close>

lemma for_each_split:
  "for_each body (xs @ i # ys) h = Inr h' \<Longrightarrow>
   \<exists>h1 h2. for_each body xs h = Inr h1 \<and> body h1 i = Inr h2 \<and> for_each body ys h2 = Inr h'"
proof (induction xs arbitrary: h)
  case Nil
  then show ?case by (cases "body h i") simp_all
next
  case (Cons x xs)
  from Cons.prems obtain h0 where h0: "body h x = Inr h0"
    and rest: "for_each body (xs @ i # ys) h0 = Inr h'"
    by (cases "body h x") simp_all
  from Cons.IH[OF rest] h0 show ?case by simp
qed

lemma for_each_frame:
  assumes step: "\<And>h j h'. body h j = Inr h' \<Longrightarrow> P j \<Longrightarrow> \<forall>x\<in>X. h' x = h x"
  shows "for_each body js h = Inr h' \<Longrightarrow> \<forall>j\<in>set js. P j \<Longrightarrow> \<forall>x\<in>X. h' x = h x"
proof (induction js arbitrary: h)
  case Nil
  then show ?case by simp
next
  case (Cons j js)
  from Cons.prems(1) obtain h1 where h1: "body h j = Inr h1"
    and rest: "for_each body js h1 = Inr h'"
    by (cases "body h j") simp_all
  from Cons.prems(2) have "P j" and all: "\<forall>j\<in>set js. P j" by simp_all
  from step[OF h1 \<open>P j\<close>] Cons.IH[OF rest all] show ?case by simp
qed

lemma upt_split_at:
  assumes "m \<le> i" "i < n"
  shows "[m ..< n] = [m ..< i] @ i # [Suc i ..< n]"
proof -
  from assms have "[m ..< n] = [m ..< i] @ [i ..< n]"
    by (metis le_Suc_ex less_imp_le_nat upt_add_eq_append)
  also from assms have "[i ..< n] = i # [Suc i ..< n]" by (simp add: upt_conv_Cons)
  finally show ?thesis .
qed

lemma for_each_upt_at:
  assumes run: "for_each body [m ..< n] h = Inr h'" and i: "m \<le> i" "i < n"
    and step: "\<And>h j h'. body h j = Inr h' \<Longrightarrow> P j \<Longrightarrow> \<forall>x\<in>X. h' x = h x"
    and others: "\<forall>j. m \<le> j \<and> j < n \<and> j \<noteq> i \<longrightarrow> P j"
  shows "\<exists>h1 h2. (\<forall>x\<in>X. h1 x = h x) \<and> body h1 i = Inr h2 \<and> (\<forall>x\<in>X. h' x = h2 x)"
proof -
  from run obtain h1 h2 where a: "for_each body [m ..< i] h = Inr h1"
    and b: "body h1 i = Inr h2" and c: "for_each body [Suc i ..< n] h2 = Inr h'"
    unfolding upt_split_at[OF i] by (blast dest: for_each_split)
  have "\<forall>x\<in>X. h1 x = h x"
  proof (rule for_each_frame[where P=P and body=body])
    show "for_each body [m ..< i] h = Inr h1" by fact
    show "\<forall>j\<in>set [m ..< i]. P j" using others i by auto
    show "\<And>h j h'. body h j = Inr h' \<Longrightarrow> P j \<Longrightarrow> \<forall>x\<in>X. h' x = h x" by (rule step)
  qed
  moreover have "\<forall>x\<in>X. h' x = h2 x"
  proof (rule for_each_frame[where P=P and body=body])
    show "for_each body [Suc i ..< n] h2 = Inr h'" by fact
    show "\<forall>j\<in>set [Suc i ..< n]. P j" using others i by auto
    show "\<And>h j h'. body h j = Inr h' \<Longrightarrow> P j \<Longrightarrow> \<forall>x\<in>X. h' x = h x" by (rule step)
  qed
  ultimately show ?thesis using b by blast
qed

lemma dso_resolve_alias_frame:
  assumes ali: "dso_resolve_alias files this h1 i r esym = Inr h'"
    and x: "symbols2 (files this) ! i \<noteq> Some x"
  shows "h' x = h1 x"
proof -
  from dso_resolve_alias_result[OF ali] obtain p2 where p2: "at (symbols2 (files this)) i = Inr p2"
    and c: "if p2 \<noteq> None \<and> p2 \<noteq> Some r
            then \<exists>r2 s2 a b. p2 = Some r2 \<and> h1 r2 = Some s2 \<and>
                   get_rank (files this) esym False = Inr a \<and> get_rank_sym files s2 = Inr b \<and>
                   h' = (if a < b then h1(r2 \<mapsto> dso_overwrite_alias this i r s2) else h1)
            else h' = h1"
    by blast
  from p2 have q: "p2 = symbols2 (files this) ! i" by (simp add: at_Inr_iff)
  show ?thesis
  proof (cases "p2 \<noteq> None \<and> p2 \<noteq> Some r")
    case False
    with c show ?thesis by simp
  next
    case True
    from c[unfolded if_P[OF True]] obtain r2 s2 a b where y: "p2 = Some r2 \<and> h1 r2 = Some s2 \<and>
        get_rank (files this) esym False = Inr a \<and> get_rank_sym files s2 = Inr b \<and>
        h' = (if a < b then h1(r2 \<mapsto> dso_overwrite_alias this i r s2) else h1)"
      by (elim exE)
    then have "p2 = Some r2"
      and h: "h' = (if a < b then h1(r2 \<mapsto> dso_overwrite_alias this i r s2) else h1)"
      by simp_all
    with q x have "r2 \<noteq> x" by auto
    with h show ?thesis by simp
  qed
qed

lemma dso_resolve_step_shape:
  assumes step: "dso_resolve_step files this heap i = Inr h'"
  shows "\<exists>r s. symbols (files this) ! i = Some r \<and> heap r = Some s \<and>
           i < length (symbols (files this)) \<and> i < length (elf_syms (files this)) \<and>
           (if is_undef (elf_syms (files this) ! i) \<or> skip_dso s then h' = heap
            else \<exists>h1. dso_resolve_base files this heap i r s (elf_syms (files this) ! i) = Inr h1 \<and>
                   dso_resolve_alias files this h1 i r (elf_syms (files this) ! i) = Inr h')"
proof -
  let ?f = "files this"
  from step obtain p where p: "at (symbols ?f) i = Inr p"
    and r1: "bind_err (deref heap p) (\<lambda>(r, s).
     bind_err (at (elf_syms ?f) i) (\<lambda>esym.
       if is_undef esym \<or> skip_dso s then Inr heap
       else
         bind_err (dso_resolve_base files this heap i r s esym) (\<lambda>heap1.
           dso_resolve_alias files this heap1 i r esym))) = Inr h'"
    unfolding dso_resolve_step_def by (auto elim: bind_err_InrE)
  from r1 obtain rs where d: "deref heap p = Inr rs"
    and r2: "(case rs of (r, s) \<Rightarrow>
     bind_err (at (elf_syms ?f) i) (\<lambda>esym.
       if is_undef esym \<or> skip_dso s then Inr heap
       else
         bind_err (dso_resolve_base files this heap i r s esym) (\<lambda>heap1.
           dso_resolve_alias files this heap1 i r esym))) = Inr h'"
    by (auto elim: bind_err_InrE)
  obtain r s where rs: "rs = (r, s)" by (cases rs)
  from d rs have pr: "p = Some r" and hr: "heap r = Some s" by (simp_all add: deref_Inr_iff)
  from p pr have l1: "i < length (symbols ?f)" and sr: "symbols ?f ! i = Some r"
    by (simp_all add: at_Inr_iff)
  from r2 rs obtain esym where e: "at (elf_syms ?f) i = Inr esym"
    and r3: "(if is_undef esym \<or> skip_dso s then Inr heap
       else
         bind_err (dso_resolve_base files this heap i r s esym) (\<lambda>heap1.
           dso_resolve_alias files this heap1 i r esym)) = Inr h'"
    by (auto elim: bind_err_InrE)
  from e have l2: "i < length (elf_syms ?f)" and ee: "esym = elf_syms ?f ! i"
    by (simp_all add: at_Inr_iff)
  show ?thesis
  proof (cases "is_undef esym \<or> skip_dso s")
    case True
    with r3 sr hr l1 l2 ee show ?thesis by auto
  next
    case False
    with r3 obtain h1 where "dso_resolve_base files this heap i r s esym = Inr h1"
      and "dso_resolve_alias files this h1 i r esym = Inr h'"
      by (auto elim: bind_err_InrE)
    with False sr hr l1 l2 ee show ?thesis by auto
  qed
qed

lemma dso_resolve_step_frame:
  assumes step: "dso_resolve_step files this heap i = Inr h'"
    and x: "symbols (files this) ! i \<noteq> Some x \<and> symbols2 (files this) ! i \<noteq> Some x"
  shows "h' x = heap x"
proof -
  let ?e = "elf_syms (files this) ! i"
  from dso_resolve_step_shape[OF step] obtain r s where sr: "symbols (files this) ! i = Some r"
    and c: "if is_undef ?e \<or> skip_dso s then h' = heap
            else \<exists>h1. dso_resolve_base files this heap i r s ?e = Inr h1 \<and>
                   dso_resolve_alias files this h1 i r ?e = Inr h'"
    by blast
  show ?thesis
  proof (cases "is_undef ?e \<or> skip_dso s")
    case True
    with c show ?thesis by simp
  next
    case False
    from c[unfolded if_not_P[OF False]] obtain h1 where
      b: "dso_resolve_base files this heap i r s ?e = Inr h1"
      and a: "dso_resolve_alias files this h1 i r ?e = Inr h'"
      by blast
    from sr x have "x \<noteq> r" by auto
    from dso_resolve_base_frame[OF b this] dso_resolve_alias_frame[OF a] x
    show ?thesis by simp
  qed
qed

lemma dso_step_base:
  assumes cand: "dso_candidate (files this) heap i"
    and p: "symbols (files this) ! i = Some r" and hr: "heap r = Some s"
    and a: "get_rank (files this) (elf_syms (files this) ! i) False = Inr a"
    and b: "get_rank_sym files s = Inr b"
    and step: "dso_resolve_step files this heap i = Inr h'"
  shows "h' r = Some (if a < b
                      then dso_overwrite this i (elf_syms (files this) ! i) (versyms (files this) ! i) s
                      else s)"
proof -
  let ?e = "elf_syms (files this) ! i"
  have "bind_err (dso_resolve_base files this heap i r s ?e)
             (\<lambda>heap1. dso_resolve_alias files this heap1 i r ?e) = Inr h'"
    using dso_resolve_step_candidate[where files=files and this=this and heap=heap, OF cand p hr] step
    by simp
  then obtain h1 where base: "dso_resolve_base files this heap i r s ?e = Inr h1"
    and ali: "dso_resolve_alias files this h1 i r ?e = Inr h'"
    by (auto elim: bind_err_InrE)
  from dso_resolve_alias_keeps_base[OF ali] have k: "h' r = h1 r" .
  from dso_resolve_base_result[OF base] a b have
    c: "if a < b
        then \<exists>ver. at (versyms (files this)) i = Inr ver \<and>
               h1 = heap(r \<mapsto> dso_overwrite this i ?e ver s)
        else h1 = heap"
    by auto
  show ?thesis
  proof (cases "a < b")
    case True
    from c[unfolded if_P[OF True]] obtain ver where "at (versyms (files this)) i = Inr ver"
      and "h1 = heap(r \<mapsto> dso_overwrite this i ?e ver s)"
      by blast
    with k True show ?thesis by (simp add: at_Inr_iff)
  next
    case False
    with c k hr show ?thesis by simp
  qed
qed

lemma dso_candidate_cong:
  assumes "dso_candidate f heap i" "symbols f ! i = Some r" "h1 r = heap r"
  shows "dso_candidate f h1 i"
  using assms by (simp add: dso_candidate_def deref_def)

lemma dso_resolve_symbols_at:
  assumes pass: "dso_resolve_symbols files this heap = Inr heap'"
    and i: "i < length (symbols (files this))"
    and others: "\<forall>j < length (symbols (files this)). j \<noteq> i \<longrightarrow>
         (\<forall>x\<in>X. symbols (files this) ! j \<noteq> Some x \<and> symbols2 (files this) ! j \<noteq> Some x)"
  shows "\<exists>h1 h2. (\<forall>x\<in>X. h1 x = heap x) \<and> dso_resolve_step files this h1 i = Inr h2 \<and>
           (\<forall>x\<in>X. heap' x = h2 x)"
  using pass[unfolded dso_resolve_symbols_def] _ i
proof (rule for_each_upt_at[where
      P = "\<lambda>j. \<forall>x\<in>X. symbols (files this) ! j \<noteq> Some x \<and> symbols2 (files this) ! j \<noteq> Some x"])
  show "0 \<le> i" by simp
  show "\<And>h j h'. dso_resolve_step files this h j = Inr h' \<Longrightarrow>
       \<forall>x\<in>X. symbols (files this) ! j \<noteq> Some x \<and> symbols2 (files this) ! j \<noteq> Some x \<Longrightarrow>
       \<forall>x\<in>X. h' x = h x"
    by (blast intro: dso_resolve_step_frame)
  from others show "\<forall>j. 0 \<le> j \<and> j < length (symbols (files this)) \<and> j \<noteq> i \<longrightarrow>
        (\<forall>x\<in>X. symbols (files this) ! j \<noteq> Some x \<and> symbols2 (files this) ! j \<noteq> Some x)"
    by simp
qed

lemma dso_pass_base:
  assumes pass: "dso_resolve_symbols files this heap = Inr heap'"
    and cand: "dso_candidate (files this) heap i"
    and p: "symbols (files this) ! i = Some r" and hr: "heap r = Some s"
    and a: "get_rank (files this) (elf_syms (files this) ! i) False = Inr a"
    and b: "get_rank_sym files s = Inr b"
    and others: "\<forall>j < length (symbols (files this)). j \<noteq> i \<longrightarrow>
         symbols (files this) ! j \<noteq> Some r \<and> symbols2 (files this) ! j \<noteq> Some r"
  shows "heap' r = Some (if a < b
                      then dso_overwrite this i (elf_syms (files this) ! i) (versyms (files this) ! i) s
                      else s)"
proof -
  from cand have i: "i < length (symbols (files this))" by (simp add: dso_candidate_def)
  from others have o: "\<forall>j < length (symbols (files this)). j \<noteq> i \<longrightarrow>
         (\<forall>x\<in>{r}. symbols (files this) ! j \<noteq> Some x \<and> symbols2 (files this) ! j \<noteq> Some x)"
    by simp
  from dso_resolve_symbols_at[OF pass i o] obtain h1 h2 where h1: "h1 r = heap r"
    and step: "dso_resolve_step files this h1 i = Inr h2" and h2: "heap' r = h2 r"
    by auto
  have cand1: "dso_candidate (files this) h1 i" using cand p h1 by (rule dso_candidate_cong)
  from h1 hr have hr1: "h1 r = Some s" by simp
  from dso_step_base[OF cand1 p hr1 a b step] h2 show ?thesis by simp
qed

lemma dso_pass_alias:
  assumes pass: "dso_resolve_symbols files this heap = Inr heap'"
    and cand: "dso_candidate (files this) heap i"
    and p: "symbols (files this) ! i = Some r" and hr: "heap r = Some s"
    and p2: "symbols2 (files this) ! i = Some r2" and ne: "r2 \<noteq> r"
    and hr2: "heap r2 = Some s2"
    and a: "get_rank (files this) (elf_syms (files this) ! i) False = Inr a"
    and b2: "get_rank_sym files s2 = Inr b2"
    and others: "\<forall>j < length (symbols (files this)). j \<noteq> i \<longrightarrow>
         symbols (files this) ! j \<notin> {Some r, Some r2} \<and> symbols2 (files this) ! j \<notin> {Some r, Some r2}"
  shows "heap' r2 = Some (if a < b2 then dso_overwrite_alias this i r s2 else s2)"
proof -
  from cand have i: "i < length (symbols (files this))" by (simp add: dso_candidate_def)
  from others have o: "\<forall>j < length (symbols (files this)). j \<noteq> i \<longrightarrow>
         (\<forall>x\<in>{r, r2}. symbols (files this) ! j \<noteq> Some x \<and> symbols2 (files this) ! j \<noteq> Some x)"
    by auto
  from dso_resolve_symbols_at[OF pass i o] obtain h1 h2 where h1: "h1 r = heap r" "h1 r2 = heap r2"
    and step: "dso_resolve_step files this h1 i = Inr h2" and h2: "heap' r2 = h2 r2"
    by auto
  have cand1: "dso_candidate (files this) h1 i" using cand p h1(1) by (rule dso_candidate_cong)
  from h1 hr hr2 have hr1: "h1 r = Some s" "h1 r2 = Some s2" by simp_all
  from dso_step_alias[OF cand1 p hr1(1) p2 ne hr1(2) a b2 step] h2 show ?thesis by simp
qed

lemma obj_resolve_step_frame:
  assumes step: "obj_resolve_step ctx files this heap i = Inr h'"
    and x: "symbols (files this) ! i \<noteq> Some x"
  shows "h' x = heap x"
proof -
  let ?f = "files this"
  from step obtain p where p: "at (symbols ?f) i = Inr p"
    and r1: "bind_err (deref heap p) (\<lambda>(r, s).
     bind_err (at (elf_syms ?f) i) (\<lambda>esym.
       if is_undef esym then Inr heap
       else if \<not> is_abs esym \<and> \<not> is_common esym then
         bind_err (at (sections ?f) (get_shndx ?f i)) (\<lambda>isec.
           case isec of
             None \<Rightarrow> Inr heap
           | Some sec \<Rightarrow>
               if \<not> is_alive sec then Inr heap
               else obj_resolve_at ctx files this heap i r s esym (Some (get_shndx ?f i)))
       else obj_resolve_at ctx files this heap i r s esym None)) = Inr h'"
    unfolding obj_resolve_step_def by (rule bind_err_InrE)
  from r1 obtain rs where d: "deref heap p = Inr rs"
    and r2: "(case rs of (r, s) \<Rightarrow>
     bind_err (at (elf_syms ?f) i) (\<lambda>esym.
       if is_undef esym then Inr heap
       else if \<not> is_abs esym \<and> \<not> is_common esym then
         bind_err (at (sections ?f) (get_shndx ?f i)) (\<lambda>isec.
           case isec of
             None \<Rightarrow> Inr heap
           | Some sec \<Rightarrow>
               if \<not> is_alive sec then Inr heap
               else obj_resolve_at ctx files this heap i r s esym (Some (get_shndx ?f i)))
       else obj_resolve_at ctx files this heap i r s esym None)) = Inr h'"
    by (rule bind_err_InrE)
  obtain r s where rs: "rs = (r, s)" by (cases rs)
  from d rs have pr: "p = Some r" by (simp add: deref_Inr_iff)
  with p x have rx: "r \<noteq> x" by (auto simp: at_Inr_iff)
  from r2 rs obtain esym where e: "at (elf_syms ?f) i = Inr esym"
    and r3: "(if is_undef esym then Inr heap
       else if \<not> is_abs esym \<and> \<not> is_common esym then
         bind_err (at (sections ?f) (get_shndx ?f i)) (\<lambda>isec.
           case isec of
             None \<Rightarrow> Inr heap
           | Some sec \<Rightarrow>
               if \<not> is_alive sec then Inr heap
               else obj_resolve_at ctx files this heap i r s esym (Some (get_shndx ?f i)))
       else obj_resolve_at ctx files this heap i r s esym None) = Inr h'"
    by (auto elim: bind_err_InrE)
  have "h' = heap \<or> (\<exists>isec. obj_resolve_at ctx files this heap i r s esym isec = Inr h')"
  proof (cases "is_undef esym")
    case True
    with r3 show ?thesis by simp
  next
    case nu: False
    show ?thesis
    proof (cases "\<not> is_abs esym \<and> \<not> is_common esym")
      case False
      with nu r3 show ?thesis by auto
    next
      case True
      with nu r3 obtain isec where "at (sections ?f) (get_shndx ?f i) = Inr isec"
        and r4: "(case isec of
             None \<Rightarrow> Inr heap
           | Some sec \<Rightarrow>
               if \<not> is_alive sec then Inr heap
               else obj_resolve_at ctx files this heap i r s esym (Some (get_shndx ?f i))) = Inr h'"
        by (auto elim: bind_err_InrE)
      from r4 show ?thesis by (cases isec) (auto split: if_splits)
    qed
  qed
  then show ?thesis
  proof
    assume "h' = heap"
    then show ?thesis by simp
  next
    assume "\<exists>isec. obj_resolve_at ctx files this heap i r s esym isec = Inr h'"
    then obtain isec where "obj_resolve_at ctx files this heap i r s esym isec = Inr h'" ..
    from obj_resolve_at_result[OF this] rx show ?thesis by auto
  qed
qed

lemma obj_pass_at:
  assumes pass: "obj_resolve_symbols ctx files this heap = Inr heap'"
    and cand: "obj_candidate (files this) i"
    and p: "at (symbols (files this)) i = Inr (Some r)" and hr: "heap r = Some s"
    and a: "get_rank (files this) (elf_syms (files this) ! i) (\<not> is_reachable (files this)) = Inr a"
    and b: "get_rank_sym files s = Inr b"
    and others: "\<forall>j. first_global (files this) \<le> j \<and> j < length (elf_syms (files this)) \<and> j \<noteq> i \<longrightarrow>
         symbols (files this) ! j \<noteq> Some r"
  shows "heap' r = Some (if a < b
                      then obj_overwrite ctx this i (elf_syms (files this) ! i) (obj_isec (files this) i) s
                      else s)"
proof -
  from cand have i: "first_global (files this) \<le> i" "i < length (elf_syms (files this))"
    by (simp_all add: obj_candidate_def)
  have "\<exists>h1 h2. (\<forall>x\<in>{r}. h1 x = heap x) \<and> obj_resolve_step ctx files this h1 i = Inr h2 \<and>
           (\<forall>x\<in>{r}. heap' x = h2 x)"
    using pass[unfolded obj_resolve_symbols_def] i
  proof (rule for_each_upt_at[where P = "\<lambda>j. symbols (files this) ! j \<noteq> Some r"])
    show "\<And>h j h'. obj_resolve_step ctx files this h j = Inr h' \<Longrightarrow>
       symbols (files this) ! j \<noteq> Some r \<Longrightarrow> \<forall>x\<in>{r}. h' x = h x"
      by (simp add: obj_resolve_step_frame)
    from others show "\<forall>j. first_global (files this) \<le> j \<and> j < length (elf_syms (files this)) \<and> j \<noteq> i \<longrightarrow>
        symbols (files this) ! j \<noteq> Some r"
      by simp
  qed
  then obtain h1 h2 where h1: "h1 r = heap r"
    and step: "obj_resolve_step ctx files this h1 i = Inr h2" and h2: "heap' r = h2 r"
    by auto
  from h1 hr have hr1: "h1 r = Some s" by simp
  from obj_resolve_step_overwrites(1)[where ctx=ctx and heap=h1, OF cand p hr1 a b] step
  have "h2 = (if a < b
              then h1(r \<mapsto> obj_overwrite ctx this i (elf_syms (files this) ! i) (obj_isec (files this) i) s)
              else h1)"
    by simp
  with h2 hr1 show ?thesis by simp
qed

subsection \<open>Symbol resolution: the weak flag of the winner\<close>

text \<open>
  Claim C10. In a pass of \<^verbatim>\<open>SharedFile::resolve_symbols\<close> over a shared object, take an
  entry \<open>i\<close> that the loop does not skip and whose symbols no other entry of the file refers
  to. When the rank of the entry is strictly smaller than the rank of its symbol
  \<^verbatim>\<open>symbols[i]\<close>, the pass ends with the shared object as file and \<open>i\<close> as index of that
  symbol and with the symbol weak, whatever the binding of the entry; otherwise the symbol
  is as before. When the rank of the entry is strictly smaller than the rank of the alias
  \<^verbatim>\<open>symbols2[i]\<close>, the pass ends with the shared object as file and \<open>i\<close> as index of the
  alias too, and the alias is weak exactly if it was weak before the pass. In a pass of
  \<^verbatim>\<open>ObjectFile::resolve_symbols\<close>, for an entry that takes part and whose symbol no
  other global entry refers to: when its rank is strictly smaller, the pass ends with the
  object as file and \<open>i\<close> as index of the symbol, weak exactly when the binding of the entry
  is \<^verbatim>\<open>STB_WEAK\<close>; otherwise the symbol is as before.
\<close>

theorem dso_winner_is_weak:
  "(dso_resolve_symbols files this heap = Inr heap' \<and>
    dso_candidate (files this) heap i \<and> symbols (files this) ! i = Some r \<and> heap r = Some s \<and>
    get_rank (files this) (elf_syms (files this) ! i) False = Inr a \<and>
    get_rank_sym files s = Inr b \<and>
    (\<forall>j < length (symbols (files this)). j \<noteq> i \<longrightarrow>
       symbols (files this) ! j \<noteq> Some r \<and> symbols2 (files this) ! j \<noteq> Some r) \<longrightarrow>
      (\<exists>s'. heap' r = Some s' \<and>
         (if a < b then sym_file s' = Some this \<and> sym_idx s' = int i \<and> is_weak s' else s' = s))) \<and>
   (dso_resolve_symbols files this heap = Inr heap' \<and>
    dso_candidate (files this) heap i \<and> symbols (files this) ! i = Some r \<and> heap r = Some s \<and>
    symbols2 (files this) ! i = Some r2 \<and> r2 \<noteq> r \<and> heap r2 = Some s2 \<and>
    get_rank (files this) (elf_syms (files this) ! i) False = Inr a \<and>
    get_rank_sym files s2 = Inr b2 \<and>
    (\<forall>j < length (symbols (files this)). j \<noteq> i \<longrightarrow>
       symbols (files this) ! j \<notin> {Some r, Some r2} \<and>
       symbols2 (files this) ! j \<notin> {Some r, Some r2}) \<longrightarrow>
      (\<exists>s'. heap' r2 = Some s' \<and> is_weak s' = is_weak s2 \<and>
         (if a < b2 then sym_file s' = Some this \<and> sym_idx s' = int i else s' = s2))) \<and>
   (obj_resolve_symbols ctx files this heap = Inr heap' \<and>
    obj_candidate (files this) i \<and> at (symbols (files this)) i = Inr (Some r) \<and>
    heap r = Some s \<and>
    get_rank (files this) (elf_syms (files this) ! i) (\<not> is_reachable (files this)) = Inr a \<and>
    get_rank_sym files s = Inr b \<and>
    (\<forall>j. first_global (files this) \<le> j \<and> j < length (elf_syms (files this)) \<and> j \<noteq> i \<longrightarrow>
       symbols (files this) ! j \<noteq> Some r) \<longrightarrow>
      (\<exists>s'. heap' r = Some s' \<and>
         (if a < b
          then sym_file s' = Some this \<and> sym_idx s' = int i \<and>
               is_weak s' = (st_bind (elf_syms (files this) ! i) = STB_WEAK)
          else s' = s)))"
proof (intro conjI impI)
  assume h: "dso_resolve_symbols files this heap = Inr heap' \<and>
    dso_candidate (files this) heap i \<and> symbols (files this) ! i = Some r \<and> heap r = Some s \<and>
    get_rank (files this) (elf_syms (files this) ! i) False = Inr a \<and>
    get_rank_sym files s = Inr b \<and>
    (\<forall>j < length (symbols (files this)). j \<noteq> i \<longrightarrow>
       symbols (files this) ! j \<noteq> Some r \<and> symbols2 (files this) ! j \<noteq> Some r)"
  then have "heap' r = Some (if a < b
                      then dso_overwrite this i (elf_syms (files this) ! i) (versyms (files this) ! i) s
                      else s)"
    by (intro dso_pass_base[where heap=heap and files=files]) simp_all
  then show "\<exists>s'. heap' r = Some s' \<and>
         (if a < b then sym_file s' = Some this \<and> sym_idx s' = int i \<and> is_weak s' else s' = s)"
    by (simp add: dso_overwrite_fields)
next
  assume h: "dso_resolve_symbols files this heap = Inr heap' \<and>
    dso_candidate (files this) heap i \<and> symbols (files this) ! i = Some r \<and> heap r = Some s \<and>
    symbols2 (files this) ! i = Some r2 \<and> r2 \<noteq> r \<and> heap r2 = Some s2 \<and>
    get_rank (files this) (elf_syms (files this) ! i) False = Inr a \<and>
    get_rank_sym files s2 = Inr b2 \<and>
    (\<forall>j < length (symbols (files this)). j \<noteq> i \<longrightarrow>
       symbols (files this) ! j \<notin> {Some r, Some r2} \<and>
       symbols2 (files this) ! j \<notin> {Some r, Some r2})"
  then have "heap' r2 = Some (if a < b2 then dso_overwrite_alias this i r s2 else s2)"
    by (intro dso_pass_alias[where heap=heap and s=s and files=files]) simp_all
  then show "\<exists>s'. heap' r2 = Some s' \<and> is_weak s' = is_weak s2 \<and>
         (if a < b2 then sym_file s' = Some this \<and> sym_idx s' = int i else s' = s2)"
    by (simp add: dso_overwrite_alias_def)
next
  assume h: "obj_resolve_symbols ctx files this heap = Inr heap' \<and>
    obj_candidate (files this) i \<and> at (symbols (files this)) i = Inr (Some r) \<and>
    heap r = Some s \<and>
    get_rank (files this) (elf_syms (files this) ! i) (\<not> is_reachable (files this)) = Inr a \<and>
    get_rank_sym files s = Inr b \<and>
    (\<forall>j. first_global (files this) \<le> j \<and> j < length (elf_syms (files this)) \<and> j \<noteq> i \<longrightarrow>
       symbols (files this) ! j \<noteq> Some r)"
  then have "heap' r = Some (if a < b
                      then obj_overwrite ctx this i (elf_syms (files this) ! i) (obj_isec (files this) i) s
                      else s)"
    by (intro obj_pass_at[where heap=heap and files=files]) simp_all
  then show "\<exists>s'. heap' r = Some s' \<and>
         (if a < b
          then sym_file s' = Some this \<and> sym_idx s' = int i \<and>
               is_weak s' = (st_bind (elf_syms (files this) ! i) = STB_WEAK)
          else s' = s)"
    by (simp add: obj_overwrite_fields)
qed

text \<open>
  The shared object \<open>libv_so\<close> exports \<open>foo@@V1\<close> with binding \<^verbatim>\<open>STB_GLOBAL\<close>. Its
  pass installs its definition as the winner of the alias \<open>foo@V1\<close>, and the alias
  is not recorded as weak.
\<close>

theorem dso_alias_winner_not_weak:
  "\<exists>h' s'. dso_resolve_symbols libv_files 3 libv_heap = Inr h' \<and>
      h' (GlobalSym ''foo@V1'') = Some s' \<and> sym_file s' = Some 3 \<and> sym_idx s' = 0 \<and>
      \<not> is_weak s'"
  by (simp add: dso_resolve_symbols_def libv_files_def libv_defs elf_defs resolve_defs upt_rec)

text \<open>
  \<open>libz_so\<close> exports \<open>foo\<close> with binding \<^verbatim>\<open>STB_GLOBAL\<close> and its pass leaves the symbol
  weak; the pass of \<open>libv_so\<close> leaves the alias \<open>foo@V1\<close> as weak as it was, that is not
  weak; \<open>x_o\<close> defines \<open>foo\<close> with binding \<^verbatim>\<open>STB_GLOBAL\<close> and its pass leaves the
  symbol not weak.
\<close>

theorem dso_winner_is_weak_witness:
  "st_bind (elf_syms (three_files 2) ! 0) = STB_GLOBAL \<and>
   (\<exists>h' s'. dso_resolve_symbols three_files 2 foo_unresolved = Inr h' \<and>
      h' (GlobalSym ''foo'') = Some s' \<and> sym_file s' = Some 2 \<and> sym_idx s' = int 0 \<and> is_weak s') \<and>
   (\<exists>h' s'. dso_resolve_symbols libv_files 3 libv_heap = Inr h' \<and>
      h' (GlobalSym ''foo@V1'') = Some s' \<and> sym_file s' = Some 3 \<and> sym_idx s' = int 0 \<and>
      is_weak s' = is_weak (new_symbol ''foo'')) \<and>
   st_bind (elf_syms (three_files 0) ! 1) = STB_GLOBAL \<and>
   (\<exists>h' s'. obj_resolve_symbols ctx0 three_files 0 foo_unresolved = Inr h' \<and>
      h' (GlobalSym ''foo'') = Some s' \<and> sym_file s' = Some 0 \<and> sym_idx s' = int 1 \<and> \<not> is_weak s')"
proof -
  have b: "get_rank_sym three_files (new_symbol ''foo'') = Inr 117440512"
    by (simp add: scenario_defs elf_defs resolve_defs)
  have hr: "foo_unresolved (GlobalSym ''foo'') = Some (new_symbol ''foo'')"
    by (simp add: scenario_defs)
  have c2: "dso_candidate (three_files 2) foo_unresolved 0"
    by (simp add: dso_candidate_def scenario_defs elf_defs deref_def)
  have p2: "symbols (three_files 2) ! 0 = Some (GlobalSym ''foo'')"
    by (simp add: scenario_defs)
  have a2: "get_rank (three_files 2) (elf_syms (three_files 2) ! 0) False = Inr 50341650"
    by (simp add: scenario_defs elf_defs resolve_defs)
  have lt2: "(50341650 :: u64) < 117440512" by simp
  have u2: "\<forall>j < length (symbols (three_files 2)). j \<noteq> 0 \<longrightarrow>
       symbols (three_files 2) ! j \<noteq> Some (GlobalSym ''foo'') \<and>
       symbols2 (three_files 2) ! j \<noteq> Some (GlobalSym ''foo'')"
    by (simp add: scenario_defs)
  obtain h2 where s2: "dso_resolve_symbols three_files 2 foo_unresolved = Inr h2"
    by (simp add: dso_resolve_symbols_def scenario_defs elf_defs resolve_defs)
  have "\<exists>s'. h2 (GlobalSym ''foo'') = Some s' \<and>
         (if (50341650 :: u64) < 117440512
          then sym_file s' = Some 2 \<and> sym_idx s' = int 0 \<and> is_weak s' else s' = new_symbol ''foo'')"
    by (rule dso_winner_is_weak[where files=three_files and this=2 and i=0 and heap=foo_unresolved
          and r="GlobalSym ''foo''" and s="new_symbol ''foo''" and a=50341650 and b=117440512
          and heap'=h2, THEN conjunct1, THEN mp])
       (intro conjI s2 c2 p2 hr a2 b u2)
  then have d: "\<exists>s'. h2 (GlobalSym ''foo'') = Some s' \<and> sym_file s' = Some 2 \<and>
       sym_idx s' = int 0 \<and> is_weak s'"
    unfolding if_P[OF lt2] .
  have cv: "dso_candidate (libv_files 3) libv_heap 0"
    by (simp add: dso_candidate_def libv_files_def libv_defs elf_defs deref_def)
  have pv: "symbols (libv_files 3) ! 0 = Some (GlobalSym ''foo'')"
    "libv_heap (GlobalSym ''foo'') = Some (new_symbol ''foo'')"
    "symbols2 (libv_files 3) ! 0 = Some (GlobalSym ''foo@V1'')"
    "GlobalSym ''foo@V1'' \<noteq> GlobalSym ''foo''"
    "libv_heap (GlobalSym ''foo@V1'') = Some (new_symbol ''foo'')"
    by (simp_all add: libv_files_def libv_so_def libv_heap_def)
  have av: "get_rank (libv_files 3) (elf_syms (libv_files 3) ! 0) False = Inr 50341651"
    by (simp add: libv_files_def libv_defs elf_defs resolve_defs)
  have bv: "get_rank_sym libv_files (new_symbol ''foo'') = Inr 117440512"
    by (simp add: libv_defs resolve_defs)
  have ltv: "(50341651 :: u64) < 117440512" by simp
  have uv: "\<forall>j < length (symbols (libv_files 3)). j \<noteq> 0 \<longrightarrow>
       symbols (libv_files 3) ! j \<notin> {Some (GlobalSym ''foo''), Some (GlobalSym ''foo@V1'')} \<and>
       symbols2 (libv_files 3) ! j \<notin> {Some (GlobalSym ''foo''), Some (GlobalSym ''foo@V1'')}"
    by (simp add: libv_files_def libv_so_def less_Suc_eq)
  obtain hv where sv: "dso_resolve_symbols libv_files 3 libv_heap = Inr hv"
    by (simp add: dso_resolve_symbols_def libv_files_def libv_defs elf_defs resolve_defs upt_rec)
  have "\<exists>s'. hv (GlobalSym ''foo@V1'') = Some s' \<and> is_weak s' = is_weak (new_symbol ''foo'') \<and>
         (if (50341651 :: u64) < 117440512
          then sym_file s' = Some 3 \<and> sym_idx s' = int 0 else s' = new_symbol ''foo'')"
    by (rule dso_winner_is_weak[where files=libv_files and this=3 and i=0 and heap=libv_heap
          and r="GlobalSym ''foo''" and s="new_symbol ''foo''" and ?r2.0="GlobalSym ''foo@V1''"
          and ?s2.0="new_symbol ''foo''" and a=50341651 and ?b2.0=117440512
          and heap'=hv, THEN conjunct2, THEN conjunct1, THEN mp])
       (intro conjI sv cv pv av bv uv)
  then have v: "\<exists>s'. hv (GlobalSym ''foo@V1'') = Some s' \<and> sym_file s' = Some 3 \<and>
       sym_idx s' = int 0 \<and> is_weak s' = is_weak (new_symbol ''foo'')"
    unfolding if_P[OF ltv] by blast
  have c0: "obj_candidate (three_files 0) 1"
    by (simp add: obj_candidate_def scenario_defs elf_defs)
  have p0: "at (symbols (three_files 0)) 1 = Inr (Some (GlobalSym ''foo''))"
    by (simp add: scenario_defs at_def)
  have a0: "get_rank (three_files 0) (elf_syms (three_files 0) ! 1) (\<not> is_reachable (three_files 0))
            = Inr 83896080"
    by (simp add: scenario_defs elf_defs resolve_defs)
  have lt0: "(83896080 :: u64) < 117440512" by simp
  have u0: "\<forall>j. first_global (three_files 0) \<le> j \<and> j < length (elf_syms (three_files 0)) \<and> j \<noteq> 1 \<longrightarrow>
       symbols (three_files 0) ! j \<noteq> Some (GlobalSym ''foo'')"
    by (auto simp: scenario_defs)
  have bind: "st_bind (elf_syms (three_files 2) ! 0) = STB_GLOBAL"
    "st_bind (elf_syms (three_files 0) ! 1) = STB_GLOBAL"
    "(st_bind (elf_syms (three_files 0) ! 1) = STB_WEAK) = False"
    by (simp_all add: scenario_defs elf_defs)
  obtain h0 where s0: "obj_resolve_symbols ctx0 three_files 0 foo_unresolved = Inr h0"
    by (simp add: obj_resolve_symbols_def scenario_defs elf_defs resolve_defs upt_rec)
  have "\<exists>s'. h0 (GlobalSym ''foo'') = Some s' \<and>
         (if (83896080 :: u64) < 117440512
          then sym_file s' = Some 0 \<and> sym_idx s' = int 1 \<and>
               is_weak s' = (st_bind (elf_syms (three_files 0) ! 1) = STB_WEAK)
          else s' = new_symbol ''foo'')"
    by (rule dso_winner_is_weak[where files=three_files and this=0 and i=1 and heap=foo_unresolved
          and r="GlobalSym ''foo''" and s="new_symbol ''foo''" and a=83896080 and b=117440512
          and ctx=ctx0 and heap'=h0, THEN conjunct2, THEN conjunct2, THEN mp])
       (intro conjI s0 c0 p0 hr a0 b u0)
  then have o: "\<exists>s'. h0 (GlobalSym ''foo'') = Some s' \<and> sym_file s' = Some 0 \<and>
       sym_idx s' = int 1 \<and> \<not> is_weak s'"
    unfolding if_P[OF lt0] bind(3) by simp
  from d s2 v sv o s0 bind(1,2) show ?thesis by blast
qed

subsection \<open>Shared objects: the whole of parsing\<close>

lemma get_symbol_keeps: "heap x \<noteq> None \<Longrightarrow> fst (get_symbol heap key nm) x = heap x"
  by (auto simp: get_symbol_eq)

lemma get_versioned_sym_result:
  assumes "get_versioned_sym version_strings heap nm ver = Inr (heap', r)"
  shows "\<forall>x. heap x \<noteq> None \<longrightarrow> heap' x = heap x"
proof -
  from assms obtain vs where "Inr (get_symbol heap (nm @ ''@'' @ vs) nm) = Inr (heap', r)"
    unfolding get_versioned_sym_def by (auto elim: bind_err_InrE)
  then have "heap' = fst (get_symbol heap (nm @ ''@'' @ vs) nm)" by (simp add: fst_def)
  then show ?thesis by (simp add: get_symbol_keeps)
qed

lemma dso_parse_step_shape:
  assumes step: "dso_parse_step esyms vers version_strings (f, heap) i = Inr (f', heap')"
  shows "(\<forall>x. heap x \<noteq> None \<longrightarrow> heap' x = heap x) \<and>
         (f' = f \<or>
          (\<exists>e v r p2. f' = f\<lparr>elf_syms2 := elf_syms2 f @ [e], versyms := versyms f @ [v],
                               symbols := symbols f @ [Some r], symbols2 := symbols2 f @ [p2]\<rparr>))"
proof -
  from step obtain esym where e: "at esyms i = Inr esym"
    and r1: "bind_err (if vers = [] \<or> is_undef esym then Inr VER_NDX_GLOBAL
                else bind_err (at vers i) (\<lambda>v. Inr (v AND NOT VERSYM_HIDDEN))) (\<lambda>ver.
        if ver = VER_NDX_LOCAL then Inr (f, heap)
        else
          let f1 = f\<lparr>elf_syms2 := elf_syms2 f @ [esym], versyms := versyms f @ [ver]\<rparr>;
              nm = st_name esym
          in
          if vers = [] \<or> ver = VER_NDX_GLOBAL then
            (case get_symbol_key heap nm of (heap1, r) \<Rightarrow>
               Inr (f1\<lparr>symbols := symbols f1 @ [Some r], symbols2 := symbols2 f1 @ [None]\<rparr>, heap1))
          else
            bind_err (at vers i) (\<lambda>v.
              if v AND VERSYM_HIDDEN \<noteq> 0 then
                bind_err (get_versioned_sym version_strings heap nm ver) (\<lambda>(heap1, r).
                  Inr (f1\<lparr>symbols := symbols f1 @ [Some r], symbols2 := symbols2 f1 @ [None]\<rparr>,
                       heap1))
              else
                (case get_symbol_key heap nm of (heap1, r) \<Rightarrow>
                   bind_err (get_versioned_sym version_strings heap1 nm ver) (\<lambda>(heap2, r2).
                     Inr (f1\<lparr>symbols := symbols f1 @ [Some r],
                             symbols2 := symbols2 f1 @ [Some r2]\<rparr>, heap2))))) = Inr (f', heap')"
    unfolding dso_parse_step_def prod.case by (auto elim: bind_err_InrE)
  from r1 obtain ver where
    r2: "(if ver = VER_NDX_LOCAL then Inr (f, heap)
        else
          let f1 = f\<lparr>elf_syms2 := elf_syms2 f @ [esym], versyms := versyms f @ [ver]\<rparr>;
              nm = st_name esym
          in
          if vers = [] \<or> ver = VER_NDX_GLOBAL then
            (case get_symbol_key heap nm of (heap1, r) \<Rightarrow>
               Inr (f1\<lparr>symbols := symbols f1 @ [Some r], symbols2 := symbols2 f1 @ [None]\<rparr>, heap1))
          else
            bind_err (at vers i) (\<lambda>v.
              if v AND VERSYM_HIDDEN \<noteq> 0 then
                bind_err (get_versioned_sym version_strings heap nm ver) (\<lambda>(heap1, r).
                  Inr (f1\<lparr>symbols := symbols f1 @ [Some r], symbols2 := symbols2 f1 @ [None]\<rparr>,
                       heap1))
              else
                (case get_symbol_key heap nm of (heap1, r) \<Rightarrow>
                   bind_err (get_versioned_sym version_strings heap1 nm ver) (\<lambda>(heap2, r2).
                     Inr (f1\<lparr>symbols := symbols f1 @ [Some r],
                             symbols2 := symbols2 f1 @ [Some r2]\<rparr>, heap2))))) = Inr (f', heap')"
    by (rule bind_err_InrE)
  let ?f1 = "f\<lparr>elf_syms2 := elf_syms2 f @ [esym], versyms := versyms f @ [ver]\<rparr>"
  let ?nm = "st_name esym"
  let ?h1 = "fst (get_symbol_key heap ?nm)"
  let ?r = "snd (get_symbol_key heap ?nm)"
  have k1: "\<forall>x. heap x \<noteq> None \<longrightarrow> ?h1 x = heap x"
    by (simp add: get_symbol_key_def get_symbol_keeps)
  show ?thesis
  proof (cases "ver = VER_NDX_LOCAL")
    case True
    with r2 show ?thesis by simp
  next
    case nl: False
    show ?thesis
    proof (cases "vers = [] \<or> ver = VER_NDX_GLOBAL")
      case True
      with nl r2 have "f' = f\<lparr>elf_syms2 := elf_syms2 f @ [esym], versyms := versyms f @ [ver],
                      symbols := symbols f @ [Some ?r], symbols2 := symbols2 f @ [None]\<rparr>"
        and hh: "heap' = ?h1"
        by (simp_all add: Let_def split_beta)
      then have "\<exists>e v r p2. f' = f\<lparr>elf_syms2 := elf_syms2 f @ [e], versyms := versyms f @ [v],
                               symbols := symbols f @ [Some r], symbols2 := symbols2 f @ [p2]\<rparr>" by blast
      with k1 hh show ?thesis by blast
    next
      case ng: False
      with nl r2 obtain v where v: "at vers i = Inr v"
        and r3: "(if v AND VERSYM_HIDDEN \<noteq> 0 then
                bind_err (get_versioned_sym version_strings heap ?nm ver) (\<lambda>(heap1, r).
                  Inr (?f1\<lparr>symbols := symbols ?f1 @ [Some r], symbols2 := symbols2 ?f1 @ [None]\<rparr>,
                       heap1))
              else
                (case get_symbol_key heap ?nm of (heap1, r) \<Rightarrow>
                   bind_err (get_versioned_sym version_strings heap1 ?nm ver) (\<lambda>(heap2, r2).
                     Inr (?f1\<lparr>symbols := symbols ?f1 @ [Some r],
                             symbols2 := symbols2 ?f1 @ [Some r2]\<rparr>, heap2)))) = Inr (f', heap')"
        unfolding Let_def by (auto elim: bind_err_InrE)
      show ?thesis
      proof (cases "v AND VERSYM_HIDDEN \<noteq> 0")
        case True
        with r3 obtain hr where g: "get_versioned_sym version_strings heap ?nm ver = Inr hr"
          and r4: "(case hr of (heap1, r) \<Rightarrow>
                  Inr (?f1\<lparr>symbols := symbols ?f1 @ [Some r], symbols2 := symbols2 ?f1 @ [None]\<rparr>,
                       heap1)) = Inr (f', heap')"
          by (auto elim: bind_err_InrE)
        obtain h1 r where hr: "hr = (h1, r)" by (cases hr)
        from r4 hr have "f' = f\<lparr>elf_syms2 := elf_syms2 f @ [esym], versyms := versyms f @ [ver],
                      symbols := symbols f @ [Some r], symbols2 := symbols2 f @ [None]\<rparr>"
          and hh: "heap' = h1"
          by simp_all
        then have "\<exists>e v r p2. f' = f\<lparr>elf_syms2 := elf_syms2 f @ [e], versyms := versyms f @ [v],
                               symbols := symbols f @ [Some r], symbols2 := symbols2 f @ [p2]\<rparr>" by blast
        with get_versioned_sym_result[OF g[unfolded hr]] hh show ?thesis by blast
      next
        case False
        with r3 have "bind_err (get_versioned_sym version_strings ?h1 ?nm ver) (\<lambda>(heap2, r2).
                     Inr (?f1\<lparr>symbols := symbols ?f1 @ [Some ?r],
                             symbols2 := symbols2 ?f1 @ [Some r2]\<rparr>, heap2)) = Inr (f', heap')"
          by (simp add: split_beta)
        then obtain hr where g: "get_versioned_sym version_strings ?h1 ?nm ver = Inr hr"
          and r4: "(case hr of (heap2, r2) \<Rightarrow>
                     Inr (?f1\<lparr>symbols := symbols ?f1 @ [Some ?r],
                             symbols2 := symbols2 ?f1 @ [Some r2]\<rparr>, heap2)) = Inr (f', heap')"
          by (auto elim: bind_err_InrE)
        obtain h2 r2 where hr: "hr = (h2, r2)" by (cases hr)
        from r4 hr have "f' = f\<lparr>elf_syms2 := elf_syms2 f @ [esym], versyms := versyms f @ [ver],
                      symbols := symbols f @ [Some ?r], symbols2 := symbols2 f @ [Some r2]\<rparr>"
          and hh: "heap' = h2"
          by simp_all
        then have "\<exists>e v r p2. f' = f\<lparr>elf_syms2 := elf_syms2 f @ [e], versyms := versyms f @ [v],
                               symbols := symbols f @ [Some r], symbols2 := symbols2 f @ [p2]\<rparr>" by blast
        moreover from k1 get_versioned_sym_result[OF g[unfolded hr]]
        have "\<forall>x. heap x \<noteq> None \<longrightarrow> h2 x = heap x" by metis
        ultimately show ?thesis using hh by blast
      qed
    qed
  qed
qed

lemma dso_parse_loop_extends:
  "for_each (dso_parse_step esyms vers version_strings) is (f, heap) = Inr (f', heap') \<Longrightarrow>
   (\<forall>x. heap x \<noteq> None \<longrightarrow> heap' x = heap x) \<and>
   (\<exists>a b c d. elf_syms2 f' = elf_syms2 f @ a \<and> versyms f' = versyms f @ b \<and>
       symbols f' = symbols f @ c \<and> symbols2 f' = symbols2 f @ d \<and>
       length a = length c \<and> length b = length c \<and> length d = length c)"
proof (induction "is" arbitrary: f heap)
  case Nil
  then show ?case by simp
next
  case (Cons i "is")
  from Cons.prems obtain st1 where s1: "dso_parse_step esyms vers version_strings (f, heap) i = Inr st1"
    and rest: "for_each (dso_parse_step esyms vers version_strings) is st1 = Inr (f', heap')"
    by (cases "dso_parse_step esyms vers version_strings (f, heap) i") simp_all
  obtain f1 h1 where st1: "st1 = (f1, h1)" by (cases st1)
  from dso_parse_step_shape[OF s1[unfolded st1]] have
    k1: "\<forall>x. heap x \<noteq> None \<longrightarrow> h1 x = heap x"
    and sh: "f1 = f \<or>
          (\<exists>e v r p2. f1 = f\<lparr>elf_syms2 := elf_syms2 f @ [e], versyms := versyms f @ [v],
                               symbols := symbols f @ [Some r], symbols2 := symbols2 f @ [p2]\<rparr>)"
    by simp_all
  from Cons.IH[OF rest[unfolded st1]] obtain a b c d where
    k2: "\<forall>x. h1 x \<noteq> None \<longrightarrow> heap' x = h1 x"
    and ex: "elf_syms2 f' = elf_syms2 f1 @ a" "versyms f' = versyms f1 @ b"
       "symbols f' = symbols f1 @ c" "symbols2 f' = symbols2 f1 @ d"
       "length a = length c" "length b = length c" "length d = length c"
    by blast
  from k1 k2 have k: "\<forall>x. heap x \<noteq> None \<longrightarrow> heap' x = heap x" by metis
  from sh show ?case
  proof
    assume "f1 = f"
    with ex k show ?thesis by blast
  next
    assume "\<exists>e v r p2. f1 = f\<lparr>elf_syms2 := elf_syms2 f @ [e], versyms := versyms f @ [v],
                               symbols := symbols f @ [Some r], symbols2 := symbols2 f @ [p2]\<rparr>"
    then obtain e v r p2 where f1: "f1 = f\<lparr>elf_syms2 := elf_syms2 f @ [e], versyms := versyms f @ [v],
                               symbols := symbols f @ [Some r], symbols2 := symbols2 f @ [p2]\<rparr>"
      by blast
    have "elf_syms2 f' = elf_syms2 f @ (e # a)" "versyms f' = versyms f @ (v # b)"
       "symbols f' = symbols f @ (Some r # c)" "symbols2 f' = symbols2 f @ (p2 # d)"
       "length (e # a) = length (Some r # c)" "length (v # b) = length (Some r # c)"
       "length (p2 # d) = length (Some r # c)"
      using ex by (simp_all add: f1)
    with k show ?thesis by blast
  qed
qed

lemma dso_parse_default_entry:
  assumes pass: "dso_parse (Some (start, esyms)) vers version_strings (f, heap) = Inr (f', heap')"
    and lens: "length (elf_syms2 f) = length (symbols f)" "length (symbols2 f) = length (symbols f)"
      "length (versyms f) = length (symbols f)"
    and lo: "start \<le> i"
    and i: "i < length esyms" and ne: "vers \<noteq> []" and iv: "i < length vers"
    and "def": "\<not> is_undef (esyms ! i)"
    and nl: "vers ! i \<noteq> VER_NDX_LOCAL" and ng: "vers ! i \<noteq> VER_NDX_GLOBAL"
    and nh: "vers ! i AND VERSYM_HIDDEN = 0"
    and vs: "unat (vers ! i) < length version_strings"
  shows "\<exists>k < length (symbols f'). elf_syms f' ! k = esyms ! i \<and> versyms f' ! k = vers ! i \<and>
           symbols f' ! k = Some (GlobalSym (st_name (esyms ! i))) \<and>
           symbols2 f' ! k = Some (GlobalSym (st_name (esyms ! i) @ ''@'' @
                                      version_strings ! unat (vers ! i))) \<and>
           heap' (GlobalSym (st_name (esyms ! i))) \<noteq> None \<and>
           heap' (GlobalSym (st_name (esyms ! i) @ ''@'' @ version_strings ! unat (vers ! i))) \<noteq> None \<and>
           (\<forall>x. heap x \<noteq> None \<longrightarrow> heap' x = heap x)"
proof -
  let ?step = "dso_parse_step esyms vers version_strings"
  let ?nm = "st_name (esyms ! i)"
  let ?key = "?nm @ ''@'' @ version_strings ! unat (vers ! i)"
  from pass obtain st3 where loop: "for_each ?step [start ..< length esyms] (f, heap) = Inr st3"
    and fin: "(case st3 of (f, heap) \<Rightarrow> Inr (f\<lparr>elf_syms := elf_syms2 f, first_global := 0\<rparr>, heap))
              = Inr (f', heap')"
    unfolding dso_parse_def by (auto elim: bind_err_InrE)
  obtain f3 h3 where st3: "st3 = (f3, h3)" by (cases st3)
  from fin st3 have f': "f' = f3\<lparr>elf_syms := elf_syms2 f3, first_global := 0\<rparr>" and h': "heap' = h3"
    by simp_all
  from loop[unfolded upt_split_at[OF lo i] st3] obtain st1 st2 where
    a: "for_each ?step [start ..< i] (f, heap) = Inr st1"
    and b: "?step st1 i = Inr st2"
    and c: "for_each ?step [Suc i ..< length esyms] st2 = Inr (f3, h3)"
    by (blast dest: for_each_split)
  obtain f1 h1 where st1: "st1 = (f1, h1)" by (cases st1)
  obtain f2 h2 where st2: "st2 = (f2, h2)" by (cases st2)
  from dso_parse_loop_extends[OF a[unfolded st1]] obtain a1 b1 c1 d1 where
    k1: "\<forall>x. heap x \<noteq> None \<longrightarrow> h1 x = heap x"
    and e1: "elf_syms2 f1 = elf_syms2 f @ a1" "versyms f1 = versyms f @ b1"
       "symbols f1 = symbols f @ c1" "symbols2 f1 = symbols2 f @ d1"
       "length a1 = length c1" "length b1 = length c1" "length d1 = length c1"
    by blast
  with lens have l1: "length (elf_syms2 f1) = length (symbols f1)"
    "length (symbols2 f1) = length (symbols f1)" "length (versyms f1) = length (symbols f1)"
    by simp_all
  let ?h2 = "fst (get_symbol (fst (get_symbol_key h1 ?nm)) ?key ?nm)"
  have s: "?step (f1, h1) i =
     Inr (f1\<lparr>elf_syms2 := elf_syms2 f1 @ [esyms ! i], versyms := versyms f1 @ [vers ! i],
            symbols := symbols f1 @ [Some (GlobalSym ?nm)],
            symbols2 := symbols2 f1 @ [Some (GlobalSym ?key)]\<rparr>, ?h2)"
    using i ne iv "def" nl ng nh vs by (rule dso_parse_step_default)
  with b st1 st2 have f2: "f2 = f1\<lparr>elf_syms2 := elf_syms2 f1 @ [esyms ! i], versyms := versyms f1 @ [vers ! i],
            symbols := symbols f1 @ [Some (GlobalSym ?nm)],
            symbols2 := symbols2 f1 @ [Some (GlobalSym ?key)]\<rparr>" and h2: "h2 = ?h2"
    by simp_all
  have i1: "fst (get_symbol_key h1 ?nm) (GlobalSym ?nm) \<noteq> None"
    and kk1: "\<forall>x. h1 x \<noteq> None \<longrightarrow> fst (get_symbol_key h1 ?nm) x = h1 x"
    by (simp_all add: get_symbol_key_def get_symbol_eq)
  have i2: "?h2 (GlobalSym ?key) \<noteq> None"
    and kk2: "\<forall>x. fst (get_symbol_key h1 ?nm) x \<noteq> None \<longrightarrow> ?h2 x = fst (get_symbol_key h1 ?nm) x"
    by (simp_all add: get_symbol_eq)
  from i1 kk2 have i1': "?h2 (GlobalSym ?nm) \<noteq> None" by metis
  from kk1 kk2 have k2: "\<forall>x. h1 x \<noteq> None \<longrightarrow> h2 x = h1 x" unfolding h2 by metis
  from dso_parse_loop_extends[OF c[unfolded st2]] obtain a3 b3 c3 d3 where
    k3: "\<forall>x. h2 x \<noteq> None \<longrightarrow> h3 x = h2 x"
    and e3: "elf_syms2 f3 = elf_syms2 f2 @ a3" "versyms f3 = versyms f2 @ b3"
       "symbols f3 = symbols f2 @ c3" "symbols2 f3 = symbols2 f2 @ d3"
    by blast
  let ?k = "length (symbols f1)"
  have "?k < length (symbols f')" by (simp add: f' e3 f2)
  moreover have "elf_syms f' ! ?k = esyms ! i"
    using l1 by (simp add: f' e3 f2 nth_append)
  moreover have "versyms f' ! ?k = vers ! i"
    using l1 by (simp add: f' e3 f2 nth_append)
  moreover have "symbols f' ! ?k = Some (GlobalSym ?nm)"
    by (simp add: f' e3 f2 nth_append)
  moreover have "symbols2 f' ! ?k = Some (GlobalSym ?key)"
    using l1 by (simp add: f' e3 f2 nth_append)
  moreover have "heap' (GlobalSym ?nm) \<noteq> None"
    using i1' k3 unfolding h' h2 by metis
  moreover have "heap' (GlobalSym ?key) \<noteq> None"
    using i2 k3 unfolding h' h2 by metis
  moreover have "\<forall>x. heap x \<noteq> None \<longrightarrow> heap' x = heap x"
    using k1 k2 k3 unfolding h' by metis
  ultimately show ?thesis by blast
qed

subsection \<open>Shared objects: the alias of a symbol with a default version, by whole passes\<close>

text \<open>
  Claim C5. Let \<^verbatim>\<open>SharedFile::parse\<close> return, for a file whose vectors have one length
  at the start (they are empty in the program). For every entry \<open>i\<close> of the dynamic symbol
  table from \<^verbatim>\<open>sh_info\<close> on that is defined and whose version entry is not
  \<^verbatim>\<open>VER_NDX_LOCAL\<close>, not \<^verbatim>\<open>VER_NDX_GLOBAL\<close> and has no \<^verbatim>\<open>VERSYM_HIDDEN\<close> bit, the
  parsed file has a position \<open>k\<close> that holds the entry, with \<^verbatim>\<open>symbols[k]\<close> the symbol
  interned for the bare name and \<^verbatim>\<open>symbols2[k]\<close> the one interned for
  \<open>name@VERSION\<close>; both keys are interned at the end, they differ, and a symbol that was
  already interned is kept. Let then a pass of \<^verbatim>\<open>SharedFile::resolve_symbols\<close> over the
  shared object return, and let \<open>k\<close> be an entry that the loop does not skip, whose alias is
  another symbol than the base, and whose two symbols no other entry of the file refers to.
  The pass ends with the alias overwritten exactly when the rank of the entry is strictly
  smaller than the alias's: the alias gets the shared object as file, the address of the
  base symbol as origin, the index of the entry and \<open>is_versioned_default\<close>; its other
  fields stay. Otherwise the alias is as before.
\<close>

theorem versioned_default_alias:
  "(dso_parse (Some (start, esyms)) vers version_strings (f, heap) = Inr (f', heap') \<and>
    length (elf_syms2 f) = length (symbols f) \<and> length (symbols2 f) = length (symbols f) \<and>
    length (versyms f) = length (symbols f) \<and>
    start \<le> i \<and> i < length esyms \<and> vers \<noteq> [] \<and> i < length vers \<and> \<not> is_undef (esyms ! i) \<and>
    vers ! i \<noteq> VER_NDX_LOCAL \<and> vers ! i \<noteq> VER_NDX_GLOBAL \<and> vers ! i AND VERSYM_HIDDEN = 0 \<and>
    unat (vers ! i) < length version_strings \<longrightarrow>
      (\<exists>k < length (symbols f').
         elf_syms f' ! k = esyms ! i \<and> versyms f' ! k = vers ! i \<and>
         symbols f' ! k = Some (GlobalSym (st_name (esyms ! i))) \<and>
         symbols2 f' ! k = Some (GlobalSym (st_name (esyms ! i) @ ''@'' @
                                    version_strings ! unat (vers ! i))) \<and>
         heap' (GlobalSym (st_name (esyms ! i))) \<noteq> None \<and>
         heap' (GlobalSym (st_name (esyms ! i) @ ''@'' @ version_strings ! unat (vers ! i))) \<noteq> None \<and>
         st_name (esyms ! i) \<noteq> st_name (esyms ! i) @ ''@'' @ version_strings ! unat (vers ! i) \<and>
         (\<forall>x. heap x \<noteq> None \<longrightarrow> heap' x = heap x))) \<and>
   (dso_resolve_symbols files this hp = Inr hp' \<and>
    dso_candidate (files this) hp k \<and> symbols (files this) ! k = Some r \<and> hp r = Some s \<and>
    symbols2 (files this) ! k = Some r2 \<and> r2 \<noteq> r \<and> hp r2 = Some s2 \<and>
    get_rank (files this) (elf_syms (files this) ! k) False = Inr a \<and>
    get_rank_sym files s2 = Inr b2 \<and>
    (\<forall>j < length (symbols (files this)). j \<noteq> k \<longrightarrow>
       symbols (files this) ! j \<notin> {Some r, Some r2} \<and>
       symbols2 (files this) ! j \<notin> {Some r, Some r2}) \<longrightarrow>
      hp' r2 = Some (if a < b2
                     then s2\<lparr>sym_file := Some this, origin := Some r, sym_idx := int k,
                             is_versioned_default := True\<rparr>
                     else s2))"
proof (intro conjI impI)
  let ?nm = "st_name (esyms ! i)"
  let ?key = "?nm @ ''@'' @ version_strings ! unat (vers ! i)"
  assume h: "dso_parse (Some (start, esyms)) vers version_strings (f, heap) = Inr (f', heap') \<and>
    length (elf_syms2 f) = length (symbols f) \<and> length (symbols2 f) = length (symbols f) \<and>
    length (versyms f) = length (symbols f) \<and>
    start \<le> i \<and> i < length esyms \<and> vers \<noteq> [] \<and> i < length vers \<and> \<not> is_undef (esyms ! i) \<and>
    vers ! i \<noteq> VER_NDX_LOCAL \<and> vers ! i \<noteq> VER_NDX_GLOBAL \<and> vers ! i AND VERSYM_HIDDEN = 0 \<and>
    unat (vers ! i) < length version_strings"
  then have "\<exists>k < length (symbols f'). elf_syms f' ! k = esyms ! i \<and> versyms f' ! k = vers ! i \<and>
           symbols f' ! k = Some (GlobalSym ?nm) \<and>
           symbols2 f' ! k = Some (GlobalSym ?key) \<and>
           heap' (GlobalSym ?nm) \<noteq> None \<and>
           heap' (GlobalSym ?key) \<noteq> None \<and>
           (\<forall>x. heap x \<noteq> None \<longrightarrow> heap' x = heap x)"
    by (intro dso_parse_default_entry[where start=start and f=f]) simp_all
  moreover have "?nm \<noteq> ?key" by simp
  ultimately show "\<exists>k < length (symbols f').
         elf_syms f' ! k = esyms ! i \<and> versyms f' ! k = vers ! i \<and>
         symbols f' ! k = Some (GlobalSym ?nm) \<and>
         symbols2 f' ! k = Some (GlobalSym ?key) \<and>
         heap' (GlobalSym ?nm) \<noteq> None \<and>
         heap' (GlobalSym ?key) \<noteq> None \<and>
         ?nm \<noteq> ?key \<and>
         (\<forall>x. heap x \<noteq> None \<longrightarrow> heap' x = heap x)"
    by blast
next
  assume h: "dso_resolve_symbols files this hp = Inr hp' \<and>
    dso_candidate (files this) hp k \<and> symbols (files this) ! k = Some r \<and> hp r = Some s \<and>
    symbols2 (files this) ! k = Some r2 \<and> r2 \<noteq> r \<and> hp r2 = Some s2 \<and>
    get_rank (files this) (elf_syms (files this) ! k) False = Inr a \<and>
    get_rank_sym files s2 = Inr b2 \<and>
    (\<forall>j < length (symbols (files this)). j \<noteq> k \<longrightarrow>
       symbols (files this) ! j \<notin> {Some r, Some r2} \<and>
       symbols2 (files this) ! j \<notin> {Some r, Some r2})"
  then have "hp' r2 = Some (if a < b2 then dso_overwrite_alias this k r s2 else s2)"
    by (intro dso_pass_alias[where heap=hp and s=s and files=files]) simp_all
  then show "hp' r2 = Some (if a < b2
                     then s2\<lparr>sym_file := Some this, origin := Some r, sym_idx := int k,
                             is_versioned_default := True\<rparr>
                     else s2)"
    by (simp add: dso_overwrite_alias_def)
qed

text \<open>
  The shared object that exports \<open>foo@@V1\<close> and \<open>foo@V0\<close>: parsing interns \<open>foo\<close>,
  \<open>foo@V1\<close> and \<open>foo@V0\<close> and gives the first entry the symbols \<open>foo\<close> and \<open>foo@V1\<close>, and
  the pass of resolution over it makes \<open>foo@V1\<close> an alias of \<open>foo\<close>.
\<close>

theorem versioned_default_alias_witness:
  "dso_parse (Some (1, libv_dynsym)) libv_vers libv_version_strings (libv_unparsed, Map.empty)
     = Inr (libv_so, libv_heap) \<and>
   (\<exists>k < length (symbols libv_so).
      elf_syms libv_so ! k = libv_dynsym ! 1 \<and>
      symbols libv_so ! k = Some (GlobalSym ''foo'') \<and>
      symbols2 libv_so ! k = Some (GlobalSym ''foo@V1'') \<and>
      libv_heap (GlobalSym ''foo'') \<noteq> None \<and> libv_heap (GlobalSym ''foo@V1'') \<noteq> None) \<and>
   (\<exists>h'. dso_resolve_symbols libv_files 3 libv_heap = Inr h' \<and>
      h' (GlobalSym ''foo@V1'') =
        Some ((new_symbol ''foo'')\<lparr>sym_file := Some 3, origin := Some (GlobalSym ''foo''),
                sym_idx := 0, is_versioned_default := True\<rparr>))"
proof -
  have parse: "dso_parse (Some (1, libv_dynsym)) libv_vers libv_version_strings (libv_unparsed, Map.empty)
     = Inr (libv_so, libv_heap)"
    by (simp add: dso_parse_def dso_parse_step_def libv_defs elf_defs at_def bind_err_def upt_rec
        get_versioned_sym_def get_symbol_key_def get_symbol_def VER_NDX_GLOBAL_def VER_NDX_LOCAL_def
        VERSYM_HIDDEN_def Let_def fun_upd_twist)
  have hyp1: "length (elf_syms2 libv_unparsed) = length (symbols libv_unparsed) \<and>
    length (symbols2 libv_unparsed) = length (symbols libv_unparsed) \<and>
    length (versyms libv_unparsed) = length (symbols libv_unparsed) \<and>
    (1 :: nat) \<le> 1 \<and> 1 < length libv_dynsym \<and> libv_vers \<noteq> [] \<and> 1 < length libv_vers \<and>
    \<not> is_undef (libv_dynsym ! 1) \<and>
    libv_vers ! 1 \<noteq> VER_NDX_LOCAL \<and> libv_vers ! 1 \<noteq> VER_NDX_GLOBAL \<and>
    libv_vers ! 1 AND VERSYM_HIDDEN = 0 \<and>
    unat (libv_vers ! 1) < length libv_version_strings"
    by (simp add: libv_defs elf_defs VER_NDX_GLOBAL_def VER_NDX_LOCAL_def VERSYM_HIDDEN_def)
  have vals: "st_name (libv_dynsym ! 1) = ''foo''" "libv_vers ! 1 = 2"
    "libv_version_strings ! unat (2 :: u16) = ''V1''"
    by (simp_all add: libv_defs)
  have one: "\<exists>k < length (symbols libv_so).
      elf_syms libv_so ! k = libv_dynsym ! 1 \<and>
      symbols libv_so ! k = Some (GlobalSym ''foo'') \<and>
      symbols2 libv_so ! k = Some (GlobalSym ''foo@V1'') \<and>
      libv_heap (GlobalSym ''foo'') \<noteq> None \<and> libv_heap (GlobalSym ''foo@V1'') \<noteq> None"
    using versioned_default_alias[where start=1 and esyms=libv_dynsym and vers=libv_vers
        and version_strings=libv_version_strings and i=1 and f=libv_unparsed and heap=Map.empty
        and f'=libv_so and heap'=libv_heap,
        THEN conjunct1, THEN mp, OF conjI[OF parse hyp1]]
    by (simp only: vals append_Nil append_Cons) blast
  have c: "dso_candidate (libv_files 3) libv_heap 0"
    by (simp add: dso_candidate_def libv_files_def libv_defs elf_defs deref_def)
  have p: "symbols (libv_files 3) ! 0 = Some (GlobalSym ''foo'')"
    "libv_heap (GlobalSym ''foo'') = Some (new_symbol ''foo'')"
    "symbols2 (libv_files 3) ! 0 = Some (GlobalSym ''foo@V1'')"
    "GlobalSym ''foo@V1'' \<noteq> GlobalSym ''foo''"
    "libv_heap (GlobalSym ''foo@V1'') = Some (new_symbol ''foo'')"
    by (simp_all add: libv_files_def libv_so_def libv_heap_def)
  have a: "get_rank (libv_files 3) (elf_syms (libv_files 3) ! 0) False = Inr 50341651"
    by (simp add: libv_files_def libv_defs elf_defs resolve_defs)
  have b: "get_rank_sym libv_files (new_symbol ''foo'') = Inr 117440512"
    by (simp add: libv_defs resolve_defs)
  have lt: "(50341651 :: u64) < 117440512" by simp
  have u: "\<forall>j < length (symbols (libv_files 3)). j \<noteq> 0 \<longrightarrow>
       symbols (libv_files 3) ! j \<notin> {Some (GlobalSym ''foo''), Some (GlobalSym ''foo@V1'')} \<and>
       symbols2 (libv_files 3) ! j \<notin> {Some (GlobalSym ''foo''), Some (GlobalSym ''foo@V1'')}"
    by (simp add: libv_files_def libv_so_def less_Suc_eq)
  obtain h' where s: "dso_resolve_symbols libv_files 3 libv_heap = Inr h'"
    by (simp add: dso_resolve_symbols_def libv_files_def libv_defs elf_defs resolve_defs upt_rec)
  have "h' (GlobalSym ''foo@V1'') =
      Some (if (50341651 :: u64) < 117440512
            then (new_symbol ''foo'')\<lparr>sym_file := Some 3, origin := Some (GlobalSym ''foo''),
                    sym_idx := int 0, is_versioned_default := True\<rparr>
            else new_symbol ''foo'')"
    by (rule versioned_default_alias[where files=libv_files and this=3 and hp=libv_heap and k=0
          and r="GlobalSym ''foo''" and s="new_symbol ''foo''" and ?r2.0="GlobalSym ''foo@V1''"
          and ?s2.0="new_symbol ''foo''" and a=50341651 and ?b2.0=117440512 and hp'=h',
          THEN conjunct2, THEN mp])
       (intro conjI s c p a b u)
  then have "h' (GlobalSym ''foo@V1'') =
        Some ((new_symbol ''foo'')\<lparr>sym_file := Some 3, origin := Some (GlobalSym ''foo''),
                sym_idx := 0, is_versioned_default := True\<rparr>)"
    by (simp add: lt)
  with s parse one show ?thesis by blast
qed

subsection \<open>Symbol materialization: the loop only interns\<close>

lemma interns_more_refl: "interns_more h h"
  by (simp add: interns_more_def)

lemma interns_more_trans:
  assumes "interns_more a b" "interns_more b c"
  shows "interns_more a c"
  unfolding interns_more_def
proof
  fix x
  from assms have ab: "if a x = None then b x = None \<or> (\<exists>nm. b x = Some (new_symbol nm)) else b x = a x"
    and bc: "if b x = None then c x = None \<or> (\<exists>nm. c x = Some (new_symbol nm)) else c x = b x"
    by (simp_all add: interns_more_def)
  show "if a x = None then c x = None \<or> (\<exists>nm. c x = Some (new_symbol nm)) else c x = a x"
  proof (cases "a x = None")
    case True
    with ab bc show ?thesis by (cases "b x = None") auto
  next
    case False
    with ab bc show ?thesis by auto
  qed
qed

lemma interns_moreD:
  "interns_more h h' \<Longrightarrow>
   if h x = None then h' x = None \<or> (\<exists>nm. h' x = Some (new_symbol nm)) else h' x = h x"
  by (simp add: interns_more_def)

lemma interns_more_keeps: "interns_more h h' \<Longrightarrow> h x = Some s \<Longrightarrow> h' x = Some s"
  using interns_moreD[of h h' x] by simp

lemma interns_more_wrapped:
  assumes "interns_more h h'" "h' x = Some s"
  shows "is_wrapped s \<longleftrightarrow> (\<exists>s0. h x = Some s0 \<and> is_wrapped s0)"
proof (cases "h x")
  case None
  with interns_moreD[OF assms(1), of x] assms(2) have "\<exists>nm. s = new_symbol nm" by auto
  with None show ?thesis by (auto simp: new_symbol_def)
next
  case (Some s0)
  with interns_moreD[OF assms(1), of x] assms(2) have "s = s0" by auto
  with Some show ?thesis by simp
qed

lemma get_symbol_interns_more: "interns_more heap (fst (get_symbol heap key nm))"
  by (auto simp: interns_more_def get_symbol_fst)

lemma wrap_symbol_interns_more: "interns_more heap (fst (wrap_symbol ctx heap esym key nm))"
proof (cases "is_undef esym \<and> starts_with nm ''__real_'' \<and> drop 7 nm \<in> arg_wrap ctx")
  case True
  then have w: "wrap_symbol ctx heap esym key nm =
           (fst (get_symbol heap (drop 7 key) (drop 7 nm)), GlobalSym (drop 7 key))"
    by (intro wrap_symbol_real) simp_all
  show ?thesis unfolding w by (simp add: get_symbol_interns_more)
next
  case False
  obtain s where s: "fst (get_symbol heap key nm) (GlobalSym key) = Some s"
    using get_symbol_interns by blast
  have a: "interns_more heap (fst (get_symbol heap key nm))" by (rule get_symbol_interns_more)
  have b: "interns_more (fst (get_symbol heap key nm))
             (fst (get_symbol (fst (get_symbol heap key nm)) (''__wrap_'' @ key) (''__wrap_'' @ nm)))"
    by (rule get_symbol_interns_more)
  show ?thesis
    unfolding wrap_symbol_ordinary[OF False s]
    using a interns_more_trans[OF a b] by simp
qed

lemma init_global_step_result:
  assumes "init_global_step ctx (f, heap) i = Inr (f', heap')"
  shows "i < length (elf_syms f) \<and> i < length (symbols f) \<and>
         (\<exists>key nm sv. parse_symver (st_name (elf_syms f ! i)) = (key, nm, sv) \<and>
            heap' = fst (wrap_symbol ctx heap (elf_syms f ! i) key nm) \<and>
            symbols f' = (symbols f)[i := Some (snd (wrap_symbol ctx heap (elf_syms f ! i) key nm))] \<and>
            has_symver f' = (if sv then (has_symver f)[i - first_global f := True] else has_symver f) \<and>
            elf_syms f' = elf_syms f \<and> first_global f' = first_global f)"
proof -
  from assms obtain esym where e: "at (elf_syms f) i = Inr esym"
    and r1: "(let f1 = (if is_common esym then f\<lparr>has_common_symbol := True\<rparr> else f) in
        case parse_symver (st_name esym) of (key, nm, symver) \<Rightarrow>
          bind_err (if symver
                    then (if i - first_global f1 < length (has_symver f1)
                          then Inr (f1\<lparr>has_symver := (has_symver f1)[i - first_global f1 := True]\<rparr>)
                          else Inl OutOfBounds)
                    else Inr f1) (\<lambda>f2.
            case wrap_symbol ctx heap esym key nm of (heap', r) \<Rightarrow>
              if i < length (symbols f2)
              then Inr (f2\<lparr>symbols := (symbols f2)[i := Some r]\<rparr>, heap')
              else Inl OutOfBounds)) = Inr (f', heap')"
    unfolding init_global_step_def prod.case by (auto elim: bind_err_InrE)
  from e have i: "i < length (elf_syms f)" and ee: "esym = elf_syms f ! i"
    by (simp_all add: at_Inr_iff)
  obtain key nm sv where p: "parse_symver (st_name esym) = (key, nm, sv)"
    by (cases "parse_symver (st_name esym)")
  obtain h r where w: "wrap_symbol ctx heap esym key nm = (h, r)"
    by (cases "wrap_symbol ctx heap esym key nm")
  let ?f1 = "if is_common esym then f\<lparr>has_common_symbol := True\<rparr> else f"
  from r1 p w obtain f2 where
    f2: "(if sv
          then (if i - first_global ?f1 < length (has_symver ?f1)
                then Inr (?f1\<lparr>has_symver := (has_symver ?f1)[i - first_global ?f1 := True]\<rparr>)
                else Inl OutOfBounds)
          else Inr ?f1) = Inr f2"
    and r2: "(if i < length (symbols f2)
              then Inr (f2\<lparr>symbols := (symbols f2)[i := Some r]\<rparr>, h)
              else Inl OutOfBounds) = Inr (f', heap')"
    unfolding Let_def by (auto elim: bind_err_InrE)
  from f2 have f2': "symbols f2 = symbols f" "elf_syms f2 = elf_syms f"
    "first_global f2 = first_global f"
    "has_symver f2 = (if sv then (has_symver f)[i - first_global f := True] else has_symver f)"
    by (auto split: if_splits)
  from r2 have j: "i < length (symbols f2)" and f': "f' = f2\<lparr>symbols := (symbols f2)[i := Some r]\<rparr>"
    and h': "heap' = h"
    by (auto split: if_splits)
  from w have wf: "h = fst (wrap_symbol ctx heap esym key nm)" "r = snd (wrap_symbol ctx heap esym key nm)"
    by simp_all
  have "parse_symver (st_name (elf_syms f ! i)) = (key, nm, sv) \<and>
            heap' = fst (wrap_symbol ctx heap (elf_syms f ! i) key nm) \<and>
            symbols f' = (symbols f)[i := Some (snd (wrap_symbol ctx heap (elf_syms f ! i) key nm))] \<and>
            has_symver f' = (if sv then (has_symver f)[i - first_global f := True] else has_symver f) \<and>
            elf_syms f' = elf_syms f \<and> first_global f' = first_global f"
    using p f2' f' h' wf ee by simp
  with i j f2' show ?thesis by auto
qed

lemma init_global_loop_result:
  "for_each (init_global_step ctx) js (f, heap) = Inr (f', heap') \<Longrightarrow>
   \<forall>j\<in>set js. first_global f \<le> j \<Longrightarrow>
   interns_more heap heap' \<and> (names_follow_keys heap \<longrightarrow> names_follow_keys heap') \<and>
   elf_syms f' = elf_syms f \<and> first_global f' = first_global f \<and>
   length (symbols f') = length (symbols f) \<and> length (has_symver f') = length (has_symver f) \<and>
   (\<forall>j. j \<notin> set js \<longrightarrow> symbols f' ! j = symbols f ! j) \<and>
   (\<forall>j. first_global f \<le> j \<and> j \<notin> set js \<longrightarrow>
        has_symver f' ! (j - first_global f) = has_symver f ! (j - first_global f))"
proof (induction js arbitrary: f heap)
  case Nil
  then show ?case by (simp add: interns_more_refl)
next
  case (Cons i js)
  from Cons.prems(1) obtain st1 where s1: "init_global_step ctx (f, heap) i = Inr st1"
    and rest: "for_each (init_global_step ctx) js st1 = Inr (f', heap')"
    by (cases "init_global_step ctx (f, heap) i") simp_all
  obtain f1 h1 where st1: "st1 = (f1, h1)" by (cases st1)
  from init_global_step_result[OF s1[unfolded st1]] obtain key nm sv where
    p: "parse_symver (st_name (elf_syms f ! i)) = (key, nm, sv)"
    and h1: "h1 = fst (wrap_symbol ctx heap (elf_syms f ! i) key nm)"
    and sy: "symbols f1 = (symbols f)[i := Some (snd (wrap_symbol ctx heap (elf_syms f ! i) key nm))]"
    and hs: "has_symver f1 = (if sv then (has_symver f)[i - first_global f := True] else has_symver f)"
    and e: "elf_syms f1 = elf_syms f" and g: "first_global f1 = first_global f"
    by blast
  from Cons.prems(2) have gi: "first_global f \<le> i" and gj: "\<forall>j\<in>set js. first_global f1 \<le> j"
    by (simp_all add: g)
  have m1: "interns_more heap h1" unfolding h1 by (rule wrap_symbol_interns_more)
  have n1: "names_follow_keys heap \<longrightarrow> names_follow_keys h1"
    unfolding h1 using p by (blast intro: wrap_symbol_names)
  from Cons.IH[OF rest[unfolded st1] gj] have
    ih: "interns_more h1 heap'" "names_follow_keys h1 \<longrightarrow> names_follow_keys heap'"
      "elf_syms f' = elf_syms f1" "first_global f' = first_global f1"
      "length (symbols f') = length (symbols f1)" "length (has_symver f') = length (has_symver f1)"
      "\<forall>j. j \<notin> set js \<longrightarrow> symbols f' ! j = symbols f1 ! j"
      "\<forall>j. first_global f1 \<le> j \<and> j \<notin> set js \<longrightarrow>
        has_symver f' ! (j - first_global f1) = has_symver f1 ! (j - first_global f1)"
    by simp_all
  have a: "interns_more heap heap'" using m1 ih(1) by (rule interns_more_trans)
  have b: "names_follow_keys heap \<longrightarrow> names_follow_keys heap'" using n1 ih(2) by blast
  have c: "\<forall>j. j \<notin> set (i # js) \<longrightarrow> symbols f' ! j = symbols f ! j"
    using ih(7) sy by simp
  have d: "\<forall>j. first_global f \<le> j \<and> j \<notin> set (i # js) \<longrightarrow>
        has_symver f' ! (j - first_global f) = has_symver f ! (j - first_global f)"
  proof (intro allI impI)
    fix j assume j: "first_global f \<le> j \<and> j \<notin> set (i # js)"
    then have "j - first_global f \<noteq> i - first_global f" using gi by auto
    then have "has_symver f1 ! (j - first_global f) = has_symver f ! (j - first_global f)"
      unfolding hs by simp
    with ih(8) j g show "has_symver f' ! (j - first_global f) = has_symver f ! (j - first_global f)"
      by simp
  qed
  from a b c d ih e g sy hs show ?case by simp
qed

subsection \<open>Symbol materialization: the whole loop\<close>

lemma init_global_symbols_at:
  assumes pass: "init_global_symbols ctx this (f0, heap0) = Inr (f1, heap1)"
    and lo: "first_global f0 \<le> i" and i: "i < length (elf_syms f0)"
    and p: "parse_symver (st_name (elf_syms f0 ! i)) = (key, nm, sv)"
  shows "\<exists>ha. interns_more heap0 ha \<and> (names_follow_keys heap0 \<longrightarrow> names_follow_keys ha) \<and>
           symbols f1 ! i = Some (snd (wrap_symbol ctx ha (elf_syms f0 ! i) key nm)) \<and>
           interns_more (fst (wrap_symbol ctx ha (elf_syms f0 ! i) key nm)) heap1 \<and>
           has_symver f1 ! (i - first_global f0) = sv \<and> elf_syms f1 = elf_syms f0"
proof -
  let ?n = "length (elf_syms f0)"
  let ?g = "first_global f0"
  let ?f = "f0\<lparr>symbols := map (\<lambda>i. if i < ?g then Some (LocalSym this i) else None) [0 ..< ?n],
                   has_symver := replicate (?n - ?g) False\<rparr>"
  let ?step = "init_global_step ctx"
  from i have ne: "elf_syms f0 \<noteq> []" by auto
  from pass ne have loop: "for_each ?step [?g ..< ?n] (?f, heap0) = Inr (f1, heap1)"
    by (auto simp: init_global_symbols_def Let_def split: if_splits)
  from loop[unfolded upt_split_at[OF lo i]] obtain sa sb where
    a: "for_each ?step [?g ..< i] (?f, heap0) = Inr sa"
    and b: "?step sa i = Inr sb"
    and c: "for_each ?step [Suc i ..< ?n] sb = Inr (f1, heap1)"
    by (blast dest: for_each_split)
  obtain fa ha where sa: "sa = (fa, ha)" by (cases sa)
  obtain fb hb where sb: "sb = (fb, hb)" by (cases sb)
  have ga: "\<forall>j\<in>set [?g ..< i]. first_global ?f \<le> j" by simp
  from init_global_loop_result[OF a[unfolded sa] ga] have
    ra: "interns_more heap0 ha" "names_follow_keys heap0 \<longrightarrow> names_follow_keys ha"
      "elf_syms fa = elf_syms f0" "first_global fa = ?g"
      "length (has_symver fa) = ?n - ?g"
      "has_symver fa ! (i - ?g) = False"
    using lo i by simp_all
  from init_global_step_result[OF b[unfolded sa sb]] p ra(3,4) have
    rb: "i < length (symbols fa)"
      "hb = fst (wrap_symbol ctx ha (elf_syms f0 ! i) key nm)"
      "symbols fb = (symbols fa)[i := Some (snd (wrap_symbol ctx ha (elf_syms f0 ! i) key nm))]"
      "has_symver fb = (if sv then (has_symver fa)[i - ?g := True] else has_symver fa)"
      "elf_syms fb = elf_syms f0" "first_global fb = ?g"
    by auto
  have gc: "\<forall>j\<in>set [Suc i ..< ?n]. first_global fb \<le> j" using lo rb(6) by simp
  from init_global_loop_result[OF c[unfolded sb] gc] have
    rc: "interns_more hb heap1" "elf_syms f1 = elf_syms fb"
      "symbols f1 ! i = symbols fb ! i"
      "has_symver f1 ! (i - ?g) = has_symver fb ! (i - ?g)"
    using lo rb(6) by simp_all
  have s: "symbols f1 ! i = Some (snd (wrap_symbol ctx ha (elf_syms f0 ! i) key nm))"
    using rc(3) rb(1) by (simp add: rb(3))
  have h: "has_symver f1 ! (i - ?g) = sv"
    using rc(4) ra(5,6) lo i by (simp add: rb(4))
  from ra(1,2) s rc(1) h rc(2) rb(5) show ?thesis
    unfolding rb(2) by (intro exI[of _ ha]) simp
qed

lemma init_global_symbols_real:
  assumes pass: "init_global_symbols ctx this (f0, heap0) = Inr (f1, heap1)"
    and lo: "first_global f0 \<le> i" and i: "i < length (elf_syms f0)"
    and p: "parse_symver (st_name (elf_syms f0 ! i)) = (key, nm, sv)"
    and nf: "names_follow_keys heap0"
    and c: "is_undef (elf_syms f0 ! i) \<and> starts_with nm ''__real_'' \<and> drop 7 nm \<in> arg_wrap ctx"
  shows "key = ''__real_'' @ drop 7 key \<and> nm = ''__real_'' @ drop 7 nm \<and>
         symbols f1 ! i = Some (GlobalSym (drop 7 key)) \<and>
         (\<exists>s. heap1 (GlobalSym (drop 7 key)) = Some s \<and> name s = drop 7 nm)"
proof -
  let ?e = "elf_syms f0 ! i"
  from init_global_symbols_at[OF pass lo i p] nf obtain ha where
    nfa: "names_follow_keys ha"
    and s: "symbols f1 ! i = Some (snd (wrap_symbol ctx ha ?e key nm))"
    and m: "interns_more (fst (wrap_symbol ctx ha ?e key nm)) heap1"
    by blast
  from c have r: "starts_with nm ''__real_''" by simp
  from c have w: "wrap_symbol ctx ha ?e key nm =
       (fst (get_symbol ha (drop 7 key) (drop 7 nm)), GlobalSym (drop 7 key))"
    by (intro wrap_symbol_real) simp_all
  from get_symbol_name[OF nfa real_key_name(1)[OF p r]] obtain s0 where
    "fst (get_symbol ha (drop 7 key) (drop 7 nm)) (GlobalSym (drop 7 key)) = Some s0"
    and n: "name s0 = drop 7 nm"
    by blast
  with m have "heap1 (GlobalSym (drop 7 key)) = Some s0"
    unfolding w by (simp add: interns_more_keeps)
  with n s real_key_name(2)[OF p r] real_key_name(3)[OF p r] show ?thesis
    unfolding w by simp
qed

lemma init_global_symbols_ordinary:
  assumes pass: "init_global_symbols ctx this (f0, heap0) = Inr (f1, heap1)"
    and lo: "first_global f0 \<le> i" and i: "i < length (elf_syms f0)"
    and p: "parse_symver (st_name (elf_syms f0 ! i)) = (key, nm, sv)"
    and nf: "names_follow_keys heap0"
    and c: "\<not> (is_undef (elf_syms f0 ! i) \<and> starts_with nm ''__real_'' \<and> drop 7 nm \<in> arg_wrap ctx)"
  shows "if is_undef (elf_syms f0 ! i) \<and> (\<exists>s0. heap0 (GlobalSym key) = Some s0 \<and> is_wrapped s0)
         then symbols f1 ! i = Some (GlobalSym (''__wrap_'' @ key)) \<and>
              (\<exists>w. heap1 (GlobalSym (''__wrap_'' @ key)) = Some w \<and> name w = ''__wrap_'' @ nm)
         else symbols f1 ! i = Some (GlobalSym key) \<and>
              (\<exists>s. heap1 (GlobalSym key) = Some s \<and> name s = nm)"
proof -
  let ?e = "elf_syms f0 ! i"
  from init_global_symbols_at[OF pass lo i p] nf obtain ha where
    ma: "interns_more heap0 ha" and nfa: "names_follow_keys ha"
    and s: "symbols f1 ! i = Some (snd (wrap_symbol ctx ha ?e key nm))"
    and m: "interns_more (fst (wrap_symbol ctx ha ?e key nm)) heap1"
    by blast
  have kn: "takeWhile (\<lambda>c. c \<noteq> CHR ''@'') key = nm" using p by (rule parse_symver_key_name)
  let ?h1 = "fst (get_symbol ha key nm)"
  from get_symbol_name[OF nfa kn] obtain s1 where
    s1: "?h1 (GlobalSym key) = Some s1" and n1: "name s1 = nm"
    by blast
  have "interns_more heap0 ?h1" using ma get_symbol_interns_more by (rule interns_more_trans)
  from interns_more_wrapped[OF this s1] have
    wr: "is_wrapped s1 \<longleftrightarrow> (\<exists>s0. heap0 (GlobalSym key) = Some s0 \<and> is_wrapped s0)" .
  note w = wrap_symbol_ordinary[OF c s1]
  have nf1: "names_follow_keys ?h1" using nfa kn by (rule get_symbol_names)
  show ?thesis
  proof (cases "is_undef ?e \<and> is_wrapped s1")
    case True
    then have t: "is_undef ?e \<and> (\<exists>s0. heap0 (GlobalSym key) = Some s0 \<and> is_wrapped s0)"
      using wr by simp
    let ?h2 = "fst (get_symbol ?h1 (''__wrap_'' @ key) (''__wrap_'' @ nm))"
    have w': "wrap_symbol ctx ha ?e key nm = (?h2, GlobalSym (''__wrap_'' @ key))"
      unfolding w if_P[OF True] by (rule refl)
    from get_symbol_name[OF nf1 wrap_key_name[OF kn]] obtain s2 where
      "?h2 (GlobalSym (''__wrap_'' @ key)) = Some s2" and n2: "name s2 = ''__wrap_'' @ nm"
      by blast
    with m have "heap1 (GlobalSym (''__wrap_'' @ key)) = Some s2"
      unfolding w' by (simp add: interns_more_keeps)
    with n2 s show ?thesis unfolding w' if_P[OF t] by simp
  next
    case False
    then have t: "\<not> (is_undef ?e \<and> (\<exists>s0. heap0 (GlobalSym key) = Some s0 \<and> is_wrapped s0))"
      using wr by simp
    have w': "wrap_symbol ctx ha ?e key nm = (?h1, GlobalSym key)"
      unfolding w if_not_P[OF False] by (rule refl)
    from m s1 have "heap1 (GlobalSym key) = Some s1"
      unfolding w' by (simp add: interns_more_keeps)
    with n1 s show ?thesis unfolding w' if_not_P[OF t] by simp
  qed
qed

lemma init_global_symbols_interned:
  assumes pass: "init_global_symbols ctx this (f0, heap0) = Inr (f1, heap1)"
    and lo: "first_global f0 \<le> i" and i: "i < length (elf_syms f0)"
  shows "\<exists>key' s. symbols f1 ! i = Some (GlobalSym key') \<and> heap1 (GlobalSym key') = Some s \<and>
           (names_follow_keys heap0 \<longrightarrow> name s = takeWhile (\<lambda>c. c \<noteq> CHR ''@'') key')"
proof -
  let ?e = "elf_syms f0 ! i"
  obtain key nm sv where p: "parse_symver (st_name ?e) = (key, nm, sv)"
    by (cases "parse_symver (st_name ?e)")
  from init_global_symbols_at[OF pass lo i p] obtain ha where
    nfa: "names_follow_keys heap0 \<longrightarrow> names_follow_keys ha"
    and s: "symbols f1 ! i = Some (snd (wrap_symbol ctx ha ?e key nm))"
    and m: "interns_more (fst (wrap_symbol ctx ha ?e key nm)) heap1"
    by blast
  from wrap_symbol_snd_interned[of ctx ha ?e key nm] obtain key' s1 where
    k: "snd (wrap_symbol ctx ha ?e key nm) = GlobalSym key'"
    and s1: "fst (wrap_symbol ctx ha ?e key nm) (GlobalSym key') = Some s1"
    by auto
  from m s1 have h1: "heap1 (GlobalSym key') = Some s1" by (rule interns_more_keeps)
  have "names_follow_keys heap0 \<longrightarrow> name s1 = takeWhile (\<lambda>c. c \<noteq> CHR ''@'') key'"
  proof
    assume "names_follow_keys heap0"
    with nfa have "names_follow_keys ha" by simp
    from wrap_symbol_names[OF this p, of ctx ?e] s1
    show "name s1 = takeWhile (\<lambda>c. c \<noteq> CHR ''@'') key'"
      by (simp add: names_follow_keys_def)
  qed
  with s k h1 show ?thesis by auto
qed

lemma init_global_symbols_returns:
  assumes "first_global f0 \<le> length (elf_syms f0)"
  shows "\<exists>f1 heap1. init_global_symbols ctx this (f0, heap0) = Inr (f1, heap1) \<and>
           elf_syms f1 = elf_syms f0 \<and>
           (\<forall>j < length (elf_syms f0). j < length (symbols f1) \<and> symbols f1 ! j \<noteq> None)"
proof -
  from init_global_symbols_total[OF assms] obtain f1 heap1 where
    r: "init_global_symbols ctx this (f0, heap0) = Inr (f1, heap1)"
    by blast
  from init_global_symbols_nonnull[OF r] r show ?thesis by blast
qed

subsection \<open>Symbol materialization: the wrap option, the claim\<close>

text \<open>
  Claim C6. Let the loop of \<^verbatim>\<open>ObjectFile::initialize_symbols\<close> over the global entries
  return, from a store of symbols in which names follow keys, and let \<open>i\<close> be a global entry
  whose string parses to the key \<open>key\<close> and the name \<open>nm\<close>. If the entry is undefined, \<open>nm\<close>
  starts with \<open>__real_\<close> and the rest of \<open>nm\<close> is in the wrap set, then \<open>symbols[i]\<close> ends as
  the symbol interned under \<open>key\<close> without its first seven characters \<open>__real_\<close>, and the
  name of that symbol is \<open>nm\<close> without them. Otherwise the symbol interned under \<open>key\<close> is
  taken: if the entry is undefined and that symbol had \<open>is_wrapped\<close> set at the start,
  \<open>symbols[i]\<close> ends as the symbol interned under \<open>__wrap_\<close> followed by \<open>key\<close>, whose name
  is \<open>__wrap_\<close> followed by \<open>nm\<close>; else \<open>symbols[i]\<close> ends as the symbol interned under \<open>key\<close>,
  whose name is \<open>nm\<close>. When the rest of \<open>nm\<close> after seven characters is not in the wrap
  set, \<open>symbols[i]\<close> ends as it does in a link with an empty wrap set. The loop returns
  whenever \<^verbatim>\<open>first_global\<close> is at most the number of entries.
\<close>

theorem wrap_rewriting:
  "(init_global_symbols ctx this (f0, heap0) = Inr (f1, heap1) \<and>
    first_global f0 \<le> i \<and> i < length (elf_syms f0) \<and>
    parse_symver (st_name (elf_syms f0 ! i)) = (key, nm, sv) \<and> names_follow_keys heap0 \<and>
    is_undef (elf_syms f0 ! i) \<and> starts_with nm ''__real_'' \<and> drop 7 nm \<in> arg_wrap ctx \<longrightarrow>
      key = ''__real_'' @ drop 7 key \<and> nm = ''__real_'' @ drop 7 nm \<and>
      symbols f1 ! i = Some (GlobalSym (drop 7 key)) \<and>
      (\<exists>s. heap1 (GlobalSym (drop 7 key)) = Some s \<and> name s = drop 7 nm)) \<and>
   (init_global_symbols ctx this (f0, heap0) = Inr (f1, heap1) \<and>
    first_global f0 \<le> i \<and> i < length (elf_syms f0) \<and>
    parse_symver (st_name (elf_syms f0 ! i)) = (key, nm, sv) \<and> names_follow_keys heap0 \<and>
    \<not> (is_undef (elf_syms f0 ! i) \<and> starts_with nm ''__real_'' \<and> drop 7 nm \<in> arg_wrap ctx) \<longrightarrow>
      (if is_undef (elf_syms f0 ! i) \<and> (\<exists>s0. heap0 (GlobalSym key) = Some s0 \<and> is_wrapped s0)
       then symbols f1 ! i = Some (GlobalSym (''__wrap_'' @ key)) \<and>
            (\<exists>w. heap1 (GlobalSym (''__wrap_'' @ key)) = Some w \<and> name w = ''__wrap_'' @ nm)
       else symbols f1 ! i = Some (GlobalSym key) \<and>
            (\<exists>s. heap1 (GlobalSym key) = Some s \<and> name s = nm))) \<and>
   (init_global_symbols ctx this (f0, heap0) = Inr (f1, heap1) \<and>
    init_global_symbols (ctx\<lparr>arg_wrap := {}\<rparr>) this (f0, heap0) = Inr (f2, heap2) \<and>
    first_global f0 \<le> i \<and> i < length (elf_syms f0) \<and>
    parse_symver (st_name (elf_syms f0 ! i)) = (key, nm, sv) \<and> names_follow_keys heap0 \<and>
    drop 7 nm \<notin> arg_wrap ctx \<longrightarrow>
      symbols f1 ! i = symbols f2 ! i) \<and>
   (first_global f0 \<le> length (elf_syms f0) \<longrightarrow>
      (\<exists>f1 heap1. init_global_symbols ctx this (f0, heap0) = Inr (f1, heap1)))"
proof (intro conjI impI)
  assume "init_global_symbols ctx this (f0, heap0) = Inr (f1, heap1) \<and>
    first_global f0 \<le> i \<and> i < length (elf_syms f0) \<and>
    parse_symver (st_name (elf_syms f0 ! i)) = (key, nm, sv) \<and> names_follow_keys heap0 \<and>
    is_undef (elf_syms f0 ! i) \<and> starts_with nm ''__real_'' \<and> drop 7 nm \<in> arg_wrap ctx"
  then have "key = ''__real_'' @ drop 7 key \<and> nm = ''__real_'' @ drop 7 nm \<and>
         symbols f1 ! i = Some (GlobalSym (drop 7 key)) \<and>
         (\<exists>s. heap1 (GlobalSym (drop 7 key)) = Some s \<and> name s = drop 7 nm)"
    by (intro init_global_symbols_real[where ctx=ctx and this=this and ?f0.0=f0 and ?heap0.0=heap0
          and sv=sv]) simp_all
  then show "key = ''__real_'' @ drop 7 key" "nm = ''__real_'' @ drop 7 nm"
    "symbols f1 ! i = Some (GlobalSym (drop 7 key))"
    "\<exists>s. heap1 (GlobalSym (drop 7 key)) = Some s \<and> name s = drop 7 nm"
    by simp_all
next
  assume "init_global_symbols ctx this (f0, heap0) = Inr (f1, heap1) \<and>
    first_global f0 \<le> i \<and> i < length (elf_syms f0) \<and>
    parse_symver (st_name (elf_syms f0 ! i)) = (key, nm, sv) \<and> names_follow_keys heap0 \<and>
    \<not> (is_undef (elf_syms f0 ! i) \<and> starts_with nm ''__real_'' \<and> drop 7 nm \<in> arg_wrap ctx)"
  then show "if is_undef (elf_syms f0 ! i) \<and> (\<exists>s0. heap0 (GlobalSym key) = Some s0 \<and> is_wrapped s0)
       then symbols f1 ! i = Some (GlobalSym (''__wrap_'' @ key)) \<and>
            (\<exists>w. heap1 (GlobalSym (''__wrap_'' @ key)) = Some w \<and> name w = ''__wrap_'' @ nm)
       else symbols f1 ! i = Some (GlobalSym key) \<and>
            (\<exists>s. heap1 (GlobalSym key) = Some s \<and> name s = nm)"
    by (intro init_global_symbols_ordinary[where ctx=ctx and this=this and ?f0.0=f0
          and ?heap0.0=heap0 and sv=sv]) simp_all
next
  let ?c = "ctx\<lparr>arg_wrap := {}\<rparr>"
  assume h: "init_global_symbols ctx this (f0, heap0) = Inr (f1, heap1) \<and>
    init_global_symbols ?c this (f0, heap0) = Inr (f2, heap2) \<and>
    first_global f0 \<le> i \<and> i < length (elf_syms f0) \<and>
    parse_symver (st_name (elf_syms f0 ! i)) = (key, nm, sv) \<and> names_follow_keys heap0 \<and>
    drop 7 nm \<notin> arg_wrap ctx"
  then have c1: "\<not> (is_undef (elf_syms f0 ! i) \<and> starts_with nm ''__real_'' \<and> drop 7 nm \<in> arg_wrap ctx)"
    and c2: "\<not> (is_undef (elf_syms f0 ! i) \<and> starts_with nm ''__real_'' \<and> drop 7 nm \<in> arg_wrap ?c)"
    by simp_all
  from h have
    a: "if is_undef (elf_syms f0 ! i) \<and> (\<exists>s0. heap0 (GlobalSym key) = Some s0 \<and> is_wrapped s0)
       then symbols f1 ! i = Some (GlobalSym (''__wrap_'' @ key)) \<and>
            (\<exists>w. heap1 (GlobalSym (''__wrap_'' @ key)) = Some w \<and> name w = ''__wrap_'' @ nm)
       else symbols f1 ! i = Some (GlobalSym key) \<and>
            (\<exists>s. heap1 (GlobalSym key) = Some s \<and> name s = nm)"
    by (intro init_global_symbols_ordinary[where ctx=ctx and this=this and ?f0.0=f0
          and ?heap0.0=heap0 and sv=sv] c1) simp_all
  from h have
    b: "if is_undef (elf_syms f0 ! i) \<and> (\<exists>s0. heap0 (GlobalSym key) = Some s0 \<and> is_wrapped s0)
       then symbols f2 ! i = Some (GlobalSym (''__wrap_'' @ key)) \<and>
            (\<exists>w. heap2 (GlobalSym (''__wrap_'' @ key)) = Some w \<and> name w = ''__wrap_'' @ nm)
       else symbols f2 ! i = Some (GlobalSym key) \<and>
            (\<exists>s. heap2 (GlobalSym key) = Some s \<and> name s = nm)"
    by (intro init_global_symbols_ordinary[where ctx="?c" and this=this and ?f0.0=f0
          and ?heap0.0=heap0 and sv=sv] c2) simp_all
  from a b show "symbols f1 ! i = symbols f2 ! i"
    by (cases "is_undef (elf_syms f0 ! i) \<and> (\<exists>s0. heap0 (GlobalSym key) = Some s0 \<and> is_wrapped s0)")
       simp_all
next
  assume "first_global f0 \<le> length (elf_syms f0)"
  then show "\<exists>f1 heap1. init_global_symbols ctx this (f0, heap0) = Inr (f1, heap1)"
    by (rule init_global_symbols_total)
qed

text \<open>
  With \<^verbatim>\<open>--wrap=malloc\<close>, the references of \<open>wrap_raw\<close> to \<open>malloc\<close>, \<open>__real_malloc\<close> and
  \<open>__real_free\<close> end as the symbols \<open>__wrap_malloc\<close>, \<open>malloc\<close> and \<open>__real_free\<close>.
\<close>

theorem wrap_rewriting_witness:
  "\<exists>f1 heap1. init_global_symbols ctx_wrap 4 (wrap_raw, wrap_heap) = Inr (f1, heap1) \<and>
     symbols f1 ! 2 = Some (GlobalSym ''malloc'') \<and>
     (\<exists>s. heap1 (GlobalSym ''malloc'') = Some s \<and> name s = ''malloc'') \<and>
     symbols f1 ! 1 = Some (GlobalSym ''__wrap_malloc'') \<and>
     (\<exists>w. heap1 (GlobalSym ''__wrap_malloc'') = Some w \<and> name w = ''__wrap_malloc'') \<and>
     symbols f1 ! 3 = Some (GlobalSym ''__real_free'')"
proof -
  note nf = names_follow_keys_wrap_heap
  have fg: "first_global wrap_raw \<le> length (elf_syms wrap_raw)" by (simp add: wrap_defs)
  from wrap_rewriting[where ctx=ctx_wrap and this=4 and ?f0.0=wrap_raw and ?heap0.0=wrap_heap,
      THEN conjunct2, THEN conjunct2, THEN conjunct2, THEN mp, OF fg]
  obtain f1 heap1 where pass: "init_global_symbols ctx_wrap 4 (wrap_raw, wrap_heap) = Inr (f1, heap1)"
    by blast
  have len: "first_global wrap_raw \<le> 2" "2 < length (elf_syms wrap_raw)"
    "first_global wrap_raw \<le> 1" "1 < length (elf_syms wrap_raw)"
    "first_global wrap_raw \<le> 3" "3 < length (elf_syms wrap_raw)"
    by (simp_all add: wrap_defs)
  have p2: "parse_symver (st_name (elf_syms wrap_raw ! 2)) = (''__real_malloc'', ''__real_malloc'', False)"
    by (simp add: wrap_defs parse_symver_def)
  have p1: "parse_symver (st_name (elf_syms wrap_raw ! 1)) = (''malloc'', ''malloc'', False)"
    by (simp add: wrap_defs parse_symver_def)
  have p3: "parse_symver (st_name (elf_syms wrap_raw ! 3)) = (''__real_free'', ''__real_free'', False)"
    by (simp add: wrap_defs parse_symver_def)
  have c2: "is_undef (elf_syms wrap_raw ! 2) \<and> starts_with ''__real_malloc'' ''__real_'' \<and>
            drop 7 ''__real_malloc'' \<in> arg_wrap ctx_wrap"
    by (simp add: wrap_defs is_undef_def starts_with_def SHN_UNDEF_def)
  have c1: "\<not> (is_undef (elf_syms wrap_raw ! 1) \<and> starts_with ''malloc'' ''__real_'' \<and>
            drop 7 ''malloc'' \<in> arg_wrap ctx_wrap)"
    by (simp add: starts_with_def)
  have c3: "\<not> (is_undef (elf_syms wrap_raw ! 3) \<and> starts_with ''__real_free'' ''__real_'' \<and>
            drop 7 ''__real_free'' \<in> arg_wrap ctx_wrap)"
    by (simp add: wrap_defs)
  have w1: "is_undef (elf_syms wrap_raw ! 1) \<and>
            (\<exists>s0. wrap_heap (GlobalSym ''malloc'') = Some s0 \<and> is_wrapped s0)"
    by (simp add: wrap_defs is_undef_def SHN_UNDEF_def)
  have w3: "\<not> (is_undef (elf_syms wrap_raw ! 3) \<and>
            (\<exists>s0. wrap_heap (GlobalSym ''__real_free'') = Some s0 \<and> is_wrapped s0))"
    by (simp add: wrap_heap_def)
  have "''__real_malloc'' = ''__real_'' @ drop 7 ''__real_malloc'' \<and>
        ''__real_malloc'' = ''__real_'' @ drop 7 ''__real_malloc'' \<and>
        symbols f1 ! 2 = Some (GlobalSym (drop 7 ''__real_malloc'')) \<and>
        (\<exists>s. heap1 (GlobalSym (drop 7 ''__real_malloc'')) = Some s \<and> name s = drop 7 ''__real_malloc'')"
    by (rule wrap_rewriting[where ctx=ctx_wrap and this=4 and ?f0.0=wrap_raw and ?heap0.0=wrap_heap
          and ?f1.0=f1 and ?heap1.0=heap1 and i=2 and sv=False,
          THEN conjunct1, THEN mp])
       (intro conjI pass len(1,2) p2 nf c2[THEN conjunct1] c2[THEN conjunct2, THEN conjunct1]
          c2[THEN conjunct2, THEN conjunct2])
  then have r2: "symbols f1 ! 2 = Some (GlobalSym ''malloc'')"
    "\<exists>s. heap1 (GlobalSym ''malloc'') = Some s \<and> name s = ''malloc''"
    by simp_all
  have "if is_undef (elf_syms wrap_raw ! 1) \<and>
           (\<exists>s0. wrap_heap (GlobalSym ''malloc'') = Some s0 \<and> is_wrapped s0)
        then symbols f1 ! 1 = Some (GlobalSym (''__wrap_'' @ ''malloc'')) \<and>
             (\<exists>w. heap1 (GlobalSym (''__wrap_'' @ ''malloc'')) = Some w \<and>
                  name w = ''__wrap_'' @ ''malloc'')
        else symbols f1 ! 1 = Some (GlobalSym ''malloc'') \<and>
             (\<exists>s. heap1 (GlobalSym ''malloc'') = Some s \<and> name s = ''malloc'')"
    by (rule wrap_rewriting[where ctx=ctx_wrap and this=4 and ?f0.0=wrap_raw and ?heap0.0=wrap_heap
          and ?f1.0=f1 and ?heap1.0=heap1 and i=1 and sv=False,
          THEN conjunct2, THEN conjunct1, THEN mp])
       (intro conjI pass len(3,4) p1 nf c1)
  then have r1: "symbols f1 ! 1 = Some (GlobalSym ''__wrap_malloc'')"
    "\<exists>w. heap1 (GlobalSym ''__wrap_malloc'') = Some w \<and> name w = ''__wrap_malloc''"
    unfolding if_P[OF w1] by simp_all
  have "if is_undef (elf_syms wrap_raw ! 3) \<and>
           (\<exists>s0. wrap_heap (GlobalSym ''__real_free'') = Some s0 \<and> is_wrapped s0)
        then symbols f1 ! 3 = Some (GlobalSym (''__wrap_'' @ ''__real_free'')) \<and>
             (\<exists>w. heap1 (GlobalSym (''__wrap_'' @ ''__real_free'')) = Some w \<and>
                  name w = ''__wrap_'' @ ''__real_free'')
        else symbols f1 ! 3 = Some (GlobalSym ''__real_free'') \<and>
             (\<exists>s. heap1 (GlobalSym ''__real_free'') = Some s \<and> name s = ''__real_free'')"
    by (rule wrap_rewriting[where ctx=ctx_wrap and this=4 and ?f0.0=wrap_raw and ?heap0.0=wrap_heap
          and ?f1.0=f1 and ?heap1.0=heap1 and i=3 and sv=False,
          THEN conjunct2, THEN conjunct1, THEN mp])
       (intro conjI pass len(5,6) p3 nf c3)
  then have r3: "symbols f1 ! 3 = Some (GlobalSym ''__real_free'')"
    unfolding if_not_P[OF w3] by simp
  from pass r2 r1 r3 show ?thesis by blast
qed

subsection \<open>Symbol materialization: the version suffix, the claim\<close>

text \<open>
  Claim C7. The string of a global entry parses as follows, for \<open>base\<close> without \<open>@\<close>:
  \<open>base\<close>, \<open>base@\<close> and \<open>base@@\<close> give the name \<open>base\<close>, the whole string as key and no
  \<^verbatim>\<open>has_symver\<close>; \<open>base@@v\<close> with \<open>v\<close> not empty gives the key \<open>base\<close>, and \<open>base@v\<close> with
  \<open>v\<close> not empty and not starting with \<open>@\<close> gives the whole string as key, both with the name
  \<open>base\<close> and \<^verbatim>\<open>has_symver\<close>. When the loop of \<^verbatim>\<open>ObjectFile::initialize_symbols\<close> has
  returned, for every global entry \<open>i\<close>, whose string parses to \<open>key\<close>, \<open>nm\<close> and \<open>sv\<close>: \<open>nm\<close>
  is the string up to its first \<open>@\<close>; \<open>sv\<close> holds exactly if the string has an \<open>@\<close> and what
  starts there is neither \<open>@\<close> nor \<open>@@\<close>; \<^verbatim>\<open>has_symver[i - first_global]\<close> is \<open>sv\<close>;
  \<open>symbols[i]\<close> is an interned symbol, whose name is its key up to the first \<open>@\<close> if names
  followed keys at the start; and if moreover the wrap option does not apply to the entry
  (it is defined, or else its name is not \<open>__real_\<close> followed by a name of the wrap set and
  the symbol interned under \<open>key\<close> did not have \<open>is_wrapped\<close> set), then \<open>symbols[i]\<close> is the
  symbol interned under \<open>key\<close> and its name is \<open>nm\<close>. The loop returns whenever
  \<^verbatim>\<open>first_global\<close> is at most the number of entries, and then no element of \<open>symbols\<close>
  is null.
\<close>

theorem symver_parsing:
  "(CHR ''@'' \<notin> set base \<longrightarrow>
      parse_symver base = (base, base, False) \<and>
      parse_symver (base @ ''@'') = (base @ ''@'', base, False) \<and>
      parse_symver (base @ ''@@'') = (base @ ''@@'', base, False) \<and>
      (v \<noteq> [] \<longrightarrow> parse_symver (base @ ''@@'' @ v) = (base, base, True)) \<and>
      (v \<noteq> [] \<and> hd v \<noteq> CHR ''@'' \<longrightarrow>
         parse_symver (base @ ''@'' @ v) = (base @ ''@'' @ v, base, True))) \<and>
   (init_global_symbols ctx this (f0, heap0) = Inr (f1, heap1) \<and>
    first_global f0 \<le> i \<and> i < length (elf_syms f0) \<and>
    parse_symver (st_name (elf_syms f0 ! i)) = (key, nm, sv) \<longrightarrow>
      nm = takeWhile (\<lambda>c. c \<noteq> CHR ''@'') (st_name (elf_syms f0 ! i)) \<and>
      (sv \<longleftrightarrow> CHR ''@'' \<in> set (st_name (elf_syms f0 ! i)) \<and>
         dropWhile (\<lambda>c. c \<noteq> CHR ''@'') (st_name (elf_syms f0 ! i)) \<noteq> ''@'' \<and>
         dropWhile (\<lambda>c. c \<noteq> CHR ''@'') (st_name (elf_syms f0 ! i)) \<noteq> ''@@'') \<and>
      has_symver f1 ! (i - first_global f0) = sv \<and>
      (\<exists>key' s. symbols f1 ! i = Some (GlobalSym key') \<and> heap1 (GlobalSym key') = Some s \<and>
         (names_follow_keys heap0 \<longrightarrow> name s = takeWhile (\<lambda>c. c \<noteq> CHR ''@'') key')) \<and>
      (names_follow_keys heap0 \<and>
       \<not> (is_undef (elf_syms f0 ! i) \<and>
          (starts_with nm ''__real_'' \<and> drop 7 nm \<in> arg_wrap ctx \<or>
           (\<exists>s0. heap0 (GlobalSym key) = Some s0 \<and> is_wrapped s0))) \<longrightarrow>
         symbols f1 ! i = Some (GlobalSym key) \<and>
         (\<exists>s. heap1 (GlobalSym key) = Some s \<and> name s = nm))) \<and>
   (first_global f0 \<le> length (elf_syms f0) \<longrightarrow>
      (\<exists>f1 heap1. init_global_symbols ctx this (f0, heap0) = Inr (f1, heap1) \<and>
         (\<forall>j < length (elf_syms f0). j < length (symbols f1) \<and> symbols f1 ! j \<noteq> None)))"
proof (intro conjI)
  show "CHR ''@'' \<notin> set base \<longrightarrow>
      parse_symver base = (base, base, False) \<and>
      parse_symver (base @ ''@'') = (base @ ''@'', base, False) \<and>
      parse_symver (base @ ''@@'') = (base @ ''@@'', base, False) \<and>
      (v \<noteq> [] \<longrightarrow> parse_symver (base @ ''@@'' @ v) = (base, base, True)) \<and>
      (v \<noteq> [] \<and> hd v \<noteq> CHR ''@'' \<longrightarrow>
         parse_symver (base @ ''@'' @ v) = (base @ ''@'' @ v, base, True))"
    using parse_symver_plain[of base] parse_symver_bare1[of base] parse_symver_bare2[of base]
      parse_symver_default[of base v] parse_symver_versioned[of base v]
    by blast
next
  let ?str = "st_name (elf_syms f0 ! i)"
  show "init_global_symbols ctx this (f0, heap0) = Inr (f1, heap1) \<and>
    first_global f0 \<le> i \<and> i < length (elf_syms f0) \<and>
    parse_symver ?str = (key, nm, sv) \<longrightarrow>
      nm = takeWhile (\<lambda>c. c \<noteq> CHR ''@'') ?str \<and>
      (sv \<longleftrightarrow> CHR ''@'' \<in> set ?str \<and>
         dropWhile (\<lambda>c. c \<noteq> CHR ''@'') ?str \<noteq> ''@'' \<and>
         dropWhile (\<lambda>c. c \<noteq> CHR ''@'') ?str \<noteq> ''@@'') \<and>
      has_symver f1 ! (i - first_global f0) = sv \<and>
      (\<exists>key' s. symbols f1 ! i = Some (GlobalSym key') \<and> heap1 (GlobalSym key') = Some s \<and>
         (names_follow_keys heap0 \<longrightarrow> name s = takeWhile (\<lambda>c. c \<noteq> CHR ''@'') key')) \<and>
      (names_follow_keys heap0 \<and>
       \<not> (is_undef (elf_syms f0 ! i) \<and>
          (starts_with nm ''__real_'' \<and> drop 7 nm \<in> arg_wrap ctx \<or>
           (\<exists>s0. heap0 (GlobalSym key) = Some s0 \<and> is_wrapped s0))) \<longrightarrow>
         symbols f1 ! i = Some (GlobalSym key) \<and>
         (\<exists>s. heap1 (GlobalSym key) = Some s \<and> name s = nm))"
  proof
    assume h: "init_global_symbols ctx this (f0, heap0) = Inr (f1, heap1) \<and>
      first_global f0 \<le> i \<and> i < length (elf_syms f0) \<and> parse_symver ?str = (key, nm, sv)"
    then have pass: "init_global_symbols ctx this (f0, heap0) = Inr (f1, heap1)"
      and lo: "first_global f0 \<le> i" and i: "i < length (elf_syms f0)"
      and p: "parse_symver ?str = (key, nm, sv)"
      by simp_all
    have a: "nm = takeWhile (\<lambda>c. c \<noteq> CHR ''@'') ?str" using p by (rule parse_symver_name)
    have b: "sv \<longleftrightarrow> CHR ''@'' \<in> set ?str \<and>
         dropWhile (\<lambda>c. c \<noteq> CHR ''@'') ?str \<noteq> ''@'' \<and>
         dropWhile (\<lambda>c. c \<noteq> CHR ''@'') ?str \<noteq> ''@@''"
      using p by (rule parse_symver_symver)
    from init_global_symbols_at[OF pass lo i p] have c: "has_symver f1 ! (i - first_global f0) = sv"
      by blast
    note d = init_global_symbols_interned[OF pass lo i]
    have e: "symbols f1 ! i = Some (GlobalSym key) \<and>
         (\<exists>s. heap1 (GlobalSym key) = Some s \<and> name s = nm)"
      if w: "names_follow_keys heap0 \<and>
       \<not> (is_undef (elf_syms f0 ! i) \<and>
          (starts_with nm ''__real_'' \<and> drop 7 nm \<in> arg_wrap ctx \<or>
           (\<exists>s0. heap0 (GlobalSym key) = Some s0 \<and> is_wrapped s0)))"
    proof -
      from w have nf: "names_follow_keys heap0"
        and c1: "\<not> (is_undef (elf_syms f0 ! i) \<and> starts_with nm ''__real_'' \<and>
                   drop 7 nm \<in> arg_wrap ctx)"
        and c2: "\<not> (is_undef (elf_syms f0 ! i) \<and>
                   (\<exists>s0. heap0 (GlobalSym key) = Some s0 \<and> is_wrapped s0))"
        by auto
      from init_global_symbols_ordinary[OF pass lo i p nf c1] show ?thesis
        unfolding if_not_P[OF c2] .
    qed
    have e': "names_follow_keys heap0 \<and>
       \<not> (is_undef (elf_syms f0 ! i) \<and>
          (starts_with nm ''__real_'' \<and> drop 7 nm \<in> arg_wrap ctx \<or>
           (\<exists>s0. heap0 (GlobalSym key) = Some s0 \<and> is_wrapped s0))) \<longrightarrow>
         symbols f1 ! i = Some (GlobalSym key) \<and>
         (\<exists>s. heap1 (GlobalSym key) = Some s \<and> name s = nm)"
      using e by (rule impI)
    show "nm = takeWhile (\<lambda>c. c \<noteq> CHR ''@'') ?str \<and>
      (sv \<longleftrightarrow> CHR ''@'' \<in> set ?str \<and>
         dropWhile (\<lambda>c. c \<noteq> CHR ''@'') ?str \<noteq> ''@'' \<and>
         dropWhile (\<lambda>c. c \<noteq> CHR ''@'') ?str \<noteq> ''@@'') \<and>
      has_symver f1 ! (i - first_global f0) = sv \<and>
      (\<exists>key' s. symbols f1 ! i = Some (GlobalSym key') \<and> heap1 (GlobalSym key') = Some s \<and>
         (names_follow_keys heap0 \<longrightarrow> name s = takeWhile (\<lambda>c. c \<noteq> CHR ''@'') key')) \<and>
      (names_follow_keys heap0 \<and>
       \<not> (is_undef (elf_syms f0 ! i) \<and>
          (starts_with nm ''__real_'' \<and> drop 7 nm \<in> arg_wrap ctx \<or>
           (\<exists>s0. heap0 (GlobalSym key) = Some s0 \<and> is_wrapped s0))) \<longrightarrow>
         symbols f1 ! i = Some (GlobalSym key) \<and>
         (\<exists>s. heap1 (GlobalSym key) = Some s \<and> name s = nm))"
      by (intro conjI a b c d e')
  qed
next
  show "first_global f0 \<le> length (elf_syms f0) \<longrightarrow>
      (\<exists>f1 heap1. init_global_symbols ctx this (f0, heap0) = Inr (f1, heap1) \<and>
         (\<forall>j < length (elf_syms f0). j < length (symbols f1) \<and> symbols f1 ! j \<noteq> None))"
    using init_global_symbols_returns[of f0 ctx this heap0] by blast
qed

text \<open>
  With \<^verbatim>\<open>--wrap=malloc\<close>, entry 2 of \<open>wrap_raw\<close> is named \<open>__real_malloc\<close>, without
  version, and \<open>symbols[2]\<close> ends as a symbol named \<open>malloc\<close>.
\<close>

theorem wrapped_name_differs:
  "\<exists>f1 heap1 s. init_global_symbols ctx_wrap 4 (wrap_raw, wrap_heap) = Inr (f1, heap1) \<and>
     st_name (elf_syms wrap_raw ! 2) = ''__real_malloc'' \<and>
     symbols f1 ! 2 = Some (GlobalSym ''malloc'') \<and>
     heap1 (GlobalSym ''malloc'') = Some s \<and> name s = ''malloc''"
  by (simp add: init_global_symbols_def init_global_step_def wrap_symbol_def parse_symver_def
      get_symbol_def starts_with_def wrap_defs is_undef_def is_common_def SHN_UNDEF_def
      SHN_COMMON_def new_symbol_def at_def bind_err_def Let_def upt_rec)

text \<open>
  The entries \<open>bar@@V2\<close> (defined) and \<open>baz@V1\<close> (undefined) of \<open>wrap_raw\<close>: the first is
  interned under \<open>bar\<close>, the second under \<open>baz@V1\<close>, both have \<^verbatim>\<open>has_symver\<close> set and
  their symbols are named \<open>bar\<close> and \<open>baz\<close>; the entry \<open>malloc\<close> has no \<^verbatim>\<open>has_symver\<close>.
\<close>

theorem symver_parsing_witness:
  "parse_symver ''bar@@V2'' = (''bar'', ''bar'', True) \<and>
   parse_symver ''baz@V1'' = (''baz@V1'', ''baz'', True) \<and>
   parse_symver ''baz@'' = (''baz@'', ''baz'', False) \<and>
   (\<exists>f1 heap1. init_global_symbols ctx_wrap 4 (wrap_raw, wrap_heap) = Inr (f1, heap1) \<and>
      symbols f1 ! 0 \<noteq> None \<and>
      symbols f1 ! 4 = Some (GlobalSym ''bar'') \<and>
      (\<exists>s. heap1 (GlobalSym ''bar'') = Some s \<and> name s = ''bar'') \<and>
      has_symver f1 ! 3 = True \<and>
      symbols f1 ! 5 = Some (GlobalSym ''baz@V1'') \<and>
      (\<exists>s. heap1 (GlobalSym ''baz@V1'') = Some s \<and> name s = ''baz'') \<and>
      has_symver f1 ! 4 = True \<and>
      has_symver f1 ! 0 = False)"
proof -
  note nf = names_follow_keys_wrap_heap
  note T = symver_parsing[where ctx=ctx_wrap and this=4 and ?f0.0=wrap_raw and ?heap0.0=wrap_heap]
  have b: "CHR ''@'' \<notin> set ''bar''" "CHR ''@'' \<notin> set ''baz''" by simp_all
  have v: "''V2'' \<noteq> []" "''V1'' \<noteq> [] \<and> hd ''V1'' \<noteq> CHR ''@''" by simp_all
  from T[where base="''bar''" and v="''V2''", THEN conjunct1, THEN mp, OF b(1)] v(1)
  have f1: "parse_symver ''bar@@V2'' = (''bar'', ''bar'', True)" by simp
  from T[where base="''baz''" and v="''V1''", THEN conjunct1, THEN mp, OF b(2)] v(2)
  have f2: "parse_symver ''baz@V1'' = (''baz@V1'', ''baz'', True)"
    and f3: "parse_symver ''baz@'' = (''baz@'', ''baz'', False)"
    by simp_all
  have fg: "first_global wrap_raw \<le> length (elf_syms wrap_raw)" by (simp add: wrap_defs)
  from T[THEN conjunct2, THEN conjunct2, THEN mp, OF fg]
  obtain f1 heap1 where pass: "init_global_symbols ctx_wrap 4 (wrap_raw, wrap_heap) = Inr (f1, heap1)"
    and nn: "\<forall>j < length (elf_syms wrap_raw). j < length (symbols f1) \<and> symbols f1 ! j \<noteq> None"
    by blast
  have "0 < length (elf_syms wrap_raw)" by (simp add: wrap_defs)
  with nn have n0: "symbols f1 ! 0 \<noteq> None" by blast
  have len: "first_global wrap_raw \<le> 4" "4 < length (elf_syms wrap_raw)"
    "first_global wrap_raw \<le> 5" "5 < length (elf_syms wrap_raw)"
    "first_global wrap_raw \<le> 1" "1 < length (elf_syms wrap_raw)"
    by (simp_all add: wrap_defs)
  have g: "first_global wrap_raw = 1" by (simp add: wrap_defs)
  have p4: "parse_symver (st_name (elf_syms wrap_raw ! 4)) = (''bar'', ''bar'', True)"
    using f1 by (simp add: wrap_defs)
  have p5: "parse_symver (st_name (elf_syms wrap_raw ! 5)) = (''baz@V1'', ''baz'', True)"
    using f2 by (simp add: wrap_defs)
  have p1: "parse_symver (st_name (elf_syms wrap_raw ! 1)) = (''malloc'', ''malloc'', False)"
    by (simp add: wrap_defs parse_symver_def)
  have w4: "names_follow_keys wrap_heap \<and>
       \<not> (is_undef (elf_syms wrap_raw ! 4) \<and>
          (starts_with ''bar'' ''__real_'' \<and> drop 7 ''bar'' \<in> arg_wrap ctx_wrap \<or>
           (\<exists>s0. wrap_heap (GlobalSym ''bar'') = Some s0 \<and> is_wrapped s0)))"
    using nf by (simp add: wrap_defs is_undef_def SHN_UNDEF_def)
  have w5: "names_follow_keys wrap_heap \<and>
       \<not> (is_undef (elf_syms wrap_raw ! 5) \<and>
          (starts_with ''baz'' ''__real_'' \<and> drop 7 ''baz'' \<in> arg_wrap ctx_wrap \<or>
           (\<exists>s0. wrap_heap (GlobalSym ''baz@V1'') = Some s0 \<and> is_wrapped s0)))"
    using nf by (simp add: wrap_heap_def starts_with_def)
  note T4 = T[where ?f1.0=f1 and ?heap1.0=heap1 and i=4, THEN conjunct2, THEN conjunct1, THEN mp,
      OF conjI[OF pass conjI[OF len(1) conjI[OF len(2) p4]]]]
  note T5 = T[where ?f1.0=f1 and ?heap1.0=heap1 and i=5, THEN conjunct2, THEN conjunct1, THEN mp,
      OF conjI[OF pass conjI[OF len(3) conjI[OF len(4) p5]]]]
  note T1 = T[where ?f1.0=f1 and ?heap1.0=heap1 and i=1, THEN conjunct2, THEN conjunct1, THEN mp,
      OF conjI[OF pass conjI[OF len(5) conjI[OF len(6) p1]]]]
  note R4 = T4[THEN conjunct2, THEN conjunct2, THEN conjunct2, THEN conjunct2, THEN mp, OF w4]
  note R5 = T5[THEN conjunct2, THEN conjunct2, THEN conjunct2, THEN conjunct2, THEN mp, OF w5]
  have i3: "4 - first_global wrap_raw = 3" "5 - first_global wrap_raw = 4"
    "1 - first_global wrap_raw = 0"
    by (simp_all add: g)
  have r4: "symbols f1 ! 4 = Some (GlobalSym ''bar'')"
    "\<exists>s. heap1 (GlobalSym ''bar'') = Some s \<and> name s = ''bar''"
    using R4 by blast+
  have h4: "has_symver f1 ! 3 = True"
    using T4[THEN conjunct2, THEN conjunct2, THEN conjunct1] unfolding i3 .
  have r5: "symbols f1 ! 5 = Some (GlobalSym ''baz@V1'')"
    "\<exists>s. heap1 (GlobalSym ''baz@V1'') = Some s \<and> name s = ''baz''"
    using R5 by blast+
  have h5: "has_symver f1 ! 4 = True"
    using T5[THEN conjunct2, THEN conjunct2, THEN conjunct1] unfolding i3 .
  have r1: "has_symver f1 ! 0 = False"
    using T1[THEN conjunct2, THEN conjunct2, THEN conjunct1] unfolding i3 .
  from f1 f2 f3 pass n0 r4 h4 r5 h5 r1 show ?thesis by blast
qed

subsection \<open>Section groups: one section and the whole loop\<close>

lemma for_each_fails:
  "for_each body xs st = Inr sti \<Longrightarrow> body sti i = Inl e \<Longrightarrow>
   for_each body (xs @ i # ys) st = Inl e"
proof (induction xs arbitrary: st)
  case Nil
  then show ?case by simp
next
  case (Cons x xs)
  from Cons.prems(1) obtain s1 where s1: "body st x = Inr s1"
    and rest: "for_each body xs s1 = Inr sti"
    by (cases "body st x") simp_all
  from Cons.IH[OF rest Cons.prems(2)] s1 show ?case by simp
qed

lemma for_each_prefix_fails:
  "for_each body xs st = Inl e \<Longrightarrow> for_each body (xs @ ys) st = Inl e"
proof (induction xs arbitrary: st)
  case Nil
  then show ?case by simp
next
  case (Cons x xs)
  then show ?case by (cases "body st x") simp_all
qed

lemma insert_comdat_group_eq:
  "insert_comdat_group fresh m nm = (if m nm = None then m(nm \<mapsto> fresh) else m, nm)"
  by (simp add: insert_comdat_group_def split: option.splits)

lemma read_section_group:
  assumes "group_section ctx shdrs i"
  shows "read_section ctx fresh f shdrs get_data other st i =
           classify_group fresh f shdrs (get_data i) i (shdrs ! i) st"
  using assms
  by (auto simp: group_section_def read_section_def at_in_range bind_err_simps)

lemma classify_group_cases:
  assumes sig: "group_signature f shdrs shdr = Inr sg"
  shows "starts_with sg ''wm4.'' \<Longrightarrow> classify_group fresh f shdrs entries i shdr st = Inr st"
    and "\<not> starts_with sg ''wm4.'' \<Longrightarrow> entries = [] \<Longrightarrow>
         classify_group fresh f shdrs entries i shdr st = Inl (Fatal ''empty SHT_GROUP'')"
    and "\<not> starts_with sg ''wm4.'' \<Longrightarrow> entries \<noteq> [] \<Longrightarrow> hd entries = 0 \<Longrightarrow>
         classify_group fresh f shdrs entries i shdr st = Inr st"
    and "\<not> starts_with sg ''wm4.'' \<Longrightarrow> entries \<noteq> [] \<Longrightarrow> hd entries \<noteq> 0 \<Longrightarrow>
         hd entries \<noteq> GRP_COMDAT \<Longrightarrow>
         classify_group fresh f shdrs entries i shdr st = Inl (Fatal ''unsupported SHT_GROUP format'')"
    and "\<not> starts_with sg ''wm4.'' \<Longrightarrow> entries \<noteq> [] \<Longrightarrow> hd entries = GRP_COMDAT \<Longrightarrow>
         classify_group fresh f shdrs entries i shdr st =
           Inr (st\<lparr>comdat_map := (if comdat_map st sg = None then (comdat_map st)(sg \<mapsto> fresh)
                                    else comdat_map st),
                   comdat_groups := comdat_groups st @
                     [\<lparr>cg_group = sg, cg_sect_idx = int i, cg_members = tl entries\<rparr>]\<rparr>)"
  by (simp_all add: classify_group_def sig bind_err_simps insert_comdat_group_eq GRP_COMDAT_def)

lemma classify_group_shape:
  assumes "classify_group fresh f shdrs entries i shdr st = Inr st'"
  shows "st' = st \<or>
         (\<exists>sg. st' = st\<lparr>comdat_map := (if comdat_map st sg = None then (comdat_map st)(sg \<mapsto> fresh)
                                         else comdat_map st),
                        comdat_groups := comdat_groups st @
                          [\<lparr>cg_group = sg, cg_sect_idx = int i, cg_members = tl entries\<rparr>]\<rparr>)"
proof -
  from assms obtain sg where sig: "group_signature f shdrs shdr = Inr sg"
    unfolding classify_group_def by (auto elim: bind_err_InrE)
  note c = classify_group_cases[OF sig, where entries=entries and fresh=fresh and i=i and st=st]
  show ?thesis
  proof (cases "starts_with sg ''wm4.''")
    case True
    with c(1) assms show ?thesis by simp
  next
    case nw: False
    show ?thesis
    proof (cases "entries = []")
      case True
      with c(2) nw assms show ?thesis by simp
    next
      case ne: False
      show ?thesis
      proof (cases "hd entries = 0")
        case True
        with c(3) nw ne assms show ?thesis by simp
      next
        case nz: False
        show ?thesis
        proof (cases "hd entries = GRP_COMDAT")
          case True
          from c(5)[OF nw ne True] assms
          have "st' = st\<lparr>comdat_map := (if comdat_map st sg = None then (comdat_map st)(sg \<mapsto> fresh)
                                         else comdat_map st),
                        comdat_groups := comdat_groups st @
                          [\<lparr>cg_group = sg, cg_sect_idx = int i, cg_members = tl entries\<rparr>]\<rparr>"
            by (simp only: sum.inject)
          then show ?thesis by (intro disjI2 exI[of _ sg])
        next
          case False
          from c(4)[OF nw ne nz False] assms show ?thesis by simp
        qed
      qed
    qed
  qed
qed

lemma read_section_shape:
  assumes "read_section ctx fresh f shdrs get_data other st i = Inr st'"
  shows "st' = st \<or> st' = st\<lparr>is_gcc_offload_obj := True\<rparr> \<or> (\<exists>r. st' = st\<lparr>others := r\<rparr>) \<or>
         (\<exists>sg. st' = st\<lparr>comdat_map := (if comdat_map st sg = None then (comdat_map st)(sg \<mapsto> fresh)
                                         else comdat_map st),
                        comdat_groups := comdat_groups st @
                          [\<lparr>cg_group = sg, cg_sect_idx = int i, cg_members = tl (get_data i)\<rparr>]\<rparr>)"
proof -
  from assms obtain shdr where
    r: "(if sh_flags_hdr shdr AND SHF_EXCLUDE \<noteq> 0 \<and>
          starts_with (sh_name shdr) ''.gnu.offload_lto_.symtab.''
       then Inr (st\<lparr>is_gcc_offload_obj := True\<rparr>)
       else if sh_flags_hdr shdr AND SHF_EXCLUDE \<noteq> 0 \<and> sh_flags_hdr shdr AND SHF_ALLOC = 0 \<and>
               sh_type shdr \<noteq> SHT_LLVM_ADDRSIG \<and> \<not> arg_relocatable ctx
       then Inr st
       else if sh_type shdr = SHT_GROUP
       then classify_group fresh f shdrs (get_data i) i shdr st
       else bind_err (other i shdr (others st)) (\<lambda>r. Inr (st\<lparr>others := r\<rparr>))) = Inr st'"
    unfolding read_section_def by (auto elim: bind_err_InrE)
  show ?thesis
  proof (cases "sh_flags_hdr shdr AND SHF_EXCLUDE \<noteq> 0 \<and>
          starts_with (sh_name shdr) ''.gnu.offload_lto_.symtab.''")
    case True
    from r[unfolded if_P[OF True]] show ?thesis by simp
  next
    case c1: False
    show ?thesis
    proof (cases "sh_flags_hdr shdr AND SHF_EXCLUDE \<noteq> 0 \<and> sh_flags_hdr shdr AND SHF_ALLOC = 0 \<and>
               sh_type shdr \<noteq> SHT_LLVM_ADDRSIG \<and> \<not> arg_relocatable ctx")
      case True
      from r[unfolded if_not_P[OF c1] if_P[OF True]] show ?thesis by simp
    next
      case c2: False
      show ?thesis
      proof (cases "sh_type shdr = SHT_GROUP")
        case True
        from r[unfolded if_not_P[OF c1] if_not_P[OF c2] if_P[OF True]]
        have "classify_group fresh f shdrs (get_data i) i shdr st = Inr st'" .
        from classify_group_shape[OF this] show ?thesis by blast
      next
        case False
        from r[unfolded if_not_P[OF c1] if_not_P[OF c2] if_not_P[OF False]]
        have "bind_err (other i shdr (others st)) (\<lambda>r. Inr (st\<lparr>others := r\<rparr>)) = Inr st'" .
        then obtain r' where "st' = st\<lparr>others := r'\<rparr>" by (auto elim: bind_err_InrE)
        then show ?thesis by blast
      qed
    qed
  qed
qed

lemma read_section_frame:
  assumes "read_section ctx fresh f shdrs get_data other st i = Inr st'"
  shows "(\<forall>k. k \<noteq> i \<longrightarrow> groups_of k st' = groups_of k st) \<and>
         (\<forall>sg g. comdat_map st sg = Some g \<longrightarrow> comdat_map st' sg = Some g)"
  using read_section_shape[OF assms]
  by (auto simp: groups_of_def)

lemma read_sections_frame:
  "for_each (read_section ctx fresh f shdrs get_data other) js st = Inr st' \<Longrightarrow>
   (\<forall>k. k \<notin> set js \<longrightarrow> groups_of k st' = groups_of k st) \<and>
   (\<forall>sg g. comdat_map st sg = Some g \<longrightarrow> comdat_map st' sg = Some g)"
proof (induction js arbitrary: st)
  case Nil
  then show ?case by simp
next
  case (Cons j js)
  from Cons.prems obtain s1 where s1: "read_section ctx fresh f shdrs get_data other st j = Inr s1"
    and rest: "for_each (read_section ctx fresh f shdrs get_data other) js s1 = Inr st'"
    by (cases "read_section ctx fresh f shdrs get_data other st j") simp_all
  from read_section_frame[OF s1] have
    a: "\<forall>k. k \<noteq> j \<longrightarrow> groups_of k s1 = groups_of k st"
    and b: "\<forall>sg g. comdat_map st sg = Some g \<longrightarrow> comdat_map s1 sg = Some g"
    by simp_all
  from Cons.IH[OF rest] have
    c: "\<forall>k. k \<notin> set js \<longrightarrow> groups_of k st' = groups_of k s1"
    and d: "\<forall>sg g. comdat_map s1 sg = Some g \<longrightarrow> comdat_map st' sg = Some g"
    by simp_all
  from a b c d show ?case by simp
qed

lemma initialize_sections_at:
  assumes pass: "initialize_sections ctx fresh f shdrs get_data other attach st = Inr st'"
    and g: "group_section ctx shdrs i"
  shows "\<exists>sti stj. for_each (read_section ctx fresh f shdrs get_data other) [0 ..< i] st = Inr sti \<and>
           classify_group fresh f shdrs (get_data i) i (shdrs ! i) sti = Inr stj \<and>
           groups_of i sti = groups_of i st \<and> groups_of i st' = groups_of i stj \<and>
           (\<forall>sg g. comdat_map st sg = Some g \<longrightarrow> comdat_map sti sg = Some g) \<and>
           (\<forall>sg g. comdat_map stj sg = Some g \<longrightarrow> comdat_map st' sg = Some g)"
proof -
  let ?step = "read_section ctx fresh f shdrs get_data other"
  from g have i: "i < length shdrs" by (simp add: group_section_def)
  from pass obtain st1 where loop: "for_each ?step [0 ..< length shdrs] st = Inr st1"
    and fin: "bind_err (attach (others st1)) (\<lambda>r. Inr (st1\<lparr>others := r\<rparr>)) = Inr st'"
    unfolding initialize_sections_def by (auto elim: bind_err_InrE)
  from fin obtain r where st': "st' = st1\<lparr>others := r\<rparr>" by (auto elim: bind_err_InrE)
  have z: "0 \<le> i" by simp
  from loop[unfolded upt_split_at[OF z i]] obtain sti stj where
    a: "for_each ?step [0 ..< i] st = Inr sti"
    and b: "?step sti i = Inr stj"
    and c: "for_each ?step [Suc i ..< length shdrs] stj = Inr st1"
    by (blast dest: for_each_split)
  from b have b': "classify_group fresh f shdrs (get_data i) i (shdrs ! i) sti = Inr stj"
    by (simp add: read_section_group[OF g])
  from read_sections_frame[OF a] have fa: "groups_of i sti = groups_of i st"
    "\<forall>sg g. comdat_map st sg = Some g \<longrightarrow> comdat_map sti sg = Some g"
    by simp_all
  from read_sections_frame[OF c] have fc: "groups_of i st1 = groups_of i stj"
    "\<forall>sg g. comdat_map stj sg = Some g \<longrightarrow> comdat_map st1 sg = Some g"
    by simp_all
  from fc st' have fc': "groups_of i st' = groups_of i stj"
    "\<forall>sg g. comdat_map stj sg = Some g \<longrightarrow> comdat_map st' sg = Some g"
    by (simp_all add: groups_of_def)
  from a b' fa fc' show ?thesis by blast
qed

lemma initialize_sections_fails:
  fixes st :: "('g, 'r) SecState"
  assumes g: "group_section ctx shdrs i"
    and fail: "\<And>sti :: ('g, 'r) SecState.
                 classify_group fresh f shdrs (get_data i) i (shdrs ! i) sti = Inl e"
  shows "(\<exists>e'. initialize_sections ctx fresh f shdrs get_data other attach st = Inl e') \<and>
         (\<forall>sti. for_each (read_section ctx fresh f shdrs get_data other) [0 ..< i] st = Inr sti \<longrightarrow>
            initialize_sections ctx fresh f shdrs get_data other attach st = Inl e)"
proof -
  let ?step = "read_section ctx fresh f shdrs get_data other"
  from g have i: "i < length shdrs" by (simp add: group_section_def)
  have z: "0 \<le> i" by simp
  have sp: "[0 ..< length shdrs] = [0 ..< i] @ i # [Suc i ..< length shdrs]"
    by (rule upt_split_at[OF z i])
  have b: "\<forall>sti. for_each ?step [0 ..< i] st = Inr sti \<longrightarrow>
            initialize_sections ctx fresh f shdrs get_data other attach st = Inl e"
  proof (intro allI impI)
    fix sti assume a: "for_each ?step [0 ..< i] st = Inr sti"
    have "?step sti i = Inl e" by (simp add: read_section_group[OF g] fail)
    from for_each_fails[OF a this] have "for_each ?step [0 ..< length shdrs] st = Inl e"
      unfolding sp .
    then show "initialize_sections ctx fresh f shdrs get_data other attach st = Inl e"
      by (simp add: initialize_sections_def bind_err_simps)
  qed
  have "\<exists>e'. initialize_sections ctx fresh f shdrs get_data other attach st = Inl e'"
  proof (cases "for_each ?step [0 ..< i] st")
    case (Inl e0)
    from for_each_prefix_fails[OF this] have "for_each ?step [0 ..< length shdrs] st = Inl e0"
      unfolding sp .
    then show ?thesis by (simp add: initialize_sections_def bind_err_simps)
  next
    case (Inr sti)
    with b show ?thesis by blast
  qed
  with b show ?thesis by blast
qed

subsection \<open>Section groups: the claim\<close>

lemma group_signature_eq:
  "group_signature f shdrs shdr =
     (if length (elf_syms f) \<le> unat (sh_info shdr) then Inl (Fatal ''invalid symbol index'')
      else if st_type (elf_syms f ! unat (sh_info shdr)) = STT_SECTION
           then (if get_shndx f (unat (sh_info shdr)) < length shdrs
                 then Inr (sh_name (shdrs ! get_shndx f (unat (sh_info shdr))))
                 else Inl OutOfBounds)
           else Inr (st_name (elf_syms f ! unat (sh_info shdr))))"
  by (simp add: group_signature_def Let_def at_def bind_err_def)

lemma classify_group_no_signature:
  "group_signature f shdrs shdr = Inl e \<Longrightarrow>
   classify_group fresh f shdrs entries i shdr st = Inl e"
  by (simp add: classify_group_def bind_err_simps)

text \<open>
  Claim C9. The signature of a group is the name of the symbol \<^verbatim>\<open>sh_info\<close> of its
  header, or the name of the section of that symbol when the symbol has the type
  \<^verbatim>\<open>STT_SECTION\<close>; an \<^verbatim>\<open>sh_info\<close> that is not an index of the symbol table is fatal.
  For a section \<open>i\<close> that reaches the case \<^verbatim>\<open>SHT_GROUP\<close>, with the signature \<open>sg\<close> and
  the words \<open>get_data i\<close>, and for \<^verbatim>\<open>ObjectFile::initialize_sections\<close> as a whole:
  if the section has no signature, the function fails; if \<open>sg\<close> starts with \<open>wm4.\<close>, or if
  the section has words and the first is 0, the iteration changes nothing and a function
  that returns has registered nothing for section \<open>i\<close>; if the section has no word at all,
  or if its first word is neither 0 nor \<^verbatim>\<open>GRP_COMDAT\<close>, the function fails, with the
  message of that case when the sections before \<open>i\<close> are read without failure; otherwise
  (the first word is \<^verbatim>\<open>GRP_COMDAT\<close>) a function that returns has registered for section
  \<open>i\<close> exactly one element, which points to the record of \<open>sg\<close> in the map of the groups
  and holds \<open>i\<close> and the words after the first, and the map has a record for \<open>sg\<close>, the
  one it had before if it had one.
\<close>

theorem group_classification:
  "group_signature f shdrs shdr =
     (if length (elf_syms f) \<le> unat (sh_info shdr) then Inl (Fatal ''invalid symbol index'')
      else if st_type (elf_syms f ! unat (sh_info shdr)) = STT_SECTION
           then (if get_shndx f (unat (sh_info shdr)) < length shdrs
                 then Inr (sh_name (shdrs ! get_shndx f (unat (sh_info shdr))))
                 else Inl OutOfBounds)
           else Inr (st_name (elf_syms f ! unat (sh_info shdr)))) \<and>
   (group_section ctx shdrs i \<and> group_signature f shdrs (shdrs ! i) = Inl e \<longrightarrow>
      (\<exists>e'. initialize_sections ctx fresh f shdrs get_data other attach st = Inl e') \<and>
      (\<forall>sti. for_each (read_section ctx fresh f shdrs get_data other) [0 ..< i] st = Inr sti \<longrightarrow>
         initialize_sections ctx fresh f shdrs get_data other attach st = Inl e)) \<and>
   (group_section ctx shdrs i \<and> group_signature f shdrs (shdrs ! i) = Inr sg \<and>
    (starts_with sg ''wm4.'' \<or> get_data i \<noteq> [] \<and> hd (get_data i) = 0) \<longrightarrow>
      (\<forall>sti. read_section ctx fresh f shdrs get_data other sti i = Inr sti) \<and>
      (\<forall>st'. initialize_sections ctx fresh f shdrs get_data other attach st = Inr st' \<longrightarrow>
         groups_of i st' = groups_of i st)) \<and>
   (group_section ctx shdrs i \<and> group_signature f shdrs (shdrs ! i) = Inr sg \<and>
    \<not> starts_with sg ''wm4.'' \<and> get_data i = [] \<longrightarrow>
      (\<exists>e'. initialize_sections ctx fresh f shdrs get_data other attach st = Inl e') \<and>
      (\<forall>sti. for_each (read_section ctx fresh f shdrs get_data other) [0 ..< i] st = Inr sti \<longrightarrow>
         initialize_sections ctx fresh f shdrs get_data other attach st =
           Inl (Fatal ''empty SHT_GROUP''))) \<and>
   (group_section ctx shdrs i \<and> group_signature f shdrs (shdrs ! i) = Inr sg \<and>
    \<not> starts_with sg ''wm4.'' \<and> get_data i \<noteq> [] \<and> hd (get_data i) \<noteq> 0 \<and>
    hd (get_data i) \<noteq> GRP_COMDAT \<longrightarrow>
      (\<exists>e'. initialize_sections ctx fresh f shdrs get_data other attach st = Inl e') \<and>
      (\<forall>sti. for_each (read_section ctx fresh f shdrs get_data other) [0 ..< i] st = Inr sti \<longrightarrow>
         initialize_sections ctx fresh f shdrs get_data other attach st =
           Inl (Fatal ''unsupported SHT_GROUP format''))) \<and>
   (group_section ctx shdrs i \<and> group_signature f shdrs (shdrs ! i) = Inr sg \<and>
    \<not> starts_with sg ''wm4.'' \<and> get_data i \<noteq> [] \<and> hd (get_data i) = GRP_COMDAT \<and>
    initialize_sections ctx fresh f shdrs get_data other attach st = Inr st' \<longrightarrow>
      groups_of i st' = groups_of i st @
        [\<lparr>cg_group = sg, cg_sect_idx = int i, cg_members = tl (get_data i)\<rparr>] \<and>
      comdat_map st' sg \<noteq> None \<and>
      (\<forall>g. comdat_map st sg = Some g \<longrightarrow> comdat_map st' sg = Some g))"
proof -
  let ?step = "read_section ctx fresh f shdrs get_data other"
  let ?pass = "initialize_sections ctx fresh f shdrs get_data other attach st"
  have A: "(\<exists>e'. ?pass = Inl e') \<and>
      (\<forall>sti. for_each ?step [0 ..< i] st = Inr sti \<longrightarrow> ?pass = Inl e)"
    if h: "group_section ctx shdrs i \<and> group_signature f shdrs (shdrs ! i) = Inl e"
  proof (rule initialize_sections_fails)
    from h show "group_section ctx shdrs i" by simp
    fix sti :: "('a, 'b) SecState"
    from h show "classify_group fresh f shdrs (get_data i) i (shdrs ! i) sti = Inl e"
      by (simp add: classify_group_no_signature)
  qed
  have B: "(\<forall>sti. ?step sti i = Inr sti) \<and>
      (\<forall>st'. ?pass = Inr st' \<longrightarrow> groups_of i st' = groups_of i st)"
    if h: "group_section ctx shdrs i \<and> group_signature f shdrs (shdrs ! i) = Inr sg \<and>
      (starts_with sg ''wm4.'' \<or> get_data i \<noteq> [] \<and> hd (get_data i) = 0)"
  proof -
    from h have g: "group_section ctx shdrs i"
      and sig: "group_signature f shdrs (shdrs ! i) = Inr sg" by simp_all
    have c: "classify_group fresh f shdrs (get_data i) i (shdrs ! i) sti = Inr sti"
      for sti :: "('a, 'b) SecState"
    proof (cases "starts_with sg ''wm4.''")
      case True
      then show ?thesis by (rule classify_group_cases(1)[OF sig])
    next
      case False
      with h have "get_data i \<noteq> []" "hd (get_data i) = 0" by simp_all
      with False show ?thesis by (intro classify_group_cases(3)[OF sig])
    qed
    have 1: "\<forall>sti. ?step sti i = Inr sti" by (simp add: read_section_group[OF g] c)
    have 2: "\<forall>st'. ?pass = Inr st' \<longrightarrow> groups_of i st' = groups_of i st"
    proof (intro allI impI)
      fix st' assume p: "?pass = Inr st'"
      from initialize_sections_at[OF p g] obtain sti stj :: "('a, 'b) SecState" where
        x: "classify_group fresh f shdrs (get_data i) i (shdrs ! i) sti = Inr stj"
        and y: "groups_of i sti = groups_of i st" "groups_of i st' = groups_of i stj"
        by blast
      from x c[of sti] have "stj = sti" by simp
      with y show "groups_of i st' = groups_of i st" by simp
    qed
    from 1 2 show ?thesis by blast
  qed
  have C: "(\<exists>e'. ?pass = Inl e') \<and>
      (\<forall>sti. for_each ?step [0 ..< i] st = Inr sti \<longrightarrow> ?pass = Inl (Fatal ''empty SHT_GROUP''))"
    if h: "group_section ctx shdrs i \<and> group_signature f shdrs (shdrs ! i) = Inr sg \<and>
      \<not> starts_with sg ''wm4.'' \<and> get_data i = []"
  proof (rule initialize_sections_fails)
    from h show "group_section ctx shdrs i" by simp
    fix sti :: "('a, 'b) SecState"
    from h have sig: "group_signature f shdrs (shdrs ! i) = Inr sg" by simp
    from h show "classify_group fresh f shdrs (get_data i) i (shdrs ! i) sti =
        Inl (Fatal ''empty SHT_GROUP'')"
      by (intro classify_group_cases(2)[OF sig]) simp_all
  qed
  have D: "(\<exists>e'. ?pass = Inl e') \<and>
      (\<forall>sti. for_each ?step [0 ..< i] st = Inr sti \<longrightarrow>
         ?pass = Inl (Fatal ''unsupported SHT_GROUP format''))"
    if h: "group_section ctx shdrs i \<and> group_signature f shdrs (shdrs ! i) = Inr sg \<and>
      \<not> starts_with sg ''wm4.'' \<and> get_data i \<noteq> [] \<and> hd (get_data i) \<noteq> 0 \<and>
      hd (get_data i) \<noteq> GRP_COMDAT"
  proof (rule initialize_sections_fails)
    from h show "group_section ctx shdrs i" by simp
    fix sti :: "('a, 'b) SecState"
    from h have sig: "group_signature f shdrs (shdrs ! i) = Inr sg" by simp
    from h show "classify_group fresh f shdrs (get_data i) i (shdrs ! i) sti =
        Inl (Fatal ''unsupported SHT_GROUP format'')"
      by (intro classify_group_cases(4)[OF sig]) simp_all
  qed
  have E: "groups_of i st' = groups_of i st @
        [\<lparr>cg_group = sg, cg_sect_idx = int i, cg_members = tl (get_data i)\<rparr>] \<and>
      comdat_map st' sg \<noteq> None \<and>
      (\<forall>g. comdat_map st sg = Some g \<longrightarrow> comdat_map st' sg = Some g)"
    if h: "group_section ctx shdrs i \<and> group_signature f shdrs (shdrs ! i) = Inr sg \<and>
      \<not> starts_with sg ''wm4.'' \<and> get_data i \<noteq> [] \<and> hd (get_data i) = GRP_COMDAT \<and>
      ?pass = Inr st'"
  proof -
    from h have g: "group_section ctx shdrs i"
      and sig: "group_signature f shdrs (shdrs ! i) = Inr sg"
      and nw: "\<not> starts_with sg ''wm4.''" and ne: "get_data i \<noteq> []"
      and hd: "hd (get_data i) = GRP_COMDAT" and p: "?pass = Inr st'"
      by simp_all
    from initialize_sections_at[OF p g] obtain sti stj :: "('a, 'b) SecState" where
      x: "classify_group fresh f shdrs (get_data i) i (shdrs ! i) sti = Inr stj"
      and y: "groups_of i sti = groups_of i st" "groups_of i st' = groups_of i stj"
      and m1: "\<forall>sg g. comdat_map st sg = Some g \<longrightarrow> comdat_map sti sg = Some g"
      and m2: "\<forall>sg g. comdat_map stj sg = Some g \<longrightarrow> comdat_map st' sg = Some g"
      by blast
    from x classify_group_cases(5)[OF sig nw ne hd, of fresh i sti]
    have stj: "stj = sti\<lparr>comdat_map := (if comdat_map sti sg = None then (comdat_map sti)(sg \<mapsto> fresh)
                                    else comdat_map sti),
                   comdat_groups := comdat_groups sti @
                     [\<lparr>cg_group = sg, cg_sect_idx = int i, cg_members = tl (get_data i)\<rparr>]\<rparr>"
      by simp
    have 1: "groups_of i stj = groups_of i sti @
        [\<lparr>cg_group = sg, cg_sect_idx = int i, cg_members = tl (get_data i)\<rparr>]"
      by (simp add: stj groups_of_def)
    have 2: "comdat_map stj sg \<noteq> None" by (simp add: stj)
    have 3: "\<forall>g. comdat_map sti sg = Some g \<longrightarrow> comdat_map stj sg = Some g"
      by (simp add: stj)
    from 2 m2 have 4: "comdat_map st' sg \<noteq> None" by auto
    from m1 3 m2 have 5: "\<forall>g. comdat_map st sg = Some g \<longrightarrow> comdat_map st' sg = Some g"
      by blast
    from y 1 4 5 show ?thesis by simp
  qed
  from A B C D E show ?thesis
    by (intro conjI impI allI group_signature_eq) blast+
qed

lemmas grp_defs =
  grp_o_def grp_shdrs_def grp_data_def grp_other_def grp_attach_def grp_start_def no_file_def
  null_esym_def ctx0_def

lemmas sections_defs =
  initialize_sections_def read_section_def classify_group_def group_signature_def
  insert_comdat_group_def group_section_def groups_of_def starts_with_def
  SHT_GROUP_def SHT_LLVM_ADDRSIG_def SHF_ALLOC_def SHF_EXCLUDE_def GRP_COMDAT_def STT_SECTION_def
  at_def bind_err_def Let_def

text \<open>
  In \<open>grp_o\<close>, section 3 is a group whose first word is 0, not \<^verbatim>\<open>GRP_COMDAT\<close>, and
  section 5 a group with the flag word and no member. \<^verbatim>\<open>initialize_sections\<close>
  returns: it has dropped section 3 and registered section 5 with an empty list of members.
\<close>

theorem group_flag_zero_dropped:
  "sh_type (grp_shdrs ! 3) = SHT_GROUP \<and> hd (grp_data 3) = 0 \<and> GRP_COMDAT = 1 \<and>
   sh_type (grp_shdrs ! 5) = SHT_GROUP \<and> grp_data 5 = [GRP_COMDAT] \<and>
   initialize_sections ctx0 () grp_o grp_shdrs grp_data grp_other grp_attach grp_start =
     Inr (grp_start\<lparr>comdat_map := [''.text.f'' \<mapsto> (), ''vtable_for_X'' \<mapsto> ()],
            comdat_groups :=
              [\<lparr>cg_group = ''.text.f'', cg_sect_idx = 2, cg_members = [1]\<rparr>,
               \<lparr>cg_group = ''vtable_for_X'', cg_sect_idx = 5, cg_members = []\<rparr>]\<rparr>)"
  by (simp add: grp_defs sections_defs upt_rec)

text \<open>
  The groups of \<open>grp_o\<close>: section 2 is registered under the name of section 1 with its
  member, section 3 is dropped; without words, or with the first word 2, section 3 is
  fatal.
\<close>

theorem group_classification_witness:
  "(\<exists>st'. initialize_sections ctx0 () grp_o grp_shdrs grp_data grp_other grp_attach grp_start = Inr st' \<and>
      groups_of 2 st' = [\<lparr>cg_group = ''.text.f'', cg_sect_idx = 2, cg_members = [1]\<rparr>] \<and>
      comdat_map st' ''.text.f'' \<noteq> None \<and> groups_of 3 st' = []) \<and>
   initialize_sections ctx0 () grp_o grp_shdrs (\<lambda>i. if i = 2 then [1, 1] else [])
       grp_other grp_attach grp_start = Inl (Fatal ''empty SHT_GROUP'') \<and>
   initialize_sections ctx0 () grp_o grp_shdrs (\<lambda>i. if i = 3 then [2, 4] else grp_data i)
       grp_other grp_attach grp_start = Inl (Fatal ''unsupported SHT_GROUP format'')"
proof -
  let ?pass = "initialize_sections ctx0 () grp_o grp_shdrs grp_data grp_other grp_attach grp_start"
  let ?d1 = "\<lambda>i :: nat. if i = 2 then [1, 1] else [] :: u32 list"
  let ?d2 = "\<lambda>i. if i = 3 then [2, 4] else grp_data i"
  obtain st' where p: "?pass = Inr st'" by (simp add: grp_defs sections_defs upt_rec)
  have g2: "group_section ctx0 grp_shdrs 2" and g3: "group_section ctx0 grp_shdrs 3"
    by (simp_all add: grp_defs sections_defs)
  have s2: "group_signature grp_o grp_shdrs (grp_shdrs ! 2) = Inr ''.text.f''"
    and s3: "group_signature grp_o grp_shdrs (grp_shdrs ! 3) = Inr ''vtable_for_X''"
    by (simp_all add: grp_defs sections_defs)
  have n: "\<not> starts_with ''.text.f'' ''wm4.''" "\<not> starts_with ''vtable_for_X'' ''wm4.''"
    by (simp_all add: starts_with_def)
  have d2: "grp_data 2 \<noteq> []" "hd (grp_data 2) = GRP_COMDAT" "tl (grp_data 2) = [1]"
    and d3: "grp_data 3 \<noteq> [] \<and> hd (grp_data 3) = 0"
    by (simp_all add: grp_data_def GRP_COMDAT_def)
  have e: "groups_of 2 grp_start = []" "groups_of 3 grp_start = []"
    by (simp_all add: groups_of_def grp_start_def)
  note T = group_classification[where ctx=ctx0 and fresh="()" and f=grp_o and shdrs=grp_shdrs
      and other=grp_other and attach=grp_attach and st=grp_start]
  have "groups_of 2 st' = groups_of 2 grp_start @
        [\<lparr>cg_group = ''.text.f'', cg_sect_idx = int 2, cg_members = tl (grp_data 2)\<rparr>] \<and>
      comdat_map st' ''.text.f'' \<noteq> None \<and>
      (\<forall>g. comdat_map grp_start ''.text.f'' = Some g \<longrightarrow> comdat_map st' ''.text.f'' = Some g)"
    by (rule T[where get_data=grp_data and i=2 and st'=st' and sg="''.text.f''",
          THEN conjunct2, THEN conjunct2, THEN conjunct2, THEN conjunct2, THEN conjunct2, THEN mp])
       (intro conjI g2 s2 n(1) d2(1,2) p)
  then have r2: "groups_of 2 st' = [\<lparr>cg_group = ''.text.f'', cg_sect_idx = 2, cg_members = [1]\<rparr>]"
    "comdat_map st' ''.text.f'' \<noteq> None"
    by (simp_all add: e d2(3))
  have "(\<forall>sti. read_section ctx0 () grp_o grp_shdrs grp_data grp_other sti 3 = Inr sti) \<and>
      (\<forall>st'. ?pass = Inr st' \<longrightarrow> groups_of 3 st' = groups_of 3 grp_start)"
    by (rule T[where get_data=grp_data and i=3 and sg="''vtable_for_X''",
          THEN conjunct2, THEN conjunct2, THEN conjunct1, THEN mp])
       (intro conjI g3 s3 disjI2 d3[THEN conjunct1] d3[THEN conjunct2])
  with p e have r3: "groups_of 3 st' = []" by simp
  have pre1: "for_each (read_section ctx0 () grp_o grp_shdrs ?d1 grp_other) [0 ..< 3] grp_start
      = Inr (grp_start\<lparr>comdat_map := [''.text.f'' \<mapsto> ()],
               comdat_groups := [\<lparr>cg_group = ''.text.f'', cg_sect_idx = 2, cg_members = [1]\<rparr>]\<rparr>)"
    by (simp add: grp_defs sections_defs upt_rec)
  have "(\<exists>e'. initialize_sections ctx0 () grp_o grp_shdrs ?d1 grp_other grp_attach grp_start = Inl e') \<and>
      (\<forall>sti. for_each (read_section ctx0 () grp_o grp_shdrs ?d1 grp_other) [0 ..< 3] grp_start = Inr sti \<longrightarrow>
         initialize_sections ctx0 () grp_o grp_shdrs ?d1 grp_other grp_attach grp_start =
           Inl (Fatal ''empty SHT_GROUP''))"
    by (rule T[where get_data="?d1" and i=3 and sg="''vtable_for_X''",
          THEN conjunct2, THEN conjunct2, THEN conjunct2, THEN conjunct1, THEN mp])
       (intro conjI g3 s3 n(2), simp)
  with pre1 have f1: "initialize_sections ctx0 () grp_o grp_shdrs ?d1 grp_other grp_attach grp_start =
           Inl (Fatal ''empty SHT_GROUP'')"
    by blast
  have pre2: "for_each (read_section ctx0 () grp_o grp_shdrs ?d2 grp_other) [0 ..< 3] grp_start
      = Inr (grp_start\<lparr>comdat_map := [''.text.f'' \<mapsto> ()],
               comdat_groups := [\<lparr>cg_group = ''.text.f'', cg_sect_idx = 2, cg_members = [1]\<rparr>]\<rparr>)"
    by (simp add: grp_defs sections_defs upt_rec)
  have "(\<exists>e'. initialize_sections ctx0 () grp_o grp_shdrs ?d2 grp_other grp_attach grp_start = Inl e') \<and>
      (\<forall>sti. for_each (read_section ctx0 () grp_o grp_shdrs ?d2 grp_other) [0 ..< 3] grp_start = Inr sti \<longrightarrow>
         initialize_sections ctx0 () grp_o grp_shdrs ?d2 grp_other grp_attach grp_start =
           Inl (Fatal ''unsupported SHT_GROUP format''))"
    by (rule T[where get_data="?d2" and i=3 and sg="''vtable_for_X''",
          THEN conjunct2, THEN conjunct2, THEN conjunct2, THEN conjunct2, THEN conjunct1, THEN mp])
       (intro conjI g3 s3 n(2), simp_all add: GRP_COMDAT_def)
  with pre2 have f2: "initialize_sections ctx0 () grp_o grp_shdrs ?d2 grp_other grp_attach grp_start =
           Inl (Fatal ''unsupported SHT_GROUP format'')"
    by blast
  from p r2 r3 f1 f2 show ?thesis by blast
qed

subsection \<open>Section pieces: the symbols\<close>

lemma attach_piece_shape:
  assumes "attach_piece f heap i = Inr h'"
  shows "\<exists>r s. i < length (symbols f) \<and> symbols f ! i = Some r \<and> heap r = Some s \<and>
           i < length (elf_syms f) \<and>
           (h' = heap \<or> (\<exists>fr off. h' = heap(r \<mapsto> (set_frag (Some fr) s)\<lparr>sym_value := off\<rparr>)))"
proof -
  from assms obtain p where p: "at (symbols f) i = Inr p"
    and r1: "bind_err (deref heap p) (\<lambda>(r, s).
     bind_err (at (elf_syms f) i) (\<lambda>esym.
       if is_abs esym \<or> is_common esym \<or> is_undef esym then Inr heap
       else
         bind_err (at (mergeable_sections f) (get_shndx f i)) (\<lambda>m.
           case m of
             None \<Rightarrow> Inr heap
           | Some ms \<Rightarrow>
               if \<not> parent_resolved ms then Inr heap
               else
                 (case get_fragment ms (st_value esym) of
                    (None, off) \<Rightarrow> Inl (Fatal ''bad symbol value'')
                  | (Some fr, off) \<Rightarrow>
                      Inr (heap(r \<mapsto> (set_frag (Some fr) s)\<lparr>sym_value := off\<rparr>)))))) = Inr h'"
    unfolding attach_piece_def by (rule bind_err_InrE)
  from r1 obtain rs where d: "deref heap p = Inr rs"
    and r2: "(case rs of (r, s) \<Rightarrow>
     bind_err (at (elf_syms f) i) (\<lambda>esym.
       if is_abs esym \<or> is_common esym \<or> is_undef esym then Inr heap
       else
         bind_err (at (mergeable_sections f) (get_shndx f i)) (\<lambda>m.
           case m of
             None \<Rightarrow> Inr heap
           | Some ms \<Rightarrow>
               if \<not> parent_resolved ms then Inr heap
               else
                 (case get_fragment ms (st_value esym) of
                    (None, off) \<Rightarrow> Inl (Fatal ''bad symbol value'')
                  | (Some fr, off) \<Rightarrow>
                      Inr (heap(r \<mapsto> (set_frag (Some fr) s)\<lparr>sym_value := off\<rparr>)))))) = Inr h'"
    by (rule bind_err_InrE)
  obtain r s where rs: "rs = (r, s)" by (cases rs)
  from d rs have pr: "p = Some r" and hr: "heap r = Some s" by (simp_all add: deref_Inr_iff)
  from p pr have l1: "i < length (symbols f)" and sr: "symbols f ! i = Some r"
    by (simp_all add: at_Inr_iff)
  from r2 rs obtain esym where e: "at (elf_syms f) i = Inr esym"
    and r3: "(if is_abs esym \<or> is_common esym \<or> is_undef esym then Inr heap
       else
         bind_err (at (mergeable_sections f) (get_shndx f i)) (\<lambda>m.
           case m of
             None \<Rightarrow> Inr heap
           | Some ms \<Rightarrow>
               if \<not> parent_resolved ms then Inr heap
               else
                 (case get_fragment ms (st_value esym) of
                    (None, off) \<Rightarrow> Inl (Fatal ''bad symbol value'')
                  | (Some fr, off) \<Rightarrow>
                      Inr (heap(r \<mapsto> (set_frag (Some fr) s)\<lparr>sym_value := off\<rparr>))))) = Inr h'"
    by (auto elim: bind_err_InrE)
  from e have l2: "i < length (elf_syms f)" by (simp add: at_Inr_iff)
  have "h' = heap \<or> (\<exists>fr off. h' = heap(r \<mapsto> (set_frag (Some fr) s)\<lparr>sym_value := off\<rparr>))"
  proof (cases "is_abs esym \<or> is_common esym \<or> is_undef esym")
    case True
    with r3 show ?thesis by simp
  next
    case False
    from r3[unfolded if_not_P[OF False] bind_err_Inr_iff]
    obtain m :: "MergeableSection option" where
      r4: "(case m of
             None \<Rightarrow> Inr heap
           | Some ms \<Rightarrow>
               if \<not> parent_resolved ms then Inr heap
               else
                 (case get_fragment ms (st_value esym) of
                    (None, off) \<Rightarrow> Inl (Fatal ''bad symbol value'')
                  | (Some fr, off) \<Rightarrow>
                      Inr (heap(r \<mapsto> (set_frag (Some fr) s)\<lparr>sym_value := off\<rparr>)))) = Inr h'"
      by (elim exE conjE)
    show ?thesis
    proof (cases m)
      case None
      with r4 show ?thesis by simp
    next
      case (Some ms)
      show ?thesis
      proof (cases "parent_resolved ms")
        case False
        with r4 Some show ?thesis by simp
      next
        case True
        obtain fo off where g: "get_fragment ms (st_value esym) = (fo, off)"
          by (cases "get_fragment ms (st_value esym)")
        show ?thesis
        proof (cases fo)
          case None
          with r4 Some True g show ?thesis by simp
        next
          case (Some fr)
          with r4 \<open>m = Some ms\<close> True g
          have "h' = heap(r \<mapsto> (set_frag (Some fr) s)\<lparr>sym_value := off\<rparr>)" by simp
          then show ?thesis by blast
        qed
      qed
    qed
  qed
  with l1 sr hr l2 show ?thesis by blast
qed

lemma attach_piece_frame:
  assumes "attach_piece f heap i = Inr h'" and "symbols f ! i \<noteq> Some x"
  shows "h' x = heap x"
proof -
  from attach_piece_shape[OF assms(1)] obtain r s where
    sr: "symbols f ! i = Some r"
    and c: "h' = heap \<or> (\<exists>fr off. h' = heap(r \<mapsto> (set_frag (Some fr) s)\<lparr>sym_value := off\<rparr>))"
    by blast
  from sr assms(2) have "r \<noteq> x" by auto
  with c show ?thesis by auto
qed

lemma attach_piece_entry:
  assumes pe: "piece_entry f i ms" and l: "i < length (symbols f)"
    and sr: "symbols f ! i = Some r" and hr: "heap r = Some s"
  shows "attach_piece f heap i =
           (case get_fragment ms (st_value (elf_syms f ! i)) of
              (None, off) \<Rightarrow> Inl (Fatal ''bad symbol value'')
            | (Some fr, off) \<Rightarrow> Inr (heap(r \<mapsto> (set_frag (Some fr) s)\<lparr>sym_value := off\<rparr>)))"
proof -
  from pe have i: "i < length (elf_syms f)"
    and n: "\<not> (is_abs (elf_syms f ! i) \<or> is_common (elf_syms f ! i) \<or> is_undef (elf_syms f ! i))"
    and m: "get_shndx f i < length (mergeable_sections f)"
      "mergeable_sections f ! get_shndx f i = Some ms" "parent_resolved ms"
    by (simp_all add: piece_entry_def)
  have d: "deref heap (Some r) = Inr (r, s)" using hr by (rule deref_Some)
  show ?thesis
    unfolding attach_piece_def
    by (simp add: at_in_range[OF l] at_in_range[OF i] at_in_range[OF m(1)] sr d bind_err_simps
        if_not_P[OF n] m(2,3))
qed

lemma attach_pieces_at:
  assumes run: "for_each (attach_piece f) [1 ..< length (elf_syms f)] heap = Inr heap1"
    and i: "1 \<le> i" "i < length (elf_syms f)"
    and others: "\<forall>j. 1 \<le> j \<and> j < length (elf_syms f) \<and> j \<noteq> i \<longrightarrow> symbols f ! j \<noteq> Some r"
  shows "\<exists>ha hb. ha r = heap r \<and> attach_piece f ha i = Inr hb \<and> heap1 r = hb r"
proof -
  have "\<exists>h1 h2. (\<forall>x\<in>{r}. h1 x = heap x) \<and> attach_piece f h1 i = Inr h2 \<and>
           (\<forall>x\<in>{r}. heap1 x = h2 x)"
    using run i
  proof (rule for_each_upt_at[where P = "\<lambda>j. symbols f ! j \<noteq> Some r"])
    show "\<And>h j h'. attach_piece f h j = Inr h' \<Longrightarrow> symbols f ! j \<noteq> Some r \<Longrightarrow>
       \<forall>x\<in>{r}. h' x = h x"
      by (simp add: attach_piece_frame)
    from others show "\<forall>j. 1 \<le> j \<and> j < length (elf_syms f) \<and> j \<noteq> i \<longrightarrow> symbols f ! j \<noteq> Some r" .
  qed
  then show ?thesis by auto
qed

lemma attach_pieces_frame:
  assumes run: "for_each (attach_piece f) js heap = Inr heap1"
    and "\<forall>j\<in>set js. symbols f ! j \<noteq> Some x"
  shows "heap1 x = heap x"
proof -
  have "\<forall>y\<in>{x}. heap1 y = heap y"
  proof (rule for_each_frame[where P = "\<lambda>j. symbols f ! j \<noteq> Some x" and body = "attach_piece f"])
    show "for_each (attach_piece f) js heap = Inr heap1" by fact
    show "\<forall>j\<in>set js. symbols f ! j \<noteq> Some x" by fact
    show "\<And>h j h'. attach_piece f h j = Inr h' \<Longrightarrow> symbols f ! j \<noteq> Some x \<Longrightarrow>
       \<forall>y\<in>{x}. h' y = h y"
      by (simp add: attach_piece_frame)
  qed
  then show ?thesis by simp
qed

lemma resize_frag_syms_other:
  "(\<forall>k. x \<noteq> FragSym this k) \<Longrightarrow> resize_frag_syms this old n heap x = heap x"
  by (cases x) (auto simp: resize_frag_syms_def)

lemma resize_frag_syms_new:
  "k < n \<Longrightarrow> \<exists>s. resize_frag_syms this 0 n heap (FragSym this k) = Some s"
  by (simp add: resize_frag_syms_def)

subsection \<open>Section pieces: the relocations of a section\<close>

lemma redirect_rel_shape:
  assumes step: "redirect_rel this f nfrag k (rs, heap, idx) j = Inr (rs', heap', idx')"
  shows "j < length rs \<and> unat (r_sym (rs ! j)) < length (elf_syms f) \<and>
         (if st_type (elf_syms f ! unat (r_sym (rs ! j))) \<noteq> STT_SECTION
          then rs' = rs \<and> heap' = heap \<and> idx' = idx
          else get_shndx f (unat (r_sym (rs ! j))) < length (mergeable_sections f) \<and>
            (case mergeable_sections f ! get_shndx f (unat (r_sym (rs ! j))) of
               None \<Rightarrow> rs' = rs \<and> heap' = heap \<and> idx' = idx
             | Some ms \<Rightarrow>
                 parent_resolved ms \<and> idx < nfrag \<and>
                 (\<exists>fr off s.
                    get_fragment ms (st_value (elf_syms f ! unat (r_sym (rs ! j))) +
                                     get_addend f k (rs ! j)) = (Some fr, off) \<and>
                    heap (FragSym this idx) = Some s \<and>
                    rs' = rs[j := (rs ! j)\<lparr>r_sym := of_nat (length (elf_syms f) + idx)\<rparr>] \<and>
                    heap' = heap(FragSym this idx \<mapsto>
                              fragment_symbol this (r_sym (rs ! j)) fr
                                (off - get_addend f k (rs ! j)) s) \<and>
                    idx' = Suc idx)))"
proof -
  let ?st = "(rs, heap, idx)"
  from step obtain r where r: "at rs j = Inr r"
    and r1: "bind_err (at (elf_syms f) (unat (r_sym r))) (\<lambda>esym.
        if st_type esym \<noteq> STT_SECTION then Inr ?st
        else
          bind_err (at (mergeable_sections f) (get_shndx f (unat (r_sym r)))) (\<lambda>m.
            case m of
              None \<Rightarrow> Inr ?st
            | Some ms \<Rightarrow>
                if \<not> parent_resolved ms then Inl AssertionFailed
                else
                  (case get_fragment ms (st_value esym + get_addend f k r) of
                     (None, off) \<Rightarrow> Inl (Fatal ''bad relocation'')
                   | (Some fr, off) \<Rightarrow>
                       bind_err (if idx < nfrag then deref heap (Some (FragSym this idx))
                                 else Inl OutOfBounds) (\<lambda>(a, s).
                         Inr (rs[j := r\<lparr>r_sym := of_nat (length (elf_syms f) + idx)\<rparr>],
                              heap(a \<mapsto> fragment_symbol this (r_sym r) fr
                                                (off - get_addend f k r) s),
                              Suc idx))))) = Inr (rs', heap', idx')"
    unfolding redirect_rel_def prod.case by (rule bind_err_InrE)
  from r have j: "j < length rs" and rj: "r = rs ! j" by (simp_all add: at_Inr_iff)
  from r1 obtain esym where e: "at (elf_syms f) (unat (r_sym r)) = Inr esym"
    and r2: "(if st_type esym \<noteq> STT_SECTION then Inr ?st
        else
          bind_err (at (mergeable_sections f) (get_shndx f (unat (r_sym r)))) (\<lambda>m.
            case m of
              None \<Rightarrow> Inr ?st
            | Some ms \<Rightarrow>
                if \<not> parent_resolved ms then Inl AssertionFailed
                else
                  (case get_fragment ms (st_value esym + get_addend f k r) of
                     (None, off) \<Rightarrow> Inl (Fatal ''bad relocation'')
                   | (Some fr, off) \<Rightarrow>
                       bind_err (if idx < nfrag then deref heap (Some (FragSym this idx))
                                 else Inl OutOfBounds) (\<lambda>(a, s).
                         Inr (rs[j := r\<lparr>r_sym := of_nat (length (elf_syms f) + idx)\<rparr>],
                              heap(a \<mapsto> fragment_symbol this (r_sym r) fr
                                                (off - get_addend f k r) s),
                              Suc idx))))) = Inr (rs', heap', idx')"
    by (rule bind_err_InrE)
  from e have l: "unat (r_sym r) < length (elf_syms f)" and ee: "esym = elf_syms f ! unat (r_sym r)"
    by (simp_all add: at_Inr_iff)
  have main: "if st_type esym \<noteq> STT_SECTION
          then rs' = rs \<and> heap' = heap \<and> idx' = idx
          else get_shndx f (unat (r_sym r)) < length (mergeable_sections f) \<and>
            (case mergeable_sections f ! get_shndx f (unat (r_sym r)) of
               None \<Rightarrow> rs' = rs \<and> heap' = heap \<and> idx' = idx
             | Some ms \<Rightarrow>
                 parent_resolved ms \<and> idx < nfrag \<and>
                 (\<exists>fr off s.
                    get_fragment ms (st_value esym + get_addend f k r) = (Some fr, off) \<and>
                    heap (FragSym this idx) = Some s \<and>
                    rs' = rs[j := r\<lparr>r_sym := of_nat (length (elf_syms f) + idx)\<rparr>] \<and>
                    heap' = heap(FragSym this idx \<mapsto>
                              fragment_symbol this (r_sym r) fr (off - get_addend f k r) s) \<and>
                    idx' = Suc idx))"
  proof (cases "st_type esym \<noteq> STT_SECTION")
    case True
    from r2[unfolded if_P[OF True]] show ?thesis unfolding if_P[OF True] by simp
  next
    case False
    from r2[unfolded if_not_P[OF False] bind_err_Inr_iff]
    obtain m :: "MergeableSection option" where
      m: "at (mergeable_sections f) (get_shndx f (unat (r_sym r))) = Inr m"
      and r3: "(case m of
              None \<Rightarrow> Inr ?st
            | Some ms \<Rightarrow>
                if \<not> parent_resolved ms then Inl AssertionFailed
                else
                  (case get_fragment ms (st_value esym + get_addend f k r) of
                     (None, off) \<Rightarrow> Inl (Fatal ''bad relocation'')
                   | (Some fr, off) \<Rightarrow>
                       bind_err (if idx < nfrag then deref heap (Some (FragSym this idx))
                                 else Inl OutOfBounds) (\<lambda>(a, s).
                         Inr (rs[j := r\<lparr>r_sym := of_nat (length (elf_syms f) + idx)\<rparr>],
                              heap(a \<mapsto> fragment_symbol this (r_sym r) fr
                                                (off - get_addend f k r) s),
                              Suc idx)))) = Inr (rs', heap', idx')"
      by (elim exE conjE)
    from m have ml: "get_shndx f (unat (r_sym r)) < length (mergeable_sections f)"
      and mm: "mergeable_sections f ! get_shndx f (unat (r_sym r)) = m"
      by (simp_all add: at_Inr_iff)
    have "case m of
               None \<Rightarrow> rs' = rs \<and> heap' = heap \<and> idx' = idx
             | Some ms \<Rightarrow>
                 parent_resolved ms \<and> idx < nfrag \<and>
                 (\<exists>fr off s.
                    get_fragment ms (st_value esym + get_addend f k r) = (Some fr, off) \<and>
                    heap (FragSym this idx) = Some s \<and>
                    rs' = rs[j := r\<lparr>r_sym := of_nat (length (elf_syms f) + idx)\<rparr>] \<and>
                    heap' = heap(FragSym this idx \<mapsto>
                              fragment_symbol this (r_sym r) fr (off - get_addend f k r) s) \<and>
                    idx' = Suc idx)"
    proof (cases m)
      case None
      with r3 show ?thesis by simp
    next
      case (Some ms)
      from r3 Some have pr: "parent_resolved ms" by (auto split: if_splits)
      obtain fo off where g: "get_fragment ms (st_value esym + get_addend f k r) = (fo, off)"
        by (cases "get_fragment ms (st_value esym + get_addend f k r)")
      from r3 Some pr g obtain fr where fo: "fo = Some fr" by (cases fo) simp_all
      from r3 Some pr g fo have
        r4: "bind_err (if idx < nfrag then deref heap (Some (FragSym this idx))
                                 else Inl OutOfBounds) (\<lambda>(a, s).
                         Inr (rs[j := r\<lparr>r_sym := of_nat (length (elf_syms f) + idx)\<rparr>],
                              heap(a \<mapsto> fragment_symbol this (r_sym r) fr
                                                (off - get_addend f k r) s),
                              Suc idx)) = Inr (rs', heap', idx')"
        by simp
      from r4 have lt: "idx < nfrag"
        by (cases "idx < nfrag") (simp_all add: bind_err_simps)
      from r4 lt obtain s where hs: "heap (FragSym this idx) = Some s"
        by (cases "heap (FragSym this idx)") (simp_all add: deref_def bind_err_simps)
      from r4 lt hs have "rs' = rs[j := r\<lparr>r_sym := of_nat (length (elf_syms f) + idx)\<rparr>]"
        "heap' = heap(FragSym this idx \<mapsto>
                              fragment_symbol this (r_sym r) fr (off - get_addend f k r) s)"
        "idx' = Suc idx"
        by (simp_all add: deref_def bind_err_simps)
      with Some pr lt g fo hs show ?thesis by simp
    qed
    with ml mm False show ?thesis by simp
  qed
  from j l main show ?thesis unfolding rj ee by simp
qed

lemma redirect_rel_frame:
  assumes step: "redirect_rel this f nfrag k (rs, heap, idx) j = Inr (rs', heap', idx')"
  shows "idx \<le> idx' \<and> length rs' = length rs \<and> (\<forall>j'. j' \<noteq> j \<longrightarrow> rs' ! j' = rs ! j') \<and>
         (\<forall>x. (\<forall>y. idx \<le> y \<longrightarrow> x \<noteq> FragSym this y) \<longrightarrow> heap' x = heap x)"
proof -
  note s = redirect_rel_shape[OF step]
  show ?thesis
  proof (cases "st_type (elf_syms f ! unat (r_sym (rs ! j))) \<noteq> STT_SECTION")
    case True
    with s show ?thesis by simp
  next
    case False
    show ?thesis
    proof (cases "mergeable_sections f ! get_shndx f (unat (r_sym (rs ! j)))")
      case None
      with s False show ?thesis by simp
    next
      case (Some ms)
      with s False obtain fr off sy where
        "rs' = rs[j := (rs ! j)\<lparr>r_sym := of_nat (length (elf_syms f) + idx)\<rparr>]"
        "heap' = heap(FragSym this idx \<mapsto>
                  fragment_symbol this (r_sym (rs ! j)) fr (off - get_addend f k (rs ! j)) sy)"
        "idx' = Suc idx"
        by auto
      then show ?thesis by auto
    qed
  qed
qed

lemma redirect_rels_frame:
  "for_each (redirect_rel this f nfrag k) js (rs, heap, idx) = Inr (rs', heap', idx') \<Longrightarrow>
   idx \<le> idx' \<and> length rs' = length rs \<and> (\<forall>j'. j' \<notin> set js \<longrightarrow> rs' ! j' = rs ! j') \<and>
   (\<forall>x. (\<forall>y. idx \<le> y \<longrightarrow> x \<noteq> FragSym this y) \<longrightarrow> heap' x = heap x)"
proof (induction js arbitrary: rs heap idx)
  case Nil
  then show ?case by simp
next
  case (Cons j js)
  from Cons.prems obtain st1 where s1: "redirect_rel this f nfrag k (rs, heap, idx) j = Inr st1"
    and rest: "for_each (redirect_rel this f nfrag k) js st1 = Inr (rs', heap', idx')"
    by (cases "redirect_rel this f nfrag k (rs, heap, idx) j") simp_all
  obtain rs1 h1 i1 where st1: "st1 = (rs1, h1, i1)" by (cases st1)
  from redirect_rel_frame[OF s1[unfolded st1]] have
    a: "idx \<le> i1" "length rs1 = length rs" "\<forall>j'. j' \<noteq> j \<longrightarrow> rs1 ! j' = rs ! j'"
      "\<forall>x. (\<forall>y. idx \<le> y \<longrightarrow> x \<noteq> FragSym this y) \<longrightarrow> h1 x = heap x"
    by simp_all
  from Cons.IH[OF rest[unfolded st1]] have
    b: "i1 \<le> idx'" "length rs' = length rs1" "\<forall>j'. j' \<notin> set js \<longrightarrow> rs' ! j' = rs1 ! j'"
      "\<forall>x. (\<forall>y. i1 \<le> y \<longrightarrow> x \<noteq> FragSym this y) \<longrightarrow> heap' x = h1 x"
    by simp_all
  have c: "\<forall>x. (\<forall>y. idx \<le> y \<longrightarrow> x \<noteq> FragSym this y) \<longrightarrow> heap' x = heap x"
  proof (intro allI impI)
    fix x assume x: "\<forall>y. idx \<le> y \<longrightarrow> x \<noteq> FragSym this y"
    with a(1) have "\<forall>y. i1 \<le> y \<longrightarrow> x \<noteq> FragSym this y" by auto
    with b(4) a(4) x show "heap' x = heap x" by simp
  qed
  from a b c show ?case by simp
qed

lemma redirect_rels_at:
  assumes run: "for_each (redirect_rel this f nfrag k) [0 ..< length rs] (rs, heap, idx)
                  = Inr (rs', heap', idx')"
    and j: "j < length rs"
    and t: "st_type (elf_syms f ! unat (r_sym (rs ! j))) = STT_SECTION"
    and m: "mergeable_sections f ! get_shndx f (unat (r_sym (rs ! j))) = Some ms"
  shows "\<exists>x fr off s. idx \<le> x \<and> x < idx' \<and> x < nfrag \<and> parent_resolved ms \<and>
           get_fragment ms (st_value (elf_syms f ! unat (r_sym (rs ! j))) +
                            get_addend f k (rs ! j)) = (Some fr, off) \<and>
           rs' ! j = (rs ! j)\<lparr>r_sym := of_nat (length (elf_syms f) + x)\<rparr> \<and>
           heap' (FragSym this x) =
             Some (fragment_symbol this (r_sym (rs ! j)) fr (off - get_addend f k (rs ! j)) s)"
proof -
  let ?step = "redirect_rel this f nfrag k"
  have z: "0 \<le> j" by simp
  from run[unfolded upt_split_at[OF z j]] obtain sa sb where
    a: "for_each ?step [0 ..< j] (rs, heap, idx) = Inr sa"
    and b: "?step sa j = Inr sb"
    and c: "for_each ?step [Suc j ..< length rs] sb = Inr (rs', heap', idx')"
    by (blast dest: for_each_split)
  obtain rs1 h1 i1 where sa: "sa = (rs1, h1, i1)" by (cases sa)
  obtain rs2 h2 i2 where sb: "sb = (rs2, h2, i2)" by (cases sb)
  from redirect_rels_frame[OF a[unfolded sa]] have
    fa: "idx \<le> i1" "length rs1 = length rs" "rs1 ! j = rs ! j"
    by simp_all
  note s = redirect_rel_shape[OF b[unfolded sa sb]]
  from s t m fa(3) obtain fr off sy where
    pr: "parent_resolved ms" and lt: "i1 < nfrag"
    and g: "get_fragment ms (st_value (elf_syms f ! unat (r_sym (rs ! j))) +
                            get_addend f k (rs ! j)) = (Some fr, off)"
    and rs2: "rs2 = rs1[j := (rs ! j)\<lparr>r_sym := of_nat (length (elf_syms f) + i1)\<rparr>]"
    and h2: "h2 = h1(FragSym this i1 \<mapsto>
                  fragment_symbol this (r_sym (rs ! j)) fr (off - get_addend f k (rs ! j)) sy)"
    and i2: "i2 = Suc i1"
    by auto
  from redirect_rels_frame[OF c[unfolded sb]] have
    fc: "i2 \<le> idx'" "rs' ! j = rs2 ! j"
      "\<forall>x. (\<forall>y. i2 \<le> y \<longrightarrow> x \<noteq> FragSym this y) \<longrightarrow> heap' x = h2 x"
    by simp_all
  have "\<forall>y. i2 \<le> y \<longrightarrow> FragSym this i1 \<noteq> FragSym this y" using i2 by auto
  with fc(3) have "heap' (FragSym this i1) = h2 (FragSym this i1)" by blast
  then have hp: "heap' (FragSym this i1) =
      Some (fragment_symbol this (r_sym (rs ! j)) fr (off - get_addend f k (rs ! j)) sy)"
    by (simp add: h2)
  have rj: "rs' ! j = (rs ! j)\<lparr>r_sym := of_nat (length (elf_syms f) + i1)\<rparr>"
    using fc(2) j fa(2) by (simp add: rs2)
  from fa(1) fc(1) i2 lt pr g rj hp show ?thesis
    by (intro exI[of _ i1] exI[of _ fr] exI[of _ off] exI[of _ sy]) simp
qed

end
